(* ===== verification/Unify_Prelude.thy ===== *)
theory Unify_Prelude
  imports Main "HOL-Library.Word"
begin

text \<open>
  Shared vocabulary of the development: machine types, the collections of rewrite rules that
  the component theories extend, and generic facts on lists and bytes.

  A \<open>std::string\<close>, a \<open>const char*\<close> and a \<open>std::vector<unsigned char>\<close> are all
  sequences of bytes here (\<open>byte list\<close>); \<open>str\<close> turns a literal of the source into one.
\<close>

section \<open>Machine types\<close>

type_synonym byte = "8 word"
type_synonym u16 = "16 word"
type_synonym u32 = "32 word"
type_synonym u64 = "64 word"
type_synonym bytes = "byte list"

definition str :: "string \<Rightarrow> bytes" where
  "str s = map of_char s"

section \<open>Collections\<close>

named_theorems wire_simps \<open>rewrite rules for the wire encodings\<close>
named_theorems parser_simps \<open>unfolding rules of the parser combinators\<close>
named_theorems step_simps \<open>unfolding rules of the operations of a component\<close>

section \<open>Lists\<close>

lemma length_less_append_cancel: "length r < length xs \<Longrightarrow> length (r @ t) < length (xs @ t)"
  by simp

lemma find_append: "find P (xs @ ys) = (case find P xs of Some x \<Rightarrow> Some x | None \<Rightarrow> find P ys)"
  by (induction xs) auto

lemma find_Some_in: "find P xs = Some x \<Longrightarrow> x \<in> set xs \<and> P x"
  by (auto simp: find_Some_iff)

lemma str_Nil [simp]: "str [] = []"
  by (simp add: str_def)

lemma str_Cons [simp]: "str (c # s) = of_char c # str s"
  by (simp add: str_def)

lemma length_str [simp]: "length (str s) = length s"
  by (simp add: str_def)

section \<open>Bytes\<close>

lemma byte_uint_range: "0 \<le> uint (b :: byte) \<and> uint b < 256"
  using unsigned_less [of b, where ?'a = int] by simp

lemma byte_unat_lt [simp]: "unat (b :: byte) < 256"
  using unsigned_less [of b, where ?'a = nat] by simp

lemma word_of_int_uint_byte [simp]: "word_of_int (uint (b :: byte)) = b"
  by simp

lemma uint_word_of_int_byte [simp]: "0 \<le> x \<Longrightarrow> x < 256 \<Longrightarrow> uint (word_of_int x :: byte) = x"
  by (simp add: unsigned_of_int take_bit_int_eq_self)

lemma unat_of_nat_byte: "unat (of_nat n :: byte) = n mod 256"
  by (simp add: unat_of_nat)

section \<open>Words and their bytes\<close>

unbundle bit_operations_syntax

lemmas unsigned_eqs =
  unsigned_ucast_eq unsigned_of_nat unsigned_drop_bit_eq unsigned_push_bit_eq take_bit_eq_mod

lemma sint_u32: "sint (x :: u32) = uint x - (if bit x 31 then 2 ^ 32 else 0)"
proof -
  have "sint x = take_bit 32 (uint x) - 2 ^ 32 * of_bool (bit (uint x) 31)"
    by (simp add: sint_uint signed_take_bit_eq_take_bit_minus)
  moreover have "take_bit 32 (uint x) = uint x"
    using unsigned_less [of x, where ?'a = int] by (simp add: take_bit_int_eq_self)
  ultimately show ?thesis by (simp add: bit_simps)
qed

lemma sint_u32_nonneg: "0 \<le> sint (x :: u32) \<Longrightarrow> sint x = uint x"
  using sint_u32 [of x] unsigned_less [of x, where ?'a = int] by (auto split: if_splits)

lemma sint_u32_small:
  assumes "uint (x :: u32) < 2 ^ 31"
  shows "sint x = uint x"
proof -
  have "\<not> bit (uint x) 31" using assms by (simp add: bit_iff_odd)
  then show ?thesis using sint_u32 [of x] by (simp add: bit_simps)
qed

lemma and_255: "(y :: u32) AND 0xff = take_bit 8 y"
  by (simp add: take_bit_eq_mask mask_eq_exp_minus_1)

lemma ucast_and_255 [simp]: "(ucast ((y :: u32) AND 0xff) :: byte) = ucast y"
  unfolding and_255 by (rule bit_word_eqI) (simp add: bit_simps)

lemma be32_join:
  fixes x :: u32
  shows "push_bit 24 (ucast (ucast (drop_bit 24 x) :: byte)) OR
     push_bit 16 (ucast (ucast (drop_bit 16 x) :: byte)) OR
     push_bit 8 (ucast (ucast (drop_bit 8 x) :: byte)) OR
     ucast (ucast x :: byte) = x"
proof (rule bit_word_eqI, goal_cases)
  case (1 n)
  then consider "n < 8" | "8 \<le> n" "n < 16" | "16 \<le> n" "n < 24" | "24 \<le> n" "n < 32" by fastforce
  then show ?case by cases (simp_all add: bit_simps, auto)
qed

lemma be16_join:
  fixes x :: u16
  shows "push_bit 8 (ucast (ucast (drop_bit 8 x) :: byte)) OR ucast (ucast x :: byte) = x"
proof (rule bit_word_eqI, goal_cases)
  case (1 n)
  then consider "n < 8" | "8 \<le> n" "n < 16" by fastforce
  then show ?case by cases (simp_all add: bit_simps, auto)
qed

lemma of_nat_bytes_u16:
  "n < 65536 \<Longrightarrow> (of_nat (n div 256) :: byte) = ucast (drop_bit 8 (of_nat n :: u16))"
  "(of_nat (n mod 256) :: byte) = ucast (of_nat n :: u16)"
  by (simp_all add: word_unat_eq_iff unsigned_eqs drop_bit_eq_div unat_div mod_mod_cancel)

lemma of_nat_bytes_u32:
  "n < 2 ^ 32 \<Longrightarrow> (of_nat (n div 2 ^ 24) :: byte) = ucast (drop_bit 24 (of_nat n :: u32))"
  "n < 2 ^ 32 \<Longrightarrow> (of_nat (n div 2 ^ 16 mod 256) :: byte) = ucast (drop_bit 16 (of_nat n :: u32))"
  "n < 2 ^ 32 \<Longrightarrow> (of_nat (n div 2 ^ 8 mod 256) :: byte) = ucast (drop_bit 8 (of_nat n :: u32))"
  "(of_nat (n mod 256) :: byte) = ucast (of_nat n :: u32)"
  by (simp_all add: word_unat_eq_iff unsigned_eqs drop_bit_eq_div unat_div mod_mod_cancel)

end
