(* ===== verification/Spirit_Qi.thy ===== *)
theory Spirit_Qi
  imports Unify_Prelude
begin

text \<open>
  The parsers of Boost.Spirit Qi that the debugger grammar is built from
  (\<^verbatim>\<open>src/unifyframework/boost_1_60_0/boost/spirit/home/qi\<close>). A Qi parser takes an iterator range and
  either fails and leaves the iterator where it was, or succeeds, moves it and fills an
  attribute; here it maps the remaining bytes to the attribute and the bytes left.

  The attribute of a character parser is the byte that was read. Its numeric value as a C++
  \<open>char\<close>, which the semantic actions see as \<open>_1\<close>, depends on the platform: \<open>char\<close> is signed
  on iOS and unsigned on Android/ARM. \<open>char_of_byte sc\<close> reads it, with \<open>sc\<close> telling
  whether \<open>char\<close> is signed; every statement of the development holds for both.

  The locales \<open>local_parser\<close> and \<open>consuming_parser\<close> are the contract that the receiver of
  the debugger relies on: a parser looks only at the bytes it consumes, so that more data arriving
  behind them never changes a successful parse.
\<close>

unbundle bit_operations_syntax

section \<open>Combinators\<close>

type_synonym 'a parser = "bytes \<Rightarrow> ('a \<times> bytes) option"

definition char_of_byte :: "bool \<Rightarrow> byte \<Rightarrow> int" where
  "char_of_byte sc b = (if sc then sint b else uint b)"

definition ischar :: "int \<Rightarrow> bool" where
  "ischar ch \<longleftrightarrow> ch AND NOT 0xff = 0 \<or> ch OR 0xff = NOT 0"

definition char_parser :: "(byte \<Rightarrow> bool) \<Rightarrow> byte parser" where
  "char_parser test bs =
     (case bs of
        [] \<Rightarrow> None
      | b # rest \<Rightarrow> if test b then Some (b, rest) else None)"

definition literal_char :: "bool \<Rightarrow> byte \<Rightarrow> byte parser" where
  "literal_char sc c =
     char_parser (\<lambda>b. ischar (uint b) \<and> char_of_byte sc c = char_of_byte sc b)"

definition char_range :: "bool \<Rightarrow> byte \<Rightarrow> byte \<Rightarrow> byte parser" where
  "char_range sc from to =
     char_parser (\<lambda>b. ischar (uint b) \<and>
       \<not> char_of_byte sc b < char_of_byte sc from \<and>
       \<not> char_of_byte sc to < char_of_byte sc b)"

definition any_char :: "byte parser" where
  "any_char = char_parser (\<lambda>b. ischar (uint b))"

definition succeed :: "'a \<Rightarrow> 'a parser" where
  "succeed a bs = Some (a, bs)"

definition sequence :: "'a parser \<Rightarrow> ('a \<Rightarrow> 'b parser) \<Rightarrow> 'b parser" where
  "sequence p f bs =
     (case p bs of
        None \<Rightarrow> None
      | Some (a, rest) \<Rightarrow> f a rest)"

definition omit :: "'a parser \<Rightarrow> unit parser" where
  "omit p bs = (case p bs of None \<Rightarrow> None | Some (_, rest) \<Rightarrow> Some ((), rest))"

definition alternative :: "'a parser \<Rightarrow> 'a parser \<Rightarrow> 'a parser" where
  "alternative p q bs = (case p bs of Some x \<Rightarrow> Some x | None \<Rightarrow> q bs)"

definition difference :: "'a parser \<Rightarrow> 'b parser \<Rightarrow> 'a parser" where
  "difference left right bs =
     (case right bs of Some _ \<Rightarrow> None | None \<Rightarrow> left bs)"

text \<open>
  \<open>*p\<close> runs the subject until it fails. A subject that succeeds without consuming a byte would
  keep the C++ loop running for ever; the model has no result then. \<open>kleene_total\<close> below shows
  that this does not happen for a consuming subject.
\<close>

function kleene :: "'a parser \<Rightarrow> 'a list parser" where
  "kleene p bs =
     (case p bs of
        None \<Rightarrow> Some ([], bs)
      | Some (a, rest) \<Rightarrow>
          if length rest < length bs
          then (case kleene p rest of
                  None \<Rightarrow> None
                | Some (as, rest') \<Rightarrow> Some (a # as, rest'))
          else None)"
  by pat_completeness auto
termination
  by (relation "measure (\<lambda>(p, bs). length bs)") auto

declare kleene.simps [simp del]

definition plus_parser :: "'a parser \<Rightarrow> 'a list parser" where
  "plus_parser p = sequence p (\<lambda>a. sequence (kleene p) (\<lambda>as. succeed (a # as)))"

fun repeat_exact :: "nat \<Rightarrow> 'a parser \<Rightarrow> 'a list parser" where
  "repeat_exact 0 p = succeed []"
| "repeat_exact (Suc n) p =
     sequence p (\<lambda>a. sequence (repeat_exact n p) (\<lambda>as. succeed (a # as)))"

text \<open>
  \<open>exact_iterator\<close> counts an \<open>int\<close> up from 0 while it is below the bound, so a negative
  bound asks for no element at all.
\<close>

definition repeat_parser :: "int \<Rightarrow> 'a parser \<Rightarrow> 'a list parser" where
  "repeat_parser n p = repeat_exact (nat n) p"

fun any_binary_parser :: "nat \<Rightarrow> bytes parser" where
  "any_binary_parser 0 bs = Some ([], bs)"
| "any_binary_parser (Suc n) [] = None"
| "any_binary_parser (Suc n) (b # bs) =
     (case any_binary_parser n bs of
        None \<Rightarrow> None
      | Some (raw, rest) \<Rightarrow> Some (b # raw, rest))"

fun load_big :: "nat \<Rightarrow> bytes \<Rightarrow> nat" where
  "load_big acc [] = acc"
| "load_big acc (b # bs) = load_big (acc * 256 + unat b) bs"

definition big_word :: "int parser" where
  "big_word = sequence (any_binary_parser 2) (\<lambda>raw. succeed (int (load_big 0 raw)))"

definition big_bin_double :: "u64 parser" where
  "big_bin_double = sequence (any_binary_parser 8) (\<lambda>raw. succeed (of_nat (load_big 0 raw)))"

section \<open>The tests of the character parsers\<close>

lemma ischar_uint [simp]: "ischar (uint (b :: byte))"
proof -
  have "uint b AND NOT (mask 8) = 0"
  proof (rule bit_eqI)
    fix n
    show "bit (uint b AND NOT (mask 8)) n \<longleftrightarrow> bit (0 :: int) n"
      by (auto simp: bit_simps dest: bit_imp_le_length)
  qed
  moreover have "mask 8 = (0xff :: int)" by (simp add: mask_eq_exp_minus_1)
  ultimately show ?thesis by (simp add: ischar_def)
qed

lemma sint_byte: "sint (b :: byte) = (if uint b < 128 then uint b else uint b - 256)"
proof -
  have "uint b div 128 = 1" if "\<not> uint b < 128"
    using that byte_uint_range [of b] by arith
  moreover have "sint b = signed_take_bit 7 (uint b)" by (simp add: sint_uint)
  ultimately show ?thesis
    using byte_uint_range [of b]
    by (auto simp: signed_take_bit_int_eq_self_iff signed_take_bit_eq_take_bit_minus
        bit_iff_odd take_bit_int_eq_self)
qed

lemma char_of_byte_eq [simp]: "char_of_byte sc c = char_of_byte sc b \<longleftrightarrow> c = b"
  by (auto simp: char_of_byte_def sint_byte word_uint_eq_iff split: if_splits)
    (use byte_uint_range [of b] byte_uint_range [of c] in arith)+

text \<open>
  A range whose bounds lie on the same side of 128 accepts the same bytes whether \<open>char\<close> is
  signed or not; all ranges of the grammar are of this kind.
\<close>

lemma char_range_eq:
  assumes "uint lo < 128 \<and> uint hi < 128 \<or> 128 \<le> uint lo \<and> 128 \<le> uint hi"
  shows "char_range sc lo hi = char_parser (\<lambda>b. lo \<le> b \<and> b \<le> hi)"
proof -
  define sg where "sg x = (if sc \<and> 128 \<le> x then x - 256 else x)" for x :: int
  have char: "char_of_byte sc b = sg (uint b)" for b
    by (simp add: char_of_byte_def sint_byte sg_def)
  have "(\<not> sg x < sg l \<and> \<not> sg h < sg x) \<longleftrightarrow> l \<le> x \<and> x \<le> h"
    if "l < 128 \<and> h < 128 \<or> 128 \<le> l \<and> 128 \<le> h" "0 \<le> x" "x < 256" "0 \<le> l" "h < 256" for x l h
    using that by (auto simp: sg_def)
  then have "(\<not> char_of_byte sc b < char_of_byte sc lo \<and> \<not> char_of_byte sc hi < char_of_byte sc b)
      \<longleftrightarrow> lo \<le> b \<and> b \<le> hi" for b
    using assms byte_uint_range [of b] byte_uint_range [of lo] byte_uint_range [of hi]
    unfolding char word_le_def by blast
  then show ?thesis by (simp add: char_range_def)
qed

lemma literal_char_eq [simp]: "literal_char sc c = char_parser (\<lambda>b. b = c)"
  by (auto simp: literal_char_def fun_eq_iff char_parser_def split: list.splits)

lemma any_char_eq [simp]: "any_char = char_parser (\<lambda>_. True)"
  by (simp add: any_char_def)

lemma char_parser_simps [simp]:
  "char_parser test [] = None"
  "char_parser test (b # bs) = (if test b then Some (b, bs) else None)"
  by (simp_all add: char_parser_def)

lemma char_parser_Some:
  "char_parser test bs = Some (a, r) \<longleftrightarrow> bs = a # r \<and> test a"
  by (auto simp: char_parser_def split: list.splits if_splits)

lemmas combinator_defs [parser_simps] =
  sequence_def succeed_def omit_def alternative_def difference_def

lemma sequence_assoc: "sequence (sequence p f) g = sequence p (\<lambda>a. sequence (f a) g)"
  by (auto simp: fun_eq_iff sequence_def split: option.splits)

lemma succeed_sequence: "sequence (succeed a) f = f a"
  by (auto simp: fun_eq_iff sequence_def succeed_def)

section \<open>The contract\<close>

locale local_parser =
  fixes p :: "'a parser"
  assumes local: "p bs = Some (a, r) \<Longrightarrow> \<exists>c. bs = c @ r \<and> (\<forall>t. p (c @ t) = Some (a, t))"
begin

lemma stable: "p bs = Some (a, r) \<Longrightarrow> p (bs @ t) = Some (a, r @ t)"
  using local by fastforce

lemma suffix: "p bs = Some (a, r) \<Longrightarrow> \<exists>c. bs = c @ r"
  using local by blast

lemma no_longer: "p bs = Some (a, r) \<Longrightarrow> length r \<le> length bs"
  using suffix by fastforce

end

locale consuming_parser = local_parser +
  fixes first :: "byte set"
  assumes starts: "p bs = Some (a, r) \<Longrightarrow> \<exists>b t. bs = b # t \<and> b \<in> first"
begin

lemma fails_Nil: "p [] = None"
  using starts by (cases "p []") auto

lemma rejects: "b \<notin> first \<Longrightarrow> p (b # t) = None"
  using starts by (cases "p (b # t)") auto

lemma consumes: "p bs = Some (a, r) \<Longrightarrow> length r < length bs"
proof -
  assume "p bs = Some (a, r)"
  then obtain c where c: "bs = c @ r" "\<forall>t. p (c @ t) = Some (a, t)"
    using local by blast
  then have "c \<noteq> []" using fails_Nil by (metis append_Nil option.distinct(1))
  with c show ?thesis by simp
qed

end

section \<open>The combinators keep the contract\<close>

lemma local_parser_succeed: "local_parser (succeed a)"
  by unfold_locales (auto simp: succeed_def)

lemma local_parser_sequence:
  assumes "local_parser p" and "\<And>a. local_parser (f a)"
  shows "local_parser (sequence p f)"
proof
  fix bs b r
  assume "sequence p f bs = Some (b, r)"
  then obtain a r' where p: "p bs = Some (a, r')" and f: "f a r' = Some (b, r)"
    by (auto simp: sequence_def split: option.splits)
  from local_parser.local [OF assms(1) p]
  obtain c where c: "bs = c @ r'" "\<forall>t. p (c @ t) = Some (a, t)" by blast
  from local_parser.local [OF assms(2) f]
  obtain d where d: "r' = d @ r" "\<forall>t. f a (d @ t) = Some (b, t)" by blast
  from c d show "\<exists>c. bs = c @ r \<and> (\<forall>t. sequence p f (c @ t) = Some (b, t))"
    by (intro exI [of _ "c @ d"]) (simp add: sequence_def)
qed

lemma consuming_parser_sequence:
  assumes p: "consuming_parser p S" and f: "\<And>a. local_parser (f a)"
  shows "consuming_parser (sequence p f) S"
proof -
  from p have "local_parser p" by (rule consuming_parser.axioms)
  then have "local_parser (sequence p f)" using f by (rule local_parser_sequence)
  moreover have "consuming_parser_axioms (sequence p f) S"
    using consuming_parser.starts [OF p]
    by unfold_locales (auto simp: sequence_def split: option.splits)
  ultimately show ?thesis by (simp add: consuming_parser_def)
qed

lemma consuming_parser_char: "consuming_parser (char_parser test) {b. test b}"
  by unfold_locales (auto simp: char_parser_Some)

lemma consuming_parser_mono:
  assumes "consuming_parser p S" and "S \<subseteq> T"
  shows "consuming_parser p T"
  using assms by (auto simp: consuming_parser_def consuming_parser_axioms_def) blast

lemma consuming_parser_literal: "consuming_parser (literal_char sc c) {c}"
  using consuming_parser_char [of "\<lambda>b. b = c"] by simp

lemma consuming_parser_omit:
  assumes "consuming_parser p S"
  shows "consuming_parser (omit p) S"
proof -
  have "omit p = sequence p (\<lambda>_. succeed ())"
    by (auto simp: fun_eq_iff parser_simps split: option.splits)
  with consuming_parser_sequence [OF assms local_parser_succeed] show ?thesis by simp
qed

lemma consuming_parser_alternative:
  assumes p: "consuming_parser p S" and q: "consuming_parser q T" and disj: "S \<inter> T = {}"
  shows "consuming_parser (alternative p q) (S \<union> T)"
proof
  fix bs a r
  assume alt: "alternative p q bs = Some (a, r)"
  show "\<exists>c. bs = c @ r \<and> (\<forall>t. alternative p q (c @ t) = Some (a, t))"
  proof (cases "p bs")
    case (Some x)
    with alt have "p bs = Some (a, r)" by (simp add: alternative_def)
    then obtain c where "bs = c @ r" "\<forall>t. p (c @ t) = Some (a, t)"
      using local_parser.local [OF consuming_parser.axioms(1) [OF p]] by blast
    then show ?thesis by (auto simp: alternative_def)
  next
    case None
    with alt have qs: "q bs = Some (a, r)" by (simp add: alternative_def)
    then obtain c where c: "bs = c @ r" "\<forall>t. q (c @ t) = Some (a, t)"
      using local_parser.local [OF consuming_parser.axioms(1) [OF q]] by blast
    moreover from c have "p (c @ t) = None" for t
      using consuming_parser.starts [OF q] consuming_parser.rejects [OF p] disj
      by (metis IntI empty_iff)
    ultimately show ?thesis by (auto simp: alternative_def)
  qed
next
  fix bs a r
  assume "alternative p q bs = Some (a, r)"
  then show "\<exists>b t. bs = b # t \<and> b \<in> S \<union> T"
    using consuming_parser.starts [OF p] consuming_parser.starts [OF q]
    by (fastforce simp: alternative_def split: option.splits)
qed

lemma local_parser_repeat_exact:
  assumes "local_parser p"
  shows "local_parser (repeat_exact n p)"
  by (induction n) (auto intro: local_parser_succeed local_parser_sequence assms)

lemma local_parser_repeat: "local_parser p \<Longrightarrow> local_parser (repeat_parser n p)"
  by (simp add: repeat_parser_def local_parser_repeat_exact)

lemma any_binary_parser_eq:
  "any_binary_parser n bs = (if n \<le> length bs then Some (take n bs, drop n bs) else None)"
  by (induction n bs rule: any_binary_parser.induct) auto

lemma local_parser_any_binary: "local_parser (any_binary_parser n)"
proof
  fix bs a r
  assume "any_binary_parser n bs = Some (a, r)"
  then have "n \<le> length bs" "a = take n bs" "r = drop n bs"
    by (auto simp: any_binary_parser_eq split: if_splits)
  then show "\<exists>c. bs = c @ r \<and> (\<forall>t. any_binary_parser n (c @ t) = Some (a, t))"
    by (intro exI [of _ "take n bs"]) (simp add: any_binary_parser_eq)
qed

lemma kleene_total:
  assumes "consuming_parser p S"
  shows "\<exists>as r. kleene p bs = Some (as, r)"
proof (induction bs rule: length_induct)
  case (1 bs)
  then show ?case
    using consuming_parser.consumes [OF assms]
    by (subst kleene.simps) (fastforce split: option.splits)
qed

text \<open>
  \<open>*p\<close> alone is not local: it would go on if more matching input followed. It is local once a
  byte that \<open>p\<close> does not accept has ended it.
\<close>

lemma kleene_closed:
  assumes p: "consuming_parser p S" and e: "e \<notin> S"
  shows "kleene p bs = Some (as, e # r) \<Longrightarrow>
    \<exists>c. bs = c @ e # r \<and> (\<forall>t. kleene p (c @ e # t) = Some (as, e # t))"
proof (induction bs arbitrary: as rule: length_induct)
  case (1 bs)
  show ?case
  proof (cases "p bs")
    case None
    then have "bs = e # r" "as = []" using "1.prems" by (auto simp: kleene.simps)
    then show ?thesis
      using consuming_parser.rejects [OF p e] by (intro exI [of _ "[]"]) (simp add: kleene.simps)
  next
    case (Some x)
    then obtain a r' where a: "p bs = Some (a, r')" by (cases x) auto
    then have less: "length r' < length bs" by (rule consuming_parser.consumes [OF p])
    with a "1.prems" obtain as' where as': "kleene p r' = Some (as', e # r)" "as = a # as'"
      by (subst (asm) kleene.simps) (auto split: option.splits if_splits)
    with less "1.IH" obtain d where
      d: "r' = d @ e # r" "\<forall>t. kleene p (d @ e # t) = Some (as', e # t)" by blast
    from local_parser.local [OF consuming_parser.axioms(1) [OF p] a]
    obtain c where c: "bs = c @ r'" "\<forall>t. p (c @ t) = Some (a, t)" by blast
    have "c \<noteq> []" using c less by auto
    then have "kleene p ((c @ d) @ e # t) = Some (as, e # t)" for t
      using c d as'(2) by (subst kleene.simps) simp
    then show ?thesis using c d by (intro exI [of _ "c @ d"]) simp
  qed
qed

lemma local_parser_kleene_until:
  assumes p: "consuming_parser p S" and e: "e \<notin> S"
    and f: "\<And>as. local_parser (f as)"
  shows "local_parser (sequence (kleene p) (\<lambda>as. sequence (literal_char sc e) (\<lambda>_. f as)))"
    (is "local_parser ?q")
proof
  fix bs b r
  assume "?q bs = Some (b, r)"
  then obtain as r' where k: "kleene p bs = Some (as, e # r')" and fs: "f as r' = Some (b, r)"
    by (auto simp: sequence_def char_parser_Some split: option.splits)
  from kleene_closed [OF p e k] obtain c where
    c: "bs = c @ e # r'" "\<forall>t. kleene p (c @ e # t) = Some (as, e # t)" by blast
  from local_parser.local [OF f fs] obtain d where
    d: "r' = d @ r" "\<forall>t. f as (d @ t) = Some (b, t)" by blast
  from c d show "\<exists>c. bs = c @ r \<and> (\<forall>t. ?q (c @ t) = Some (b, t))"
    by (intro exI [of _ "c @ e # d"]) (simp add: sequence_def)
qed

lemmas parser_intros =
  local_parser_succeed local_parser_sequence consuming_parser_sequence
  consuming_parser_literal consuming_parser_omit local_parser_repeat local_parser_any_binary

section \<open>Reading back what was written\<close>

lemma kleene_stop: "p bs = None \<Longrightarrow> kleene p bs = Some ([], bs)"
  by (simp add: kleene.simps)

lemma kleene_concat:
  assumes elem: "\<And>x t. x \<in> set xs \<Longrightarrow> p (enc x @ t) = Some (dec x, t) \<and> enc x \<noteq> []"
    and stop: "p rest = None"
  shows "kleene p (concat (map enc xs) @ rest) = Some (map dec xs, rest)"
  using elem
proof (induction xs)
  case Nil
  then show ?case using stop by (simp add: kleene_stop)
next
  case (Cons x xs)
  then have "kleene p (concat (map enc xs) @ rest) = Some (map dec xs, rest)" by simp
  moreover have "p (enc x @ concat (map enc xs) @ rest) = Some (dec x, concat (map enc xs) @ rest)"
    and "enc x \<noteq> []" using Cons.prems by auto
  ultimately show ?case by (subst kleene.simps) simp
qed

lemma repeat_exact_any_char [simp]:
  "repeat_exact (length xs) any_char (xs @ t) = Some (xs, t)"
  by (induction xs) (simp_all add: parser_simps)

lemma repeat_parser_any_char [simp]:
  "repeat_parser (int (length xs)) (char_parser (\<lambda>_. True)) (xs @ t) = Some (xs, t)"
  using repeat_exact_any_char by (simp add: repeat_parser_def)

end
