(* ===== verification/Debug_Grammar.thy ===== *)
theory Debug_Grammar
  imports Spirit_Qi
begin

text \<open>
  The grammar of the debugger client (\<^verbatim>\<open>src/unifyframework/platform/DukDebuggerGrammar.h\<close> and
  \<^verbatim>\<open>DukDebuggerGrammar.cpp\<close>): the messages that Duktape sends, as data, and one parser per
  Qi grammar of the source, with the source's names. The interpretations at the end show
  that every grammar keeps the contract of \<open>Spirit_Qi\<close> and list the bytes it can start with.

  A \<open>double\<close> is its 64-bit pattern. The attribute of \<open>VersionIdentificationGrammar\<close> is not
  modelled: no code reads it (\<open>onReceiveVersionIdentification\<close> is empty).
\<close>

section \<open>Messages\<close>

record JsClass =
  number :: int
  data :: bytes

datatype VarType = VarInt int | VarString bytes | VarDouble u64 | VarClass JsClass

record StatusNotification =
  sn_state :: int
  sn_fileName :: bytes
  sn_funcName :: bytes
  sn_lineNumber :: int
  sn_pc :: int

record ReplyNameValue =
  rnv_name :: bytes
  rnv_value :: VarType

record ExceptionNotification =
  en_fatal :: int
  en_msg :: bytes
  en_fileName :: bytes
  en_line :: int

section \<open>Bytes of the protocol\<close>

definition REQ :: byte where [wire_simps]: "REQ = 0x01"
definition REP :: byte where [wire_simps]: "REP = 0x02"
definition NFY :: byte where [wire_simps]: "NFY = 0x04"
definition EOM :: byte where [wire_simps]: "EOM = 0x00"

definition JS_CLASS_SHIFT :: byte where [wire_simps]: "JS_CLASS_SHIFT = 0x1b"
definition INT_SHIFT :: byte where [wire_simps]: "INT_SHIFT = 0x80"
definition LONG_INT_SHIFT :: byte where [wire_simps]: "LONG_INT_SHIFT = 0xc0"

definition NOTIFICATION_STATUS :: byte where [wire_simps]: "NOTIFICATION_STATUS = 0x01"
definition NOTIFICATION_EXCEPTION :: byte where [wire_simps]: "NOTIFICATION_EXCEPTION = 0x05"

definition NOTIFICATION_STATUS_INT :: byte where
  [wire_simps]: "NOTIFICATION_STATUS_INT = INT_SHIFT + NOTIFICATION_STATUS"

definition NOTIFICATION_EXCEPTION_INT :: byte where
  [wire_simps]: "NOTIFICATION_EXCEPTION_INT = INT_SHIFT + NOTIFICATION_EXCEPTION"

section \<open>Values\<close>

definition lenStrType1 :: "bool \<Rightarrow> bytes parser" where
  "lenStrType1 sc =
     sequence (char_range sc 0x60 0x7f) (\<lambda>c.
     repeat_parser (char_of_byte sc c - 0x60) any_char)"

definition lenStrType2 :: "bool \<Rightarrow> bytes parser" where
  "lenStrType2 sc =
     sequence (omit (literal_char sc 0x12)) (\<lambda>_.
     sequence big_word (\<lambda>n.
     repeat_parser n any_char))"

definition undefinedStr :: "bool \<Rightarrow> bytes parser" where
  "undefinedStr sc = sequence (literal_char sc 0x16) (\<lambda>_. succeed (str ''undefined''))"

definition nullStr :: "bool \<Rightarrow> bytes parser" where
  "nullStr sc = sequence (literal_char sc 0x17) (\<lambda>_. succeed (str ''null''))"

definition trueStr :: "bool \<Rightarrow> bytes parser" where
  "trueStr sc = sequence (literal_char sc 0x18) (\<lambda>_. succeed (str ''true''))"

definition falseStr :: "bool \<Rightarrow> bytes parser" where
  "falseStr sc = sequence (literal_char sc 0x19) (\<lambda>_. succeed (str ''false''))"

definition unusedStr :: "bool \<Rightarrow> bytes parser" where
  "unusedStr sc = sequence (literal_char sc 0x15) (\<lambda>_. succeed (str ''unused/none''))"

definition DukDebugStr :: "bool \<Rightarrow> bytes parser" where
  "DukDebugStr sc =
     alternative (lenStrType1 sc) (alternative (lenStrType2 sc) (alternative (undefinedStr sc)
       (alternative (nullStr sc) (alternative (trueStr sc) (alternative (falseStr sc)
         (unusedStr sc))))))"

definition shortInteger :: "bool \<Rightarrow> int parser" where
  "shortInteger sc =
     sequence (char_range sc 0x80 0xbf) (\<lambda>c. succeed (uint c - uint INT_SHIFT))"

definition longInteger :: "bool \<Rightarrow> int parser" where
  "longInteger sc =
     sequence (char_range sc 0xc0 0xff) (\<lambda>c.
     sequence any_char (\<lambda>d.
     succeed ((uint c - uint LONG_INT_SHIFT) * 0x100 + uint d)))"

definition DukDebugInteger :: "bool \<Rightarrow> int parser" where
  "DukDebugInteger sc = alternative (shortInteger sc) (longInteger sc)"

definition DukDebugDouble :: "bool \<Rightarrow> u64 parser" where
  "DukDebugDouble sc = sequence (omit (literal_char sc 0x1a)) (\<lambda>_. big_bin_double)"

definition lenStrType :: "bool \<Rightarrow> bytes parser" where
  "lenStrType sc = sequence any_char (\<lambda>c. repeat_parser (char_of_byte sc c) any_char)"

definition DukDebugJsClass :: "bool \<Rightarrow> JsClass parser" where
  "DukDebugJsClass sc =
     sequence (literal_char sc JS_CLASS_SHIFT) (\<lambda>_.
     sequence any_char (\<lambda>c.
     sequence (lenStrType sc) (\<lambda>d.
     succeed \<lparr>number = char_of_byte sc c, data = d\<rparr>)))"

section \<open>Messages\<close>

definition VersionIdentificationGrammar :: "bool \<Rightarrow> unit parser" where
  "VersionIdentificationGrammar sc =
     sequence (char_range sc 0x31 0x39) (\<lambda>_.
     sequence (literal_char sc 0x20) (\<lambda>_.
     sequence (plus_parser (difference any_char (literal_char sc 0x0a))) (\<lambda>_.
     sequence (literal_char sc 0x0a) (\<lambda>_.
     succeed ()))))"

definition StatusNotificationGrammar :: "bool \<Rightarrow> StatusNotification parser" where
  "StatusNotificationGrammar sc =
     sequence (omit (literal_char sc NFY)) (\<lambda>_.
     sequence (omit (literal_char sc NOTIFICATION_STATUS_INT)) (\<lambda>_.
     sequence (DukDebugInteger sc) (\<lambda>st.
     sequence (DukDebugStr sc) (\<lambda>fn.
     sequence (DukDebugStr sc) (\<lambda>fu.
     sequence (DukDebugInteger sc) (\<lambda>ln.
     sequence (DukDebugInteger sc) (\<lambda>pc.
     sequence (omit (literal_char sc EOM)) (\<lambda>_.
     succeed \<lparr>sn_state = st, sn_fileName = fn, sn_funcName = fu,
              sn_lineNumber = ln, sn_pc = pc\<rparr>))))))))"

definition ReplyGrammar :: "bool \<Rightarrow> int list parser" where
  "ReplyGrammar sc =
     sequence (omit (literal_char sc REP)) (\<lambda>_.
     sequence (omit (literal_char sc EOM)) (\<lambda>_.
     succeed []))"

definition ReplyIntGrammar :: "bool \<Rightarrow> int parser" where
  "ReplyIntGrammar sc =
     sequence (omit (literal_char sc REP)) (\<lambda>_.
     sequence (DukDebugInteger sc) (\<lambda>v.
     sequence (omit (literal_char sc EOM)) (\<lambda>_.
     succeed v)))"

definition debugValue :: "bool \<Rightarrow> VarType parser" where
  "debugValue sc =
     alternative (sequence (DukDebugInteger sc) (\<lambda>i. succeed (VarInt i)))
    (alternative (sequence (DukDebugStr sc) (\<lambda>s. succeed (VarString s)))
    (alternative (sequence (DukDebugDouble sc) (\<lambda>d. succeed (VarDouble d)))
      (sequence (DukDebugJsClass sc) (\<lambda>c. succeed (VarClass c)))))"

definition ReplyNameValueGrammar :: "bool \<Rightarrow> ReplyNameValue parser" where
  "ReplyNameValueGrammar sc =
     sequence (DukDebugStr sc) (\<lambda>nm.
     sequence (debugValue sc) (\<lambda>v.
     succeed \<lparr>rnv_name = nm, rnv_value = v\<rparr>))"

definition ReplyNameValueArrayGrammar :: "bool \<Rightarrow> ReplyNameValue list parser" where
  "ReplyNameValueArrayGrammar sc =
     sequence (omit (literal_char sc REP)) (\<lambda>_.
     sequence (kleene (ReplyNameValueGrammar sc)) (\<lambda>vs.
     sequence (omit (literal_char sc EOM)) (\<lambda>_.
     succeed vs)))"

definition ExceptionNotificationGrammar :: "bool \<Rightarrow> ExceptionNotification parser" where
  "ExceptionNotificationGrammar sc =
     sequence (omit (literal_char sc NFY)) (\<lambda>_.
     sequence (omit (literal_char sc NOTIFICATION_EXCEPTION_INT)) (\<lambda>_.
     sequence (DukDebugInteger sc) (\<lambda>fa.
     sequence (DukDebugStr sc) (\<lambda>ms.
     sequence (DukDebugStr sc) (\<lambda>fn.
     sequence (DukDebugInteger sc) (\<lambda>ln.
     sequence (omit (literal_char sc EOM)) (\<lambda>_.
     succeed \<lparr>en_fatal = fa, en_msg = ms, en_fileName = fn, en_line = ln\<rparr>)))))))"

section \<open>The grammars keep the contract\<close>

definition str_first :: "byte set" where
  "str_first = {b. 0x60 \<le> b \<and> b \<le> 0x7f} \<union> ({0x12} \<union> ({0x16} \<union> ({0x17} \<union> ({0x18} \<union> ({0x19} \<union> {0x15})))))"

definition int_first :: "byte set" where
  "int_first = {b. 0x80 \<le> b \<and> b \<le> 0xbf} \<union> {b. 0xc0 \<le> b \<and> b \<le> 0xff}"

lemmas first_defs = str_first_def int_first_def

lemma char_ranges [simp]:
  "char_range sc 0x60 0x7f = char_parser (\<lambda>b. 0x60 \<le> b \<and> b \<le> 0x7f)"
  "char_range sc 0x80 0xbf = char_parser (\<lambda>b. 0x80 \<le> b \<and> b \<le> 0xbf)"
  "char_range sc 0xc0 0xff = char_parser (\<lambda>b. 0xc0 \<le> b \<and> b \<le> 0xff)"
  "char_range sc 0x31 0x39 = char_parser (\<lambda>b. 0x31 \<le> b \<and> b \<le> 0x39)"
  by (simp_all add: char_range_eq)

lemma local_any_char: "local_parser any_char"
  using consuming_parser_char [of "\<lambda>_. True"] by (simp add: consuming_parser.axioms)

lemma local_consuming: "consuming_parser p S \<Longrightarrow> local_parser p"
  by (rule consuming_parser.axioms)

lemma local_literal: "local_parser (literal_char sc c)"
  by (rule local_consuming [OF consuming_parser_literal])

lemma local_omit: "consuming_parser p S \<Longrightarrow> local_parser (omit p)"
  by (rule local_consuming [OF consuming_parser_omit])

lemma local_big_word: "local_parser big_word"
  unfolding big_word_def by (intro parser_intros)

lemma local_big_bin_double: "local_parser big_bin_double"
  unfolding big_bin_double_def by (intro parser_intros)

lemmas value_intros = parser_intros local_any_char local_big_word local_big_bin_double
  local_omit [OF consuming_parser_literal] local_literal

interpretation debug_str: consuming_parser "DukDebugStr sc" str_first for sc
  unfolding DukDebugStr_def str_first_def
proof (intro consuming_parser_alternative)
  show "consuming_parser (lenStrType1 sc) {b. 0x60 \<le> b \<and> b \<le> 0x7f}"
    unfolding lenStrType1_def char_ranges
    by (intro consuming_parser_sequence consuming_parser_char value_intros)
  show "consuming_parser (lenStrType2 sc) {0x12}"
    unfolding lenStrType2_def by (intro value_intros)
qed (auto simp: undefinedStr_def nullStr_def trueStr_def falseStr_def unusedStr_def
       simp del: literal_char_eq intro!: value_intros)

interpretation debug_int: consuming_parser "DukDebugInteger sc" int_first for sc
  unfolding DukDebugInteger_def int_first_def
proof (intro consuming_parser_alternative)
  show "consuming_parser (shortInteger sc) {b. 0x80 \<le> b \<and> b \<le> 0xbf}"
    unfolding shortInteger_def char_ranges
    by (intro consuming_parser_sequence consuming_parser_char value_intros)
  show "consuming_parser (longInteger sc) {b. 0xc0 \<le> b \<and> b \<le> 0xff}"
    unfolding longInteger_def char_ranges
    by (intro consuming_parser_sequence consuming_parser_char value_intros)
  show "{b :: byte. 0x80 \<le> b \<and> b \<le> 0xbf} \<inter> {b. 0xc0 \<le> b \<and> b \<le> 0xff} = {}"
    by (auto simp: word_le_def)
qed

interpretation debug_double: consuming_parser "DukDebugDouble sc" "{0x1a}" for sc
  unfolding DukDebugDouble_def by (intro value_intros)

interpretation debug_class: consuming_parser "DukDebugJsClass sc" "{0x1b}" for sc
  unfolding DukDebugJsClass_def lenStrType_def JS_CLASS_SHIFT_def
  by (intro consuming_parser_sequence consuming_parser_literal value_intros)

lemma first_disjoint:
  "int_first \<inter> (str_first \<union> ({0x1a} \<union> {0x1b})) = {}"
  "str_first \<inter> ({0x1a} \<union> {0x1b}) = {}"
  "{0x1a :: byte} \<inter> {0x1b} = {}"
  by (auto simp: first_defs word_le_def)

lemma EOM_not_first: "EOM \<notin> str_first"
  by (auto simp: first_defs EOM_def)

lemmas message_intros = value_intros debug_str.local_parser_axioms debug_int.local_parser_axioms
  debug_double.local_parser_axioms debug_class.local_parser_axioms

interpretation debug_value:
  consuming_parser "debugValue sc" "int_first \<union> (str_first \<union> ({0x1a} \<union> {0x1b}))" for sc
  unfolding debugValue_def
  by (intro consuming_parser_alternative consuming_parser_sequence local_parser_succeed
      first_disjoint debug_int.consuming_parser_axioms debug_str.consuming_parser_axioms
      debug_double.consuming_parser_axioms debug_class.consuming_parser_axioms)

interpretation name_value: consuming_parser "ReplyNameValueGrammar sc" str_first for sc
  unfolding ReplyNameValueGrammar_def
  by (intro consuming_parser_sequence local_parser_sequence debug_str.consuming_parser_axioms
      debug_value.local_parser_axioms local_parser_succeed)

interpretation status: consuming_parser "StatusNotificationGrammar sc" "{NFY}" for sc
  unfolding StatusNotificationGrammar_def by (intro message_intros)

interpretation exception: consuming_parser "ExceptionNotificationGrammar sc" "{NFY}" for sc
  unfolding ExceptionNotificationGrammar_def by (intro message_intros)

interpretation reply: consuming_parser "ReplyGrammar sc" "{REP}" for sc
  unfolding ReplyGrammar_def by (intro message_intros)

interpretation reply_int: consuming_parser "ReplyIntGrammar sc" "{REP}" for sc
  unfolding ReplyIntGrammar_def by (intro message_intros)

interpretation locals: consuming_parser "ReplyNameValueArrayGrammar sc" "{REP}" for sc
proof -
  have until: "sequence (omit (literal_char sc EOM)) (\<lambda>_. succeed vs) =
      sequence (literal_char sc EOM) (\<lambda>_. succeed vs)" for vs :: "ReplyNameValue list"
    by (auto simp: fun_eq_iff parser_simps split: option.splits)
  show "consuming_parser (ReplyNameValueArrayGrammar sc) {REP}"
    unfolding ReplyNameValueArrayGrammar_def until
    by (intro consuming_parser_sequence consuming_parser_omit consuming_parser_literal
        local_parser_kleene_until [OF name_value.consuming_parser_axioms EOM_not_first]
        local_parser_succeed)
qed

lemma consuming_line_char: "consuming_parser (difference any_char (literal_char sc 0x0a)) (- {0x0a})"
proof -
  have "difference any_char (literal_char sc 0x0a) = char_parser (\<lambda>b. b \<noteq> 0x0a)"
    by (auto simp: fun_eq_iff difference_def char_parser_def split: list.splits option.splits)
  moreover have "{b :: byte. b \<noteq> 0x0a} = - {0x0a}" by auto
  ultimately show ?thesis using consuming_parser_char [of "\<lambda>b. b \<noteq> 0x0a"] by simp
qed

interpretation version:
  consuming_parser "VersionIdentificationGrammar sc" "{b. 0x31 \<le> b \<and> b \<le> 0x39}" for sc
proof -
  have "local_parser (sequence (plus_parser (difference any_char (literal_char sc 0x0a)))
      (\<lambda>_. sequence (literal_char sc 0x0a) (\<lambda>_. succeed ())))"
    unfolding plus_parser_def sequence_assoc succeed_sequence
    by (intro local_parser_sequence local_consuming [OF consuming_line_char]
        local_parser_kleene_until [OF consuming_line_char] local_parser_succeed) simp
  then show "consuming_parser (VersionIdentificationGrammar sc) {b. 0x31 \<le> b \<and> b \<le> 0x39}"
    unfolding VersionIdentificationGrammar_def char_ranges
    by (rule consuming_parser_sequence [OF consuming_parser_char local_parser_sequence [OF local_literal]])
qed

end
