(* ===== verification/Grammar_Receiver.thy ===== *)
theory Grammar_Receiver
  imports Debug_Grammar
begin

text \<open>
  \<open>dd::GrammarReceiver\<close> of \<^verbatim>\<open>src/unifyframework/platform/DukDebuggerGrammar.cpp\<close>: the buffer of bytes
  received from Duktape, the recognizers that are tried on it, and the requests that are sent.

  A \<open>Recognizer\<close> is its grammar together with whether its \<open>std::function\<close> callback is set.
  The callbacks belong to the owner of the receiver; \<open>put\<close> threads the owner's state \<open>'d\<close>
  through a function \<open>cb\<close> that handles one message, and calls it where the source does.
\<close>

section \<open>Recognizers\<close>

datatype grammar_kind = GVersion | GStatus | GException | GReply | GReplyInt | GLocals

datatype message =
    MVersion
  | MStatus StatusNotification
  | MException ExceptionNotification
  | MReply "int list"
  | MReplyInt int
  | MLocals "ReplyNameValue list"

record recognizer =
  grammar :: grammar_kind
  callback :: bool

fun qi_parse :: "bool \<Rightarrow> grammar_kind \<Rightarrow> message parser" where
  "qi_parse sc GVersion = sequence (VersionIdentificationGrammar sc) (\<lambda>_. succeed MVersion)"
| "qi_parse sc GStatus = sequence (StatusNotificationGrammar sc) (\<lambda>x. succeed (MStatus x))"
| "qi_parse sc GException = sequence (ExceptionNotificationGrammar sc) (\<lambda>x. succeed (MException x))"
| "qi_parse sc GReply = sequence (ReplyGrammar sc) (\<lambda>x. succeed (MReply x))"
| "qi_parse sc GReplyInt = sequence (ReplyIntGrammar sc) (\<lambda>x. succeed (MReplyInt x))"
| "qi_parse sc GLocals = sequence (ReplyNameValueArrayGrammar sc) (\<lambda>x. succeed (MLocals x))"

text \<open>
  \<open>eat\<close> returns the message that the callback is called with, if there is a callback, and the
  bytes that stay in the buffer.
\<close>

definition eat :: "bool \<Rightarrow> recognizer \<Rightarrow> bytes \<Rightarrow> (message option \<times> bytes) option" where
  "eat sc r bs =
     (case qi_parse sc (grammar r) bs of
        Some (result, rest) \<Rightarrow> Some (if callback r then Some result else None, rest)
      | None \<Rightarrow> None)"

section \<open>The receiver\<close>

record receiver =
  versionIdentificationReceiver :: bool
  statusNotificationReceiver :: bool
  replyAddBreakpointReceiver :: bool
  replyRemoveBreakpointReceiver :: bool
  replyNameValueArrayReceiver :: bool
  exceptionNotificationReceiver :: bool
  totalSavedData :: bytes
  savedData :: bytes
  recognizerQueue :: "recognizer list"
  defaultRecognizers :: "recognizer list"

definition GrammarReceiver :: receiver where
  "GrammarReceiver =
     \<lparr>versionIdentificationReceiver = False, statusNotificationReceiver = False,
      replyAddBreakpointReceiver = False, replyRemoveBreakpointReceiver = False,
      replyNameValueArrayReceiver = False, exceptionNotificationReceiver = False,
      totalSavedData = [], savedData = [], recognizerQueue = [], defaultRecognizers = []\<rparr>"

definition InitDefaultRecognizers :: "receiver \<Rightarrow> receiver" where
  "InitDefaultRecognizers g =
     g\<lparr>defaultRecognizers := defaultRecognizers g @
        [\<lparr>grammar = GVersion, callback = versionIdentificationReceiver g\<rparr>,
         \<lparr>grammar = GStatus, callback = statusNotificationReceiver g\<rparr>,
         \<lparr>grammar = GException, callback = exceptionNotificationReceiver g\<rparr>]\<rparr>"

definition getLeftover :: "receiver \<Rightarrow> bytes" where
  "getLeftover g = savedData g"

definition getTotalLeftover :: "receiver \<Rightarrow> bytes" where
  "getTotalLeftover g = totalSavedData g"

definition clearLeftover :: "receiver \<Rightarrow> receiver" where
  "clearLeftover g = g\<lparr>savedData := []\<rparr>"

fun eat_default :: "bool \<Rightarrow> recognizer list \<Rightarrow> bytes \<Rightarrow> (message option \<times> bytes) option" where
  "eat_default sc [] bs = None"
| "eat_default sc (r # rs) bs =
     (case eat sc r bs of Some x \<Rightarrow> Some x | None \<Rightarrow> eat_default sc rs bs)"

text \<open>One round of the \<open>do\<close> loop of \<open>put\<close>: \<open>None\<close> is \<open>recognizerRepeat = false\<close>.\<close>

definition put_round :: "bool \<Rightarrow> receiver \<Rightarrow> (message option \<times> receiver) option" where
  "put_round sc g =
     (case eat_default sc (defaultRecognizers g) (savedData g) of
        Some (m, rest) \<Rightarrow> Some (m, g\<lparr>savedData := rest\<rparr>)
      | None \<Rightarrow>
          (case recognizerQueue g of
             [] \<Rightarrow> None
           | r # rs \<Rightarrow>
               (case eat sc r (savedData g) of
                  Some (m, rest) \<Rightarrow> Some (m, g\<lparr>savedData := rest, recognizerQueue := rs\<rparr>)
                | None \<Rightarrow> None)))"

definition dispatch :: "(message \<Rightarrow> 'd \<Rightarrow> 'd) \<Rightarrow> message option \<Rightarrow> 'd \<Rightarrow> 'd" where
  "dispatch cb m d = (case m of None \<Rightarrow> d | Some x \<Rightarrow> cb x d)"

lemma qi_parse_consuming:
  "\<exists>S. consuming_parser (qi_parse sc k) S"
  by (cases k)
    (auto intro!: exI consuming_parser_sequence local_parser_succeed version.consuming_parser_axioms
      status.consuming_parser_axioms exception.consuming_parser_axioms reply.consuming_parser_axioms
      reply_int.consuming_parser_axioms locals.consuming_parser_axioms)

lemma eat_consumes: "eat sc r bs = Some (m, rest) \<Longrightarrow> length rest < length bs"
  using qi_parse_consuming [of sc "grammar r"] consuming_parser.consumes
  by (fastforce simp: eat_def split: option.splits)

lemma eat_default_consumes: "eat_default sc rs bs = Some (m, rest) \<Longrightarrow> length rest < length bs"
  by (induction rs) (auto split: option.splits dest: eat_consumes)

lemma put_round_consumes:
  "put_round sc g = Some (m, g') \<Longrightarrow> length (savedData g') < length (savedData g)"
  by (auto simp: put_round_def split: option.splits list.splits
      dest: eat_consumes eat_default_consumes)

function put_loop ::
  "bool \<Rightarrow> (message \<Rightarrow> 'd \<Rightarrow> 'd) \<Rightarrow> receiver \<Rightarrow> 'd \<Rightarrow> receiver \<times> 'd" where
  "put_loop sc cb g d =
     (case put_round sc g of
        None \<Rightarrow> (g, d)
      | Some (m, g') \<Rightarrow> put_loop sc cb g' (dispatch cb m d))"
  by pat_completeness auto
termination
  by (relation "measure (\<lambda>(sc, cb, g, d). length (savedData g))") (auto dest: put_round_consumes)

declare put_loop.simps [simp del]

definition append_data :: "bytes \<Rightarrow> receiver \<Rightarrow> receiver" where
  "append_data bs g =
     g\<lparr>totalSavedData := totalSavedData g @ bs, savedData := savedData g @ bs\<rparr>"

definition put ::
  "bool \<Rightarrow> (message \<Rightarrow> 'd \<Rightarrow> 'd) \<Rightarrow> receiver \<Rightarrow> bytes \<Rightarrow> 'd \<Rightarrow> receiver \<times> 'd" where
  "put sc cb g bs d = put_loop sc cb (append_data bs g) d"

section \<open>Requests\<close>

definition push_recognizer :: "grammar_kind \<Rightarrow> bool \<Rightarrow> receiver \<Rightarrow> receiver" where
  "push_recognizer k c g =
     g\<lparr>recognizerQueue := recognizerQueue g @ [\<lparr>grammar = k, callback = c\<rparr>]\<rparr>"

definition CreatePauseRequest :: "receiver \<Rightarrow> bytes \<times> receiver" where
  "CreatePauseRequest g = ([REQ, INT_SHIFT + 0x12, EOM], push_recognizer GReply False g)"

definition CreateResumeRequest :: "receiver \<Rightarrow> bytes \<times> receiver" where
  "CreateResumeRequest g = ([REQ, INT_SHIFT + 0x13, EOM], push_recognizer GReply False g)"

definition CreateStepIntoRequest :: "receiver \<Rightarrow> bytes \<times> receiver" where
  "CreateStepIntoRequest g = ([REQ, INT_SHIFT + 0x14, EOM], push_recognizer GReply False g)"

definition CreateStepOverRequest :: "receiver \<Rightarrow> bytes \<times> receiver" where
  "CreateStepOverRequest g = ([REQ, INT_SHIFT + 0x15, EOM], push_recognizer GReply False g)"

definition CreateStepOutRequest :: "receiver \<Rightarrow> bytes \<times> receiver" where
  "CreateStepOutRequest g = ([REQ, INT_SHIFT + 0x16, EOM], push_recognizer GReply False g)"

definition CreateGetLocalsRequest :: "receiver \<Rightarrow> bytes \<times> receiver" where
  "CreateGetLocalsRequest g =
     ([REQ, INT_SHIFT + 0x1d, EOM],
      push_recognizer GLocals (replyNameValueArrayReceiver g) g)"

text \<open>
  The string and integer encodings that \<open>CreateAddBreakpointRequest\<close> and
  \<open>CreateRemoveBreakpointRequest\<close> write out. The second and third byte of a long string are
  the low and the high byte of its length, in this order; the source calls them \<open>hi\<close> and
  \<open>lo\<close>. An integer above 16383 is not written at all.
\<close>

definition encode_fileName :: "bytes \<Rightarrow> bytes" where
  "encode_fileName fileName =
     (if length fileName \<le> 31
      then [0x60 + of_nat (length fileName)]
      else let hi = of_nat (length fileName mod 256);
               lo = of_nat (length fileName div 256)
           in [0x12, hi, lo]) @ fileName"

definition encode_int :: "int \<Rightarrow> bytes" where
  "encode_int line =
     (if line \<le> 63 then [0x80 + of_int line]
      else if line \<ge> 64 \<and> line \<le> 16383
      then let hi = of_int (line div 256); lo = of_int (line mod 256) in [0xc0 + hi, lo]
      else [])"

definition CreateAddBreakpointRequest :: "bytes \<Rightarrow> int \<Rightarrow> receiver \<Rightarrow> bytes \<times> receiver" where
  "CreateAddBreakpointRequest fileName line g =
     ([REQ, INT_SHIFT + 0x18] @ encode_fileName fileName @ encode_int line @ [EOM],
      push_recognizer GReplyInt (replyAddBreakpointReceiver g) g)"

definition CreateRemoveBreakpointRequest :: "int \<Rightarrow> receiver \<Rightarrow> bytes \<times> receiver" where
  "CreateRemoveBreakpointRequest bpId g =
     ([REQ, INT_SHIFT + 0x19] @ encode_int bpId @ [EOM],
      push_recognizer GReply (replyRemoveBreakpointReceiver g) g)"

section \<open>Well-formed receivers\<close>

definition default_kinds :: "grammar_kind set" where
  "default_kinds = {GVersion, GStatus, GException}"

definition reply_kinds :: "grammar_kind set" where
  "reply_kinds = {GReply, GReplyInt, GLocals}"

definition receiver_ok :: "receiver \<Rightarrow> bool" where
  "receiver_ok g \<longleftrightarrow>
     grammar ` set (defaultRecognizers g) \<subseteq> default_kinds \<and>
     grammar ` set (recognizerQueue g) \<subseteq> reply_kinds"

lemmas request_defs [step_simps] =
  CreatePauseRequest_def CreateResumeRequest_def CreateStepIntoRequest_def
  CreateStepOverRequest_def CreateStepOutRequest_def CreateGetLocalsRequest_def
  CreateAddBreakpointRequest_def CreateRemoveBreakpointRequest_def

lemma push_recognizer_fields [simp]:
  "recognizerQueue (push_recognizer k c g) = recognizerQueue g @ [\<lparr>grammar = k, callback = c\<rparr>]"
  "defaultRecognizers (push_recognizer k c g) = defaultRecognizers g"
  "savedData (push_recognizer k c g) = savedData g"
  "totalSavedData (push_recognizer k c g) = totalSavedData g"
  "replyAddBreakpointReceiver (push_recognizer k c g) = replyAddBreakpointReceiver g"
  by (simp_all add: push_recognizer_def)

lemma receiver_ok_push [simp]:
  "receiver_ok (push_recognizer k c g) \<longleftrightarrow> receiver_ok g \<and> k \<in> reply_kinds"
  by (auto simp: receiver_ok_def)

lemma receiver_ok_init [simp]: "receiver_ok (InitDefaultRecognizers GrammarReceiver)"
  by (simp add: receiver_ok_def InitDefaultRecognizers_def GrammarReceiver_def default_kinds_def)

lemma receiver_ok_requests [simp]:
  assumes "receiver_ok g"
  shows "receiver_ok (snd (CreatePauseRequest g))"
    and "receiver_ok (snd (CreateResumeRequest g))"
    and "receiver_ok (snd (CreateStepIntoRequest g))"
    and "receiver_ok (snd (CreateStepOverRequest g))"
    and "receiver_ok (snd (CreateStepOutRequest g))"
    and "receiver_ok (snd (CreateGetLocalsRequest g))"
    and "receiver_ok (snd (CreateAddBreakpointRequest f l g))"
    and "receiver_ok (snd (CreateRemoveBreakpointRequest i g))"
    and "receiver_ok (clearLeftover g)"
    and "receiver_ok (append_data bs g)"
  using assms
  by (simp_all add: step_simps reply_kinds_def)
    (simp_all add: receiver_ok_def clearLeftover_def append_data_def)

section \<open>Which grammar can match\<close>

fun kind_first :: "grammar_kind \<Rightarrow> byte set" where
  "kind_first GVersion = {b. 0x31 \<le> b \<and> b \<le> 0x39}"
| "kind_first GStatus = {NFY}"
| "kind_first GException = {NFY}"
| "kind_first k = {REP}"

interpretation message: consuming_parser "qi_parse sc k" "kind_first k" for sc k
  by (cases k)
    (simp_all add: consuming_parser_sequence local_parser_succeed version.consuming_parser_axioms
      status.consuming_parser_axioms exception.consuming_parser_axioms reply.consuming_parser_axioms
      reply_int.consuming_parser_axioms locals.consuming_parser_axioms)

lemma status_head:
  "qi_parse sc GStatus bs = Some x \<Longrightarrow> \<exists>t. bs = NFY # NOTIFICATION_STATUS_INT # t"
  by (cases bs rule: list.exhaust [case_product list.exhaust [where y = "tl bs"]])
    (auto simp: StatusNotificationGrammar_def parser_simps split: option.splits if_splits)

lemma exception_head:
  "qi_parse sc GException bs = Some x \<Longrightarrow> \<exists>t. bs = NFY # NOTIFICATION_EXCEPTION_INT # t"
  by (cases bs rule: list.exhaust [case_product list.exhaust [where y = "tl bs"]])
    (auto simp: ExceptionNotificationGrammar_def parser_simps split: option.splits if_splits)

declare qi_parse.simps [simp del]

lemma notifications_exclusive:
  assumes "{k, k'} = {GStatus, GException}" and "qi_parse sc k bs = Some x"
  shows "qi_parse sc k' (bs @ t) = None"
proof (rule ccontr)
  assume "qi_parse sc k' (bs @ t) \<noteq> None"
  then obtain y where "qi_parse sc k' (bs @ t) = Some y" by blast
  with assms show False
    by (auto simp: doubleton_eq_iff wire_simps dest!: status_head exception_head)
qed

lemma kind_first_disjoint:
  assumes "k \<noteq> k'" and "k \<in> default_kinds \<or> k' \<in> default_kinds"
    and "{k, k'} \<noteq> {GStatus, GException}"
  shows "kind_first k \<inter> kind_first k' = {}"
  using assms
  by (cases k; cases k') (auto simp: default_kinds_def wire_simps word_le_def)

lemma exclusive:
  assumes "qi_parse sc k bs = Some x" and "k \<noteq> k'"
    and "k \<in> default_kinds \<or> k' \<in> default_kinds"
  shows "qi_parse sc k' (bs @ t) = None"
proof (cases "{k, k'} = {GStatus, GException}")
  case True
  then show ?thesis using assms(1) by (rule notifications_exclusive)
next
  case False
  from assms(1) obtain b u where "bs = b # u" "b \<in> kind_first k"
    using message.starts by (cases x) blast
  moreover have "kind_first k \<inter> kind_first k' = {}"
    using assms(2,3) False by (rule kind_first_disjoint)
  ultimately have "b \<notin> kind_first k'" by blast
  then show ?thesis using \<open>bs = b # u\<close> message.rejects by simp
qed

section \<open>Fragmentation\<close>

lemma eat_stable: "eat sc r bs = Some (m, rest) \<Longrightarrow> eat sc r (bs @ t) = Some (m, rest @ t)"
  by (auto simp: eat_def message.stable split: option.splits dest: message.stable [where t = t])

lemma eat_None_iff: "eat sc r bs = None \<longleftrightarrow> qi_parse sc (grammar r) bs = None"
  by (simp add: eat_def split: option.splits)

lemma eat_exclusive:
  assumes "eat sc r bs = Some x" and "grammar r \<noteq> grammar r'"
    and "grammar r \<in> default_kinds \<or> grammar r' \<in> default_kinds"
  shows "eat sc r' (bs @ t) = None"
proof -
  from assms(1) obtain y where "qi_parse sc (grammar r) bs = Some y"
    by (auto simp: eat_def split: option.splits)
  then show ?thesis using exclusive assms(2,3) by (simp add: eat_None_iff)
qed

lemma eat_default_stable:
  assumes "eat_default sc rs bs = Some (m, rest)" and "grammar ` set rs \<subseteq> default_kinds"
  shows "eat_default sc rs (bs @ t) = Some (m, rest @ t)"
  using assms
proof (induction rs)
  case Nil
  then show ?case by simp
next
  case (Cons r rs)
  show ?case
  proof (cases "eat sc r bs")
    case (Some x)
    then show ?thesis using Cons.prems(1) eat_stable by auto
  next
    case None
    then have later: "eat_default sc rs bs = Some (m, rest)" using Cons.prems(1) by simp
    then obtain r' where r': "r' \<in> set rs" "eat sc r' bs = Some (m, rest)"
      by (induction rs) (auto split: option.splits)
    with None have "grammar r' \<noteq> grammar r" by (metis eat_None_iff option.distinct(1))
    moreover have "grammar r' \<in> default_kinds" using r'(1) Cons.prems(2) by auto
    ultimately have "eat sc r (bs @ t) = None" using eat_exclusive [OF r'(2)] by blast
    with Cons.IH [OF later] Cons.prems(2) show ?thesis by simp
  qed
qed

lemma eat_default_exclusive:
  assumes "eat sc r bs = Some x" and "grammar r \<in> reply_kinds"
    and "grammar ` set rs \<subseteq> default_kinds"
  shows "eat_default sc rs (bs @ t) = None"
  using assms(3)
proof (induction rs)
  case (Cons r' rs)
  then have "eat sc r' (bs @ t) = None"
    using assms(1,2) by (intro eat_exclusive) (auto simp: default_kinds_def reply_kinds_def)
  with Cons show ?case by simp
qed simp

lemma put_round_stable:
  assumes "receiver_ok g" and "put_round sc g = Some (m, g')"
  shows "put_round sc (append_data t g) = Some (m, append_data t g')"
proof (cases "eat_default sc (defaultRecognizers g) (savedData g)")
  case (Some x)
  then obtain rest where ate: "eat_default sc (defaultRecognizers g) (savedData g) = Some (m, rest)"
    and g': "g' = g\<lparr>savedData := rest\<rparr>"
    using assms(2) by (cases x) (auto simp: put_round_def)
  from eat_default_stable [OF ate] g' show ?thesis
    using assms(1) by (simp add: put_round_def append_data_def receiver_ok_def)
next
  case None
  then obtain r rs rest where q: "recognizerQueue g = r # rs" "eat sc r (savedData g) = Some (m, rest)"
    and g': "g' = g\<lparr>savedData := rest, recognizerQueue := rs\<rparr>"
    using assms(2) by (auto simp: put_round_def split: list.splits option.splits)
  then have "eat_default sc (defaultRecognizers g) (savedData g @ t) = None"
    using assms(1) eat_default_exclusive by (auto simp: receiver_ok_def)
  then show ?thesis
    using q g' eat_stable [OF q(2)] by (simp add: put_round_def append_data_def)
qed

lemma put_round_ok: "receiver_ok g \<Longrightarrow> put_round sc g = Some (m, g') \<Longrightarrow> receiver_ok g'"
  by (fastforce simp: put_round_def receiver_ok_def split: list.splits option.splits)

lemma put_loop_ok: "receiver_ok g \<Longrightarrow> receiver_ok (fst (put_loop sc cb g d))"
  by (induction sc cb g d rule: put_loop.induct)
    (subst put_loop.simps, auto split: option.splits dest: put_round_ok)

lemma put_ok: "receiver_ok g \<Longrightarrow> receiver_ok (fst (put sc cb g bs d))"
  by (simp add: put_def put_loop_ok)

lemma put_loop_append:
  "receiver_ok g \<Longrightarrow>
    put_loop sc cb (append_data t g) d =
      (let (g', d') = put_loop sc cb g d in put_loop sc cb (append_data t g') d')"
proof (induction sc cb g d rule: put_loop.induct)
  case (1 sc cb g d)
  show ?case
  proof (cases "put_round sc g")
    case None
    then show ?thesis by (simp add: put_loop.simps [of sc cb g d])
  next
    case (Some x)
    then obtain m g' where m: "put_round sc g = Some (m, g')" by (cases x) auto
    with "1.prems" have "put_loop sc cb (append_data t g) d =
        put_loop sc cb (append_data t g') (dispatch cb m d)"
      by (subst put_loop.simps) (simp add: put_round_stable)
    with m "1.IH" put_round_ok [OF "1.prems" m] show ?thesis
      by (simp add: put_loop.simps [of sc cb g d])
  qed
qed

lemma append_data_append: "append_data t (append_data s g) = append_data (s @ t) g"
  by (simp add: append_data_def)

lemma put_append:
  assumes "receiver_ok g"
  shows "put sc cb g (s @ t) d = (let (g', d') = put sc cb g s d in put sc cb g' t d')"
  using put_loop_append [of "append_data s g" sc cb t d] assms
  by (simp add: put_def append_data_append)

section \<open>What is left in the buffer\<close>

lemma put_loop_quiescent: "put_round sc (fst (put_loop sc cb g d)) = None"
  by (induction sc cb g d rule: put_loop.induct) (subst put_loop.simps, auto split: option.splits)

lemma put_round_fields:
  assumes "put_round sc g = Some (m, g')"
  shows "totalSavedData g' = totalSavedData g" and "defaultRecognizers g' = defaultRecognizers g"
    and "recognizerQueue g' = recognizerQueue g \<or> recognizerQueue g' = tl (recognizerQueue g)"
    and "\<exists>u. u \<noteq> [] \<and> savedData g = u @ savedData g'"
proof -
  have ate: "\<exists>u. u \<noteq> [] \<and> bs = u @ rest" if "eat sc r bs = Some (x, rest)" for r bs x rest
    using that message.suffix message.consumes by (fastforce simp: eat_def split: option.splits)
  have ate_default: "\<exists>u. u \<noteq> [] \<and> bs = u @ rest" if "eat_default sc rs bs = Some (x, rest)" for rs bs x rest
    using that by (induction rs) (auto split: option.splits dest: ate)
  show "totalSavedData g' = totalSavedData g" and "defaultRecognizers g' = defaultRecognizers g"
    and "recognizerQueue g' = recognizerQueue g \<or> recognizerQueue g' = tl (recognizerQueue g)"
    and "\<exists>u. u \<noteq> [] \<and> savedData g = u @ savedData g'"
    using assms by (auto simp: put_round_def split: option.splits list.splits dest: ate ate_default)
qed

lemma put_loop_fields:
  "totalSavedData (fst (put_loop sc cb g d)) = totalSavedData g \<and>
   (\<exists>n. recognizerQueue (fst (put_loop sc cb g d)) = drop n (recognizerQueue g)) \<and>
   (\<exists>u. savedData g = u @ savedData (fst (put_loop sc cb g d)))"
proof (induction sc cb g d rule: put_loop.induct)
  case (1 sc cb g d)
  show ?case
  proof (cases "put_round sc g")
    case None
    then show ?thesis by (subst (1 2 3) put_loop.simps) (auto intro: exI [of _ 0])
  next
    case (Some x)
    then obtain m g' where m: "put_round sc g = Some (m, g')" by (cases x) auto
    then have unroll: "put_loop sc cb g d = put_loop sc cb g' (dispatch cb m d)"
      by (subst put_loop.simps) simp
    have skip: "\<exists>n. drop k (recognizerQueue g') = drop n (recognizerQueue g)" for k
      using put_round_fields(3) [OF m] by (metis drop_Suc)
    from put_round_fields(4) [OF m] obtain u where "savedData g = u @ savedData g'" by blast
    with "1.IH" [OF m refl] skip put_round_fields(1) [OF m] show ?thesis
      unfolding unroll by (metis append.assoc)
  qed
qed

lemma eat_rejects: "b \<notin> kind_first (grammar r) \<Longrightarrow> eat sc r (b # bs) = None"
  by (simp add: eat_def message.rejects)

lemma eat_default_rejects:
  "\<forall>r \<in> set rs. b \<notin> kind_first (grammar r) \<Longrightarrow> eat_default sc rs (b # bs) = None"
  by (induction rs) (auto simp: eat_rejects)

lemma put_round_rejects:
  assumes "\<forall>k. b \<notin> kind_first k" and "savedData g = b # t"
  shows "put_round sc g = None"
  using assms by (simp add: put_round_def eat_rejects eat_default_rejects split: list.split)

lemma put_stuck:
  assumes "\<forall>k. b \<notin> kind_first k" and "savedData g = b # t"
  shows "put sc cb g bs d = (append_data bs g, d)"
  using assms put_round_rejects [of b "append_data bs g" "t @ bs" sc]
  by (simp add: put_def put_loop.simps [of sc cb "append_data bs g"]) (simp add: append_data_def)

lemma kind_first_iff:
  "(\<exists>k. b \<in> kind_first k) \<longleftrightarrow> b = REP \<or> b = NFY \<or> (0x31 \<le> b \<and> b \<le> 0x39)"
proof
  assume "b = REP \<or> b = NFY \<or> (0x31 \<le> b \<and> b \<le> 0x39)"
  then show "\<exists>k. b \<in> kind_first k"
    by (metis (mono_tags) kind_first.simps(1,2,4) mem_Collect_eq singletonI)
next
  assume "\<exists>k. b \<in> kind_first k"
  then obtain k where "b \<in> kind_first k" by blast
  then show "b = REP \<or> b = NFY \<or> (0x31 \<le> b \<and> b \<le> 0x39)" by (cases k) auto
qed

section \<open>Which recognizer took a message\<close>

fun message_kind :: "message \<Rightarrow> grammar_kind" where
  "message_kind MVersion = GVersion"
| "message_kind (MStatus _) = GStatus"
| "message_kind (MException _) = GException"
| "message_kind (MReply _) = GReply"
| "message_kind (MReplyInt _) = GReplyInt"
| "message_kind (MLocals _) = GLocals"

lemma qi_parse_kind: "qi_parse sc k bs = Some (x, rest) \<Longrightarrow> message_kind x = k"
  by (cases k) (auto simp: qi_parse.simps sequence_def succeed_def split: option.splits)

lemma eat_message:
  "eat sc r bs = Some (m, rest) \<Longrightarrow>
    map_option message_kind m = (if callback r then Some (grammar r) else None)"
  by (auto simp: eat_def split: option.splits dest: qi_parse_kind)

lemma eat_default_message:
  "eat_default sc rs bs = Some (m, rest) \<Longrightarrow>
    map_option message_kind m \<in> insert None (Some ` grammar ` set rs)"
  by (induction rs) (auto split: option.splits if_splits dest: eat_message)

lemma put_round_cases:
  assumes "put_round sc g = Some (m, g')" and "receiver_ok g"
  obtains (notification) "recognizerQueue g' = recognizerQueue g"
      "map_option message_kind m \<in> insert None (Some ` default_kinds)"
    | (reply) r where "recognizerQueue g = r # recognizerQueue g'"
      "map_option message_kind m = (if callback r then Some (grammar r) else None)"
proof (cases "eat_default sc (defaultRecognizers g) (savedData g)")
  case (Some x)
  then obtain rest where ate: "eat_default sc (defaultRecognizers g) (savedData g) = Some (m, rest)"
    and "recognizerQueue g' = recognizerQueue g"
    using assms(1) by (cases x) (auto simp: put_round_def)
  with eat_default_message [OF ate] assms(2) show ?thesis
    by (intro notification) (auto simp: receiver_ok_def)
next
  case None
  then obtain r rest where "recognizerQueue g = r # recognizerQueue g'"
    "eat sc r (savedData g) = Some (m, rest)"
    using assms(1) by (auto simp: put_round_def split: list.splits option.splits)
  then show ?thesis using eat_message reply by blast
qed

section \<open>A single message\<close>

lemma put_round_empty:
  assumes "savedData g = []"
  shows "put_round sc g = None"
proof -
  have "eat sc r [] = None" for r by (simp add: eat_None_iff message.fails_Nil)
  moreover from this have "eat_default sc rs [] = None" for rs by (induction rs) simp_all
  ultimately show ?thesis using assms by (simp add: put_round_def split: list.split)
qed

lemma put_one:
  assumes "savedData g = []" and "put_round sc (append_data bs g) = Some (m, g')" and "savedData g' = []"
  shows "put sc cb g bs d = (g', dispatch cb m d)"
  using assms put_round_empty [OF assms(3)]
  by (simp add: put_def put_loop.simps [of sc cb "append_data bs g"] put_loop.simps [of sc cb g'])

lemma put_reply:
  assumes "receiver_ok g" and "savedData g = []" and "recognizerQueue g = r # rs"
    and "qi_parse sc (grammar r) bs = Some (m, [])"
  shows "put sc cb g bs d =
    ((append_data bs g)\<lparr>savedData := [], recognizerQueue := rs\<rparr>,
      dispatch cb (if callback r then Some m else None) d)"
proof (rule put_one [OF assms(2)])
  have ate: "eat sc r bs = Some (if callback r then Some m else None, [])"
    using assms(4) by (simp add: eat_def)
  moreover have "eat_default sc (defaultRecognizers g) (bs @ []) = None"
    using assms(1,3) by (intro eat_default_exclusive [OF ate]) (auto simp: receiver_ok_def)
  ultimately show "put_round sc (append_data bs g) =
      Some (if callback r then Some m else None, (append_data bs g)\<lparr>savedData := [], recognizerQueue := rs\<rparr>)"
    using assms(2,3) by (simp add: put_round_def append_data_def)
qed simp

lemma eat_default_first:
  assumes "qi_parse sc k bs = Some (m, rest)" and "k \<in> default_kinds"
    and "\<lparr>grammar = k, callback = c\<rparr> \<in> set rs" and "grammar ` set rs \<subseteq> default_kinds"
    and "\<And>r. r \<in> set rs \<Longrightarrow> grammar r = k \<Longrightarrow> callback r = c"
  shows "eat_default sc rs bs = Some (if c then Some m else None, rest)"
  using assms(3-5)
proof (induction rs)
  case (Cons r rs)
  show ?case
  proof (cases "grammar r = k")
    case True
    then show ?thesis using Cons.prems(3) [of r] assms(1) by (simp add: eat_def)
  next
    case False
    then have "eat sc r bs = None"
      using exclusive [OF assms(1), of "grammar r" "[]"] assms(2) by (simp add: eat_None_iff)
    with False Cons show ?thesis by auto
  qed
qed simp

lemma put_notification:
  assumes "receiver_ok g" and "savedData g = []" and "k \<in> default_kinds"
    and "\<lparr>grammar = k, callback = c\<rparr> \<in> set (defaultRecognizers g)"
    and "\<And>r. r \<in> set (defaultRecognizers g) \<Longrightarrow> grammar r = k \<Longrightarrow> callback r = c"
    and "qi_parse sc k bs = Some (m, [])"
  shows "put sc cb g bs d =
    ((append_data bs g)\<lparr>savedData := []\<rparr>, dispatch cb (if c then Some m else None) d)"
proof (rule put_one [OF assms(2)])
  have "eat_default sc (defaultRecognizers g) bs = Some (if c then Some m else None, [])"
    using assms by (intro eat_default_first) (auto simp: receiver_ok_def)
  then show "put_round sc (append_data bs g) =
      Some (if c then Some m else None, (append_data bs g)\<lparr>savedData := []\<rparr>)"
    using assms(2) by (simp add: put_round_def append_data_def)
qed simp

section \<open>Properties of the receiver\<close>

lemma fold_put:
  "receiver_ok g \<Longrightarrow>
    fold (\<lambda>bs (g, d). put sc cb g bs d) chunks (put sc cb g bs d) = put sc cb g (bs @ concat chunks) d"
proof (induction chunks arbitrary: bs)
  case (Cons c chunks)
  have "(\<lambda>bs (g, d). put sc cb g bs d) c (put sc cb g bs d) = put sc cb g (bs @ c) d"
    using put_append [OF Cons.prems, of sc cb bs c d] by (simp add: case_prod_beta)
  with Cons.IH [OF Cons.prems, of "bs @ c"] show ?case by simp
qed simp

text \<open>
  C1: How the transport cuts the stream of bytes does not matter. Whatever sequence of chunks
  \<open>put\<close> is called with, the messages handed to the callbacks, their order, the bytes that stay
  in the buffer and the recognizers that stay queued are those of one call with all the bytes.
\<close>

theorem put_fragmentation:
  assumes "receiver_ok g" and "chunks \<noteq> []"
  shows "fold (\<lambda>bs (g, d). put sc cb g bs d) chunks (g, d) = put sc cb g (concat chunks) d"
  using assms fold_put [OF assms(1), of sc cb "tl chunks" "hd chunks" d] by (cases chunks) auto

definition listening :: receiver where
  "listening = InitDefaultRecognizers
     (GrammarReceiver\<lparr>statusNotificationReceiver := True, replyAddBreakpointReceiver := True\<rparr>)"

lemma listening_ok: "receiver_ok listening"
  by (simp add: listening_def receiver_ok_def InitDefaultRecognizers_def GrammarReceiver_def
      default_kinds_def)

lemma put_example:
  "snd (put True (\<lambda>m d. d @ [m]) (snd (CreateAddBreakpointRequest (str ''a'') 7 listening))
     [0x02, 0x85, 0x00] []) = [MReplyInt 5]"
  by code_simp

theorem put_fragmentation_witness:
  "receiver_ok (snd (CreateAddBreakpointRequest (str ''a'') 7 listening)) \<and>
   snd (fold (\<lambda>bs (g, d). put True (\<lambda>m d. d @ [m]) g bs d) [[0x02], [0x85, 0x00]]
     (snd (CreateAddBreakpointRequest (str ''a'') 7 listening), [])) = [MReplyInt 5]"
  using put_fragmentation [of "snd (CreateAddBreakpointRequest (str ''a'') 7 listening)"
      "[[0x02], [0x85, 0x00]]" True "\<lambda>m d. d @ [m]" "[]"] listening_ok put_example by simp



text \<open>
  No byte is lost, duplicated or reordered by \<open>put\<close>: the bytes still buffered are the end of all
  the bytes received, and the expected replies are taken from the head of the queue only.
\<close>

theorem put_conservation:
  assumes "totalSavedData g = consumed @ savedData g"
  shows "(\<exists>consumed'. totalSavedData g @ bs =
      consumed' @ savedData (fst (put sc cb g bs d))) \<and>
    totalSavedData (fst (put sc cb g bs d)) = totalSavedData g @ bs \<and>
    (\<exists>n. recognizerQueue (fst (put sc cb g bs d)) = drop n (recognizerQueue g))"
proof -
  let ?g = "append_data bs g"
  note fields = put_loop_fields [of sc cb ?g d, folded put_def]
  from fields obtain u where "savedData ?g = u @ savedData (fst (put sc cb g bs d))" by blast
  with assms have "totalSavedData g @ bs = (consumed @ u) @ savedData (fst (put sc cb g bs d))"
    by (simp add: append_data_def)
  with fields show ?thesis by (simp add: append_data_def)
qed

theorem put_conservation_witness:
  "totalSavedData listening = [] @ savedData listening \<and>
   totalSavedData (fst (put True (\<lambda>m d. d @ [m]) listening [0x33, 0x02] [])) =
     totalSavedData listening @ [0x33, 0x02]"
  using put_conservation [of listening "[]" "[0x33, 0x02]" True "\<lambda>m d. d @ [m]" "[]"]
  by (simp add: listening_def InitDefaultRecognizers_def GrammarReceiver_def)

text \<open>
  C13: A byte that starts none of the messages the client knows blocks it for good. Duktape's error
  reply starts with \<open>0x03\<close>, which is such a byte: once it is at the head of the buffer no later
  input is ever recognized, whatever it is, and every byte only accumulates.
\<close>

theorem put_wedged:
  assumes "b \<noteq> REP" and "b \<noteq> NFY" and "\<not> (0x31 \<le> b \<and> b \<le> 0x39)" and "savedData g = b # t"
  shows "put sc cb g bs d = (append_data bs g, d)"
proof (rule put_stuck)
  show "\<forall>k. b \<notin> kind_first k" using assms(1-3) kind_first_iff [of b] by blast
qed (rule assms(4))

theorem put_wedged_witness:
  "savedData (append_data [0x03, 0x80, 0x60, 0x00] listening) = 0x03 # [0x80, 0x60, 0x00] \<and>
   put True (\<lambda>m d. d @ [m]) (append_data [0x03, 0x80, 0x60, 0x00] listening) [0x02, 0x85, 0x00] [] =
     (append_data [0x02, 0x85, 0x00] (append_data [0x03, 0x80, 0x60, 0x00] listening), [])"
  using put_wedged [of "0x03" "append_data [0x03, 0x80, 0x60, 0x00] listening" "[0x80, 0x60, 0x00]"
      True "\<lambda>m d. d @ [m]" "[0x02, 0x85, 0x00]" "[]"]
  by (simp add: wire_simps append_data_def listening_def InitDefaultRecognizers_def
      GrammarReceiver_def)

end
