(* ===== verification/Std_Map.thy ===== *)
theory Std_Map
  imports Unify_Prelude
begin

text \<open>
  \<open>std::map\<close> as the program uses it: an association list that is strictly ordered by its keys, the
  order in which the C++ iterators visit the entries. The contract of an ordered map is the
  locale \<open>ordered_map\<close>; what clients need of a table is proved there once and reaches them
  through the interpretation \<open>std_map\<close>.
\<close>

type_synonym ('k, 'v) std_map = "('k \<times> 'v) list"

definition map_ok :: "('k::linorder, 'v) std_map \<Rightarrow> bool" where
  "map_ok m \<longleftrightarrow> sorted_wrt (<) (map fst m)"

definition map_find :: "('k, 'v) std_map \<Rightarrow> 'k \<Rightarrow> 'v option" where
  "map_find m k = map_of m k"

fun map_put :: "'k::linorder \<Rightarrow> 'v \<Rightarrow> ('k, 'v) std_map \<Rightarrow> ('k, 'v) std_map" where
  "map_put k v [] = [(k, v)]"
| "map_put k v ((k', v') # m) =
     (if k < k' then (k, v) # (k', v') # m
      else if k = k' then (k, v) # m
      else (k', v') # map_put k v m)"

definition map_erase :: "'k \<Rightarrow> ('k, 'v) std_map \<Rightarrow> ('k, 'v) std_map" where
  "map_erase k m = filter (\<lambda>e. fst e \<noteq> k) m"

section \<open>The contract\<close>

locale ordered_map =
  fixes ok :: "'m \<Rightarrow> bool"
    and lookup :: "'m \<Rightarrow> 'k \<Rightarrow> 'v option"
    and insert_at :: "'k \<Rightarrow> 'v \<Rightarrow> 'm \<Rightarrow> 'm"
    and erase :: "'k \<Rightarrow> 'm \<Rightarrow> 'm"
    and entries :: "'m \<Rightarrow> ('k \<times> 'v) list"
  assumes ok_insert: "ok m \<Longrightarrow> ok (insert_at k v m)"
    and ok_erase: "ok m \<Longrightarrow> ok (erase k m)"
    and lookup_insert: "lookup (insert_at k v m) k' = (if k' = k then Some v else lookup m k')"
    and lookup_erase: "lookup (erase k m) k' = (if k' = k then None else lookup m k')"
    and entries_lookup: "ok m \<Longrightarrow> (k, v) \<in> set (entries m) \<longleftrightarrow> lookup m k = Some v"
    and entries_distinct: "ok m \<Longrightarrow> distinct (map fst (entries m))"
begin

lemma entries_insert:
  "ok m \<Longrightarrow> set (entries (insert_at k v m)) = insert (k, v) {e \<in> set (entries m). fst e \<noteq> k}"
  by (auto simp: entries_lookup ok_insert lookup_insert split: if_splits)

lemma entries_erase:
  "ok m \<Longrightarrow> set (entries (erase k m)) = {e \<in> set (entries m). fst e \<noteq> k}"
  by (auto simp: entries_lookup ok_erase lookup_erase split: if_splits)

lemma entries_unique:
  "ok m \<Longrightarrow> (k, v) \<in> set (entries m) \<Longrightarrow> (k, w) \<in> set (entries m) \<Longrightarrow> v = w"
  by (simp add: entries_lookup)

lemma find_None_iff_lookup:
  "ok m \<Longrightarrow> find (\<lambda>e. P (snd e)) (entries m) = None \<longleftrightarrow> (\<forall>k v. lookup m k = Some v \<longrightarrow> \<not> P v)"
  by (force simp: find_None_iff entries_lookup)

lemma find_Some_lookup:
  "ok m \<Longrightarrow> find (\<lambda>e. P (snd e)) (entries m) = Some (k, v) \<Longrightarrow> lookup m k = Some v \<and> P v"
  by (auto simp: find_Some_iff simp flip: entries_lookup) (drule sym, simp)

end

section \<open>The model satisfies it\<close>

lemma map_put_keys: "fst ` set (map_put k v m) = insert k (fst ` set m)"
proof (induction m)
  case (Cons e m)
  then show ?case by (cases e) (simp add: insert_commute)
qed simp

lemma map_ok_put: "map_ok m \<Longrightarrow> map_ok (map_put k v m)"
proof (induction m)
  case (Cons e m)
  then have "\<forall>k' \<in> fst ` set (map_put k v m). fst e < k'" if "fst e < k"
    using that by (simp add: map_put_keys map_ok_def)
  with Cons show ?case by (cases e) (auto simp: map_ok_def)
qed (simp add: map_ok_def)

lemma map_ok_erase: "map_ok m \<Longrightarrow> map_ok (map_erase k m)"
  by (induction m) (auto simp: map_ok_def map_erase_def)

lemma map_find_put [simp]: "map_find (map_put k v m) k' = (if k' = k then Some v else map_find m k')"
  by (induction m) (auto simp: map_find_def)

lemma map_find_erase [simp]: "map_find (map_erase k m) k' = (if k' = k then None else map_find m k')"
  by (induction m) (auto simp: map_find_def map_erase_def)

lemma map_ok_distinct: "map_ok m \<Longrightarrow> distinct (map fst m)"
  by (simp add: map_ok_def strict_sorted_iff)

lemma map_ok_Nil [simp]: "map_ok []"
  by (simp add: map_ok_def)

interpretation std_map: ordered_map map_ok map_find map_put map_erase "\<lambda>m. m"
  by unfold_locales
    (simp_all add: map_ok_put map_ok_erase map_ok_distinct,
      simp add: map_find_def map_of_eq_Some_iff map_ok_distinct)

end
