(* ===== verification/Duk_Debugger.thy ===== *)
theory Duk_Debugger
  imports Grammar_Receiver Std_Map
begin

text \<open>
  \<open>ce::DukDebugger\<close> of \<^verbatim>\<open>src/unifyframework/platform/DukDebugger.cpp\<close>, the debug client: the bytes that
  wait to be read by Duktape, the breakpoints that wait for their id, and the table of the
  breakpoints that have one.

  The client is called by two kinds of threads. User threads issue requests; the JS thread reads
  the requests and writes what Duktape answers. Each critical section of the source (the code
  under \<open>breakpointPendingMutex\<close>, \<open>recognizerQueueMutex\<close> or \<open>outputBufferMutex\<close>) is a definition
  of its own. The sequential operations compose them in program order; the step relation
  \<open>client_step\<close> interleaves them between any number of user threads and the JS thread, and the
  wait on \<open>outputBufferConditionVariable\<close> is that no read step is possible on an empty buffer.
\<close>

type_synonym breakpoint = "bytes \<times> int"

record debugger =
  firstPause :: bool
  isAttached :: bool
  grammarReceiver :: receiver
  outputBuffer :: bytes
  breakpointPendingList :: "breakpoint list"
  breakpointMap :: "(int, breakpoint) std_map"
  OnDebuggerStateChangedFunc :: bool
  OnDebuggerGetLocalsFunc :: bool
  OnReceiveExceptionNotificationFunc :: bool
  client_calls :: "message list"

text \<open>
  The three \<open>On...Func\<close> fields say whether the \<open>std::function\<close> is set; \<open>client_calls\<close> lists the calls
  made through them, oldest first.
\<close>

definition DukDebugger :: debugger where
  "DukDebugger =
     \<lparr>firstPause = False, isAttached = False,
      grammarReceiver = InitDefaultRecognizers
        (GrammarReceiver\<lparr>versionIdentificationReceiver := True, statusNotificationReceiver := True,
           replyAddBreakpointReceiver := True, replyRemoveBreakpointReceiver := True,
           replyNameValueArrayReceiver := True, exceptionNotificationReceiver := True\<rparr>),
      outputBuffer = [], breakpointPendingList = [], breakpointMap = [],
      OnDebuggerStateChangedFunc = False, OnDebuggerGetLocalsFunc = False,
      OnReceiveExceptionNotificationFunc = False, client_calls = []\<rparr>"

section \<open>Requests of the user threads\<close>

definition RefillDataToSend :: "bytes \<Rightarrow> debugger \<Rightarrow> debugger" where
  "RefillDataToSend newData d =
     (if length newData = 0 then d else d\<lparr>outputBuffer := outputBuffer d @ newData\<rparr>)"

definition create :: "(receiver \<Rightarrow> bytes \<times> receiver) \<Rightarrow> debugger \<Rightarrow> bytes \<times> debugger" where
  "create f d = (let (request, g) = f (grammarReceiver d) in (request, d\<lparr>grammarReceiver := g\<rparr>))"

definition send :: "(receiver \<Rightarrow> bytes \<times> receiver) \<Rightarrow> debugger \<Rightarrow> debugger" where
  "send f d = (let (request, d') = create f d in RefillDataToSend request d')"

definition Pause :: "debugger \<Rightarrow> debugger" where
  "Pause d = send CreatePauseRequest d"

definition Resume :: "debugger \<Rightarrow> debugger" where
  "Resume d = send CreateResumeRequest d"

definition StepInto :: "debugger \<Rightarrow> debugger" where
  "StepInto d = send CreateStepIntoRequest d"

definition StepOver :: "debugger \<Rightarrow> debugger" where
  "StepOver d = send CreateStepOverRequest d"

definition StepOut :: "debugger \<Rightarrow> debugger" where
  "StepOut d = send CreateStepOutRequest d"

definition GetLocals :: "debugger \<Rightarrow> debugger" where
  "GetLocals d = send CreateGetLocalsRequest d"

definition find_breakpoint :: "bytes \<Rightarrow> int \<Rightarrow> debugger \<Rightarrow> (int \<times> breakpoint) option" where
  "find_breakpoint filename line d =
     find (\<lambda>itr. fst (snd itr) = filename \<and> snd (snd itr) = line) (breakpointMap d)"

text \<open>The first critical section of \<open>AddBreakpoint\<close>; \<open>None\<close> is the early return.\<close>

definition AddBreakpoint_pending :: "bytes \<Rightarrow> int \<Rightarrow> debugger \<Rightarrow> debugger option" where
  "AddBreakpoint_pending filename line d =
     (case find_breakpoint filename line d of
        Some _ \<Rightarrow> None
      | None \<Rightarrow> Some (d\<lparr>breakpointPendingList := breakpointPendingList d @ [(filename, line)]\<rparr>))"

definition AddBreakpoint :: "bytes \<Rightarrow> int \<Rightarrow> debugger \<Rightarrow> debugger" where
  "AddBreakpoint filename line d =
     (case AddBreakpoint_pending filename line d of
        None \<Rightarrow> d
      | Some d' \<Rightarrow> send (CreateAddBreakpointRequest filename line) d')"

text \<open>The first critical section of \<open>RemoveBreakpoint\<close>, which computes the local \<open>id\<close>.\<close>

definition RemoveBreakpoint_erase :: "bytes \<Rightarrow> int \<Rightarrow> debugger \<Rightarrow> int \<times> debugger" where
  "RemoveBreakpoint_erase filename line d =
     (case find_breakpoint filename line d of
        Some (bpId, _) \<Rightarrow> (bpId, d\<lparr>breakpointMap := map_erase bpId (breakpointMap d)\<rparr>)
      | None \<Rightarrow> (-1, d))"

definition RemoveBreakpoint :: "bytes \<Rightarrow> int \<Rightarrow> debugger \<Rightarrow> debugger" where
  "RemoveBreakpoint filename line d =
     (let (bpId, d') = RemoveBreakpoint_erase filename line d
      in if bpId \<noteq> -1 then send (CreateRemoveBreakpointRequest bpId) d' else d')"

section \<open>Messages from Duktape\<close>

definition onReceiveVersionIdentification :: "debugger \<Rightarrow> debugger" where
  "onReceiveVersionIdentification d = d"

definition onReceiveStatusNotification :: "StatusNotification \<Rightarrow> debugger \<Rightarrow> debugger" where
  "onReceiveStatusNotification statusNotification d =
     (if \<not> firstPause d then d\<lparr>firstPause := True\<rparr>
      else if OnDebuggerStateChangedFunc d
      then d\<lparr>client_calls := client_calls d @ [MStatus statusNotification]\<rparr>
      else d)"

definition onRemoveBreakpoint :: "int list \<Rightarrow> debugger \<Rightarrow> debugger" where
  "onRemoveBreakpoint reply d = d"

definition onAddBreakpoint :: "int \<Rightarrow> debugger \<Rightarrow> debugger" where
  "onAddBreakpoint replyInt d =
     (case breakpointPendingList d of
        b # rest \<Rightarrow> d\<lparr>breakpointMap := map_put replyInt b (breakpointMap d),
                      breakpointPendingList := rest\<rparr>
      | [] \<Rightarrow> d)"

definition onReceiveGetLocals :: "ReplyNameValue list \<Rightarrow> debugger \<Rightarrow> debugger" where
  "onReceiveGetLocals replyNameValueArray d =
     (if OnDebuggerGetLocalsFunc d
      then d\<lparr>client_calls := client_calls d @ [MLocals replyNameValueArray]\<rparr> else d)"

definition onReceiveExceptionNotification :: "ExceptionNotification \<Rightarrow> debugger \<Rightarrow> debugger" where
  "onReceiveExceptionNotification exceptionNotification d =
     (if OnReceiveExceptionNotificationFunc d
      then d\<lparr>client_calls := client_calls d @ [MException exceptionNotification]\<rparr> else d)"

text \<open>The \<open>std::bind\<close> calls of the constructor: which handler gets which message.\<close>

fun on_message :: "message \<Rightarrow> debugger \<Rightarrow> debugger" where
  "on_message MVersion = onReceiveVersionIdentification"
| "on_message (MStatus s) = onReceiveStatusNotification s"
| "on_message (MException e) = onReceiveExceptionNotification e"
| "on_message (MReply r) = onRemoveBreakpoint r"
| "on_message (MReplyInt i) = onAddBreakpoint i"
| "on_message (MLocals l) = onReceiveGetLocals l"

section \<open>Callbacks of the JS thread\<close>

definition innerSendData :: "nat \<Rightarrow> debugger \<Rightarrow> bytes \<times> debugger" where
  "innerSendData len d =
     (if length (outputBuffer d) > len
      then (take len (outputBuffer d), d\<lparr>outputBuffer := drop len (outputBuffer d)\<rparr>)
      else (outputBuffer d, d\<lparr>outputBuffer := []\<rparr>))"

text \<open>\<open>None\<close>: the call waits on the condition variable.\<close>

definition duk_trans_dvalue_read :: "nat \<Rightarrow> debugger \<Rightarrow> (bytes \<times> debugger) option" where
  "duk_trans_dvalue_read len d =
     (if length (outputBuffer d) > 0 then Some (innerSendData len d) else None)"

definition duk_trans_dvalue_write :: "bool \<Rightarrow> bytes \<Rightarrow> debugger \<Rightarrow> nat \<times> debugger" where
  "duk_trans_dvalue_write sc buffer d =
     (let (g, d') = put sc on_message (grammarReceiver d) buffer d
      in (length buffer, d'\<lparr>grammarReceiver := g\<rparr>))"

definition duk_trans_dvalue_peek :: "debugger \<Rightarrow> nat" where
  "duk_trans_dvalue_peek d = length (outputBuffer d)"

definition ClearLeftover :: "debugger \<Rightarrow> debugger" where
  "ClearLeftover d = d\<lparr>grammarReceiver := clearLeftover (grammarReceiver d)\<rparr>"

section \<open>Interleaving\<close>

text \<open>
  What a user thread still has to do of the call it is in. \<open>AddPending\<close>, \<open>AddCreate\<close> and
  \<open>AddRefill\<close> are the three critical sections of \<open>AddBreakpoint\<close> that are still ahead;
  \<open>Simple\<close> is one of the six requests without arguments.
\<close>

datatype simple_request = PauseR | ResumeR | StepIntoR | StepOverR | StepOutR | GetLocalsR

fun create_simple :: "simple_request \<Rightarrow> receiver \<Rightarrow> bytes \<times> receiver" where
  "create_simple PauseR = CreatePauseRequest"
| "create_simple ResumeR = CreateResumeRequest"
| "create_simple StepIntoR = CreateStepIntoRequest"
| "create_simple StepOverR = CreateStepOverRequest"
| "create_simple StepOutR = CreateStepOutRequest"
| "create_simple GetLocalsR = CreateGetLocalsRequest"

datatype pending_code =
    Idle
  | Simple simple_request
  | AddPending bytes int
  | AddCreate bytes int
  | AddRefill bytes int bytes
  | RemoveErase bytes int
  | RemoveCreate int
  | Refill bytes

text \<open>What an observer of the shared state sees of a step.\<close>

datatype label =
    Internal
  | Refilled bytes "breakpoint option"
  | Delivered bytes
  | Written bytes
  | Round "breakpoint list"

fun thread_step :: "pending_code \<Rightarrow> debugger \<Rightarrow> label \<times> pending_code \<times> debugger" where
  "thread_step Idle d = (Internal, Idle, d)"
| "thread_step (Simple r) d =
     (let (request, d') = create (create_simple r) d in (Internal, Refill request, d'))"
| "thread_step (AddPending f l) d =
     (case AddBreakpoint_pending f l d of
        None \<Rightarrow> (Internal, Idle, d)
      | Some d' \<Rightarrow> (Internal, AddCreate f l, d'))"
| "thread_step (AddCreate f l) d =
     (let (request, d') = create (CreateAddBreakpointRequest f l) d
      in (Internal, AddRefill f l request, d'))"
| "thread_step (AddRefill f l request) d =
     (Refilled request (Some (f, l)), Idle, RefillDataToSend request d)"
| "thread_step (RemoveErase f l) d =
     (let (bpId, d') = RemoveBreakpoint_erase f l d
      in (Internal, if bpId \<noteq> -1 then RemoveCreate bpId else Idle, d'))"
| "thread_step (RemoveCreate bpId) d =
     (let (request, d') = create (CreateRemoveBreakpointRequest bpId) d
      in (Internal, Refill request, d'))"
| "thread_step (Refill request) d = (Refilled request None, Idle, RefillDataToSend request d)"

definition assigned :: "debugger \<Rightarrow> debugger \<Rightarrow> breakpoint list" where
  "assigned d d' =
     take (length (breakpointPendingList d) - length (breakpointPendingList d'))
       (breakpointPendingList d)"

fun initial_code :: "pending_code \<Rightarrow> bool" where
  "initial_code (Simple _) = True"
| "initial_code (AddPending _ _) = True"
| "initial_code (RemoveErase _ _) = True"
| "initial_code _ = False"

text \<open>
  The JS thread is either outside of \<open>put\<close> or in its loop. \<open>write_begin\<close> is the code of \<open>put\<close> before
  the loop and \<open>write_round\<close> one round of it; \<open>None\<close> is that the loop ends.
\<close>

definition write_begin :: "bytes \<Rightarrow> debugger \<Rightarrow> debugger" where
  "write_begin buffer d = d\<lparr>grammarReceiver := append_data buffer (grammarReceiver d)\<rparr>"

definition write_round :: "bool \<Rightarrow> debugger \<Rightarrow> debugger option" where
  "write_round sc d =
     (case put_round sc (grammarReceiver d) of
        None \<Rightarrow> None
      | Some (m, g) \<Rightarrow> Some ((dispatch on_message m d)\<lparr>grammarReceiver := g\<rparr>))"

type_synonym system = "debugger \<times> bool \<times> pending_code list"

inductive client_step :: "bool \<Rightarrow> system \<Rightarrow> label \<Rightarrow> system \<Rightarrow> bool" for sc where
  call: "i < length ts \<Longrightarrow> ts ! i = Idle \<Longrightarrow> initial_code c \<Longrightarrow>
    client_step sc (d, w, ts) Internal (d, w, ts[i := c])"
| user: "i < length ts \<Longrightarrow> ts ! i \<noteq> Idle \<Longrightarrow> thread_step (ts ! i) d = (lab, c, d') \<Longrightarrow>
    client_step sc (d, w, ts) lab (d', w, ts[i := c])"
| js_read: "duk_trans_dvalue_read n d = Some (buffer, d') \<Longrightarrow>
    client_step sc (d, False, ts) (Delivered buffer) (d', False, ts)"
| js_write: "client_step sc (d, False, ts) (Written buffer) (write_begin buffer d, True, ts)"
| js_round: "write_round sc d = Some d' \<Longrightarrow>
    client_step sc (d, True, ts) (Round (assigned d d')) (d', True, ts)"
| js_return: "write_round sc d = None \<Longrightarrow>
    client_step sc (d, True, ts) Internal (d, False, ts)"

inductive client_run :: "bool \<Rightarrow> system \<Rightarrow> label list \<Rightarrow> system \<Rightarrow> bool" for sc where
  run_Nil: "client_run sc s [] s"
| run_snoc: "client_run sc s tr s' \<Longrightarrow> client_step sc s' lab s'' \<Longrightarrow> client_run sc s (tr @ [lab]) s''"

inductive_cases client_step_cases: "client_step sc (d, w, ts) lab s'"

definition initial_system :: "nat \<Rightarrow> system" where
  "initial_system n = (DukDebugger, False, replicate n Idle)"

fun refilled :: "label \<Rightarrow> bytes" where
  "refilled (Refilled bs _) = bs"
| "refilled _ = []"

fun delivered :: "label \<Rightarrow> bytes" where
  "delivered (Delivered bs) = bs"
| "delivered _ = []"

fun requested :: "label \<Rightarrow> breakpoint list" where
  "requested (Refilled _ (Some b)) = [b]"
| "requested _ = []"

fun attributed :: "label \<Rightarrow> breakpoint list" where
  "attributed (Round bs) = bs"
| "attributed _ = []"

section \<open>Sequential facts\<close>

lemmas handler_defs [step_simps] =
  onReceiveVersionIdentification_def onReceiveStatusNotification_def onRemoveBreakpoint_def
  onAddBreakpoint_def onReceiveGetLocals_def onReceiveExceptionNotification_def

lemmas operation_defs [step_simps] =
  Pause_def Resume_def StepInto_def StepOver_def StepOut_def GetLocals_def send_def create_def
  RefillDataToSend_def AddBreakpoint_def AddBreakpoint_pending_def RemoveBreakpoint_def
  RemoveBreakpoint_erase_def

lemma put_loop_commute:
  assumes "\<And>m d. cb m (u d) = u (cb m d)"
  shows "put_loop sc cb g (u d) = map_prod id u (put_loop sc cb g d)"
  using assms
proof (induction sc cb g d rule: put_loop.induct)
  case (1 sc cb g d)
  have "dispatch cb m (u d) = u (dispatch cb m d)" for m
    using "1.prems" by (simp add: dispatch_def split: option.split)
  with "1.IH" [OF _ refl "1.prems"] show ?case
    by (simp add: put_loop.simps [of sc cb g] split: option.split)
qed

lemma on_message_receiver:
  "on_message m (d\<lparr>grammarReceiver := g\<rparr>) = (on_message m d)\<lparr>grammarReceiver := g\<rparr>"
  by (cases m) (simp_all add: step_simps split: list.split)

lemma put_receiver:
  "put sc on_message g bs (d\<lparr>grammarReceiver := g'\<rparr>) =
    map_prod id (\<lambda>d. d\<lparr>grammarReceiver := g'\<rparr>) (put sc on_message g bs d)"
  by (simp add: put_def put_loop_commute on_message_receiver)

lemma write_append:
  assumes "receiver_ok (grammarReceiver d)"
  shows "snd (duk_trans_dvalue_write sc (s @ t) d) =
    snd (duk_trans_dvalue_write sc t (snd (duk_trans_dvalue_write sc s d)))"
  using put_append [OF assms, of sc on_message s t d]
  by (simp add: duk_trans_dvalue_write_def case_prod_beta put_receiver Let_def)

lemma write_receiver_ok:
  "receiver_ok (grammarReceiver d) \<Longrightarrow>
    receiver_ok (grammarReceiver (snd (duk_trans_dvalue_write sc s d)))"
  using put_ok [of "grammarReceiver d" sc on_message s d]
  by (simp add: duk_trans_dvalue_write_def case_prod_beta)

section \<open>Invariants of the interleaving\<close>

definition debugger_ok :: "debugger \<Rightarrow> bool" where
  "debugger_ok d \<longleftrightarrow>
     receiver_ok (grammarReceiver d) \<and> map_ok (breakpointMap d) \<and>
     replyAddBreakpointReceiver (grammarReceiver d) \<and>
     (\<forall>r \<in> set (recognizerQueue (grammarReceiver d)). grammar r = GReplyInt \<longrightarrow> callback r)"

text \<open>Replies to \<open>AddBreakpoint\<close> that the receiver expects, and calls that have not yet asked for one.\<close>

definition awaiting :: "debugger \<Rightarrow> nat" where
  "awaiting d = length (filter (\<lambda>r. grammar r = GReplyInt) (recognizerQueue (grammarReceiver d)))"

fun is_creating :: "pending_code \<Rightarrow> bool" where
  "is_creating (AddCreate _ _) = True"
| "is_creating _ = False"

fun inflight :: "pending_code \<Rightarrow> breakpoint list" where
  "inflight (AddCreate f l) = [(f, l)]"
| "inflight (AddRefill f l _) = [(f, l)]"
| "inflight _ = []"

fun system_ok :: "system \<Rightarrow> bool" where
  "system_ok (d, w, ts) \<longleftrightarrow>
     debugger_ok d \<and>
     length (breakpointPendingList d) = awaiting d + length (filter is_creating ts)"

lemma filter_list_update:
  "i < length xs \<Longrightarrow>
    length (filter P (xs[i := y])) + (if P (xs ! i) then 1 else 0) =
    length (filter P xs) + (if P y then 1 else 0)"
proof (induction xs arbitrary: i)
  case (Cons x xs)
  then show ?case by (cases i) auto
qed simp

lemma put_round_receivers:
  "put_round sc g = Some (m, g') \<Longrightarrow> replyAddBreakpointReceiver g' = replyAddBreakpointReceiver g"
  by (auto simp: put_round_def split: option.splits list.splits)

lemma on_message_pending:
  "breakpointPendingList (on_message m d) =
    (if message_kind m = GReplyInt then tl (breakpointPendingList d) else breakpointPendingList d)"
  by (cases m) (auto simp: step_simps split: list.split)

lemma on_message_map_ok: "map_ok (breakpointMap d) \<Longrightarrow> map_ok (breakpointMap (on_message m d))"
  by (cases m) (auto simp: step_simps map_ok_put split: list.split)

lemma dispatch_pending:
  "breakpointPendingList (dispatch on_message m d) =
    (if map_option message_kind m = Some GReplyInt then tl (breakpointPendingList d)
     else breakpointPendingList d)"
  by (auto simp: dispatch_def on_message_pending split: option.split)

lemma dispatch_map_ok: "map_ok (breakpointMap d) \<Longrightarrow> map_ok (breakpointMap (dispatch on_message m d))"
  by (simp add: dispatch_def on_message_map_ok split: option.split)

lemma write_round_ok:
  assumes "debugger_ok d" and "write_round sc d = Some d'"
    and "length (breakpointPendingList d) = awaiting d + n"
  shows "debugger_ok d' \<and> length (breakpointPendingList d') = awaiting d' + n"
proof -
  from assms(2) obtain m g where round: "put_round sc (grammarReceiver d) = Some (m, g)"
    and d': "d' = (dispatch on_message m d)\<lparr>grammarReceiver := g\<rparr>"
    by (auto simp: write_round_def split: option.splits)
  have ok: "receiver_ok (grammarReceiver d)" using assms(1) by (simp add: debugger_ok_def)
  from round ok show ?thesis
  proof (cases rule: put_round_cases)
    case notification
    then have "map_option message_kind m \<noteq> Some GReplyInt" by (auto simp: default_kinds_def)
    with notification assms put_round_ok [OF ok round] put_round_receivers [OF round]
    show ?thesis
      by (auto simp: d' debugger_ok_def awaiting_def dispatch_pending dispatch_map_ok)
  next
    case (reply r)
    with assms(1) have "map_option message_kind m = Some GReplyInt \<longleftrightarrow> grammar r = GReplyInt"
      by (auto simp: debugger_ok_def)
    with reply assms put_round_ok [OF ok round] put_round_receivers [OF round]
    show ?thesis
      by (auto simp: d' debugger_ok_def awaiting_def dispatch_pending dispatch_map_ok)
  qed
qed

lemma write_round_assigned:
  assumes "write_round sc d = Some d'"
  shows "breakpointPendingList d = assigned d d' @ breakpointPendingList d'"
  using assms
  by (cases "breakpointPendingList d")
    (auto simp: write_round_def assigned_def dispatch_pending split: option.splits)

lemma debugger_ok_outputBuffer [simp]:
  "debugger_ok (d\<lparr>outputBuffer := b\<rparr>) = debugger_ok d" "awaiting (d\<lparr>outputBuffer := b\<rparr>) = awaiting d"
  by (simp_all add: debugger_ok_def awaiting_def)

lemma thread_step_ok:
  assumes "debugger_ok d" and "thread_step c d = (lab, c', d')"
  shows "debugger_ok d' \<and>
    length (breakpointPendingList d') + awaiting d + (if is_creating c then 1 else 0) =
    length (breakpointPendingList d) + awaiting d' + (if is_creating c' then 1 else 0)"
  using assms
proof (cases c)
  case (Simple r)
  then show ?thesis using assms
    by (cases r) (auto simp: step_simps debugger_ok_def awaiting_def reply_kinds_def)
next
  case (RemoveErase f l)
  then show ?thesis using assms
    by (auto simp: step_simps debugger_ok_def awaiting_def map_ok_erase split: option.splits if_splits)
qed (auto simp: step_simps debugger_ok_def awaiting_def reply_kinds_def
       split: option.splits if_splits)

lemma initial_code_creating: "initial_code c \<Longrightarrow> \<not> is_creating c \<and> inflight c = []"
  by (cases c) auto

lemma system_ok_step:
  assumes "client_step sc s lab s'" and "system_ok s"
  shows "system_ok s'"
  using assms
proof cases
  case (call i ts c d w)
  then show ?thesis using assms(2) filter_list_update [of i ts is_creating c]
    by (auto simp: initial_code_creating)
next
  case (user i ts d c d' w)
  then show ?thesis using assms(2) filter_list_update [of i ts is_creating c]
      thread_step_ok [of d "ts ! i" lab c d'] by (auto split: if_splits)
next
  case (js_round d d' ts)
  then show ?thesis using assms(2) write_round_ok by auto
qed (auto simp: duk_trans_dvalue_read_def innerSendData_def write_begin_def debugger_ok_def
       awaiting_def append_data_def receiver_ok_def split: if_splits)

lemma system_ok_initial: "system_ok (initial_system n)"
  by (simp add: initial_system_def DukDebugger_def debugger_ok_def awaiting_def
      InitDefaultRecognizers_def GrammarReceiver_def receiver_ok_def default_kinds_def)

lemma system_ok_run: "client_run sc s tr s' \<Longrightarrow> system_ok s \<Longrightarrow> system_ok s'"
  by (induction rule: client_run.induct) (auto dest: system_ok_step)

section \<open>Order of bytes and of breakpoints\<close>

lemma thread_step_buffer:
  "thread_step c d = (lab, c', d') \<Longrightarrow>
    outputBuffer d' = outputBuffer d @ refilled lab \<and> delivered lab = []"
  by (cases c) (auto simp: step_simps case_prod_beta split: option.splits if_splits)

lemma write_round_buffer: "write_round sc d = Some d' \<Longrightarrow> outputBuffer d' = outputBuffer d"
proof -
  have "outputBuffer (on_message m d) = outputBuffer d" for m d
    by (cases m) (auto simp: step_simps split: list.split)
  then show "write_round sc d = Some d' \<Longrightarrow> outputBuffer d' = outputBuffer d"
    by (auto simp: write_round_def dispatch_def split: option.splits)
qed

lemma client_step_buffer:
  assumes "client_step sc s lab s'"
  shows "delivered lab @ outputBuffer (fst s') = outputBuffer (fst s) @ refilled lab"
  using assms
  by cases (auto simp: thread_step_buffer write_round_buffer duk_trans_dvalue_read_def
      innerSendData_def write_begin_def split: if_splits)

lemma client_run_buffer:
  "client_run sc s tr s' \<Longrightarrow>
    concat (map delivered tr) @ outputBuffer (fst s') =
    outputBuffer (fst s) @ concat (map refilled tr)"
proof (induction rule: client_run.induct)
  case (run_snoc s tr s' lab s'')
  then show ?case using client_step_buffer [OF run_snoc.hyps(2)]
    by (simp flip: append_assoc) (metis append.assoc)
qed simp

text \<open>
  With one user thread, what has been attributed, followed by what is pending, is what has been
  requested, followed by the breakpoint of the call in progress.
\<close>

lemma thread_step_pending:
  assumes "thread_step c d = (lab, c', d')" and "attr @ breakpointPendingList d = req @ inflight c"
  shows "attr @ breakpointPendingList d' = req @ requested lab @ inflight c' \<and> attributed lab = []"
proof (cases c)
  case (Simple r)
  then show ?thesis using assms by (auto simp: create_def case_prod_beta)
qed (use assms in \<open>auto simp: step_simps split: option.splits if_splits\<close>)

lemma client_step_pending:
  assumes "client_step sc (d, w, [c]) lab s'"
    and "attr @ breakpointPendingList d = req @ inflight c"
  shows "\<exists>d' w' c'. s' = (d', w', [c']) \<and>
    (attr @ attributed lab) @ breakpointPendingList d' = (req @ requested lab) @ inflight c'"
  using assms(1)
proof cases
  case (call i c')
  then show ?thesis using assms(2) by (auto simp: initial_code_creating)
next
  case (user i c' d')
  then show ?thesis using assms(2) thread_step_pending [of c d lab c' d' attr req] by auto
next
  case (js_round d')
  then show ?thesis using assms(2) write_round_assigned [of sc d d'] by auto
qed (use assms(2) in \<open>auto simp: duk_trans_dvalue_read_def innerSendData_def write_begin_def
       split: if_splits\<close>)

lemma client_run_pending:
  "client_run sc s tr s' \<Longrightarrow> s = (DukDebugger, False, [Idle]) \<Longrightarrow>
    \<exists>d w c. s' = (d, w, [c]) \<and>
      concat (map attributed tr) @ breakpointPendingList d = concat (map requested tr) @ inflight c"
proof (induction rule: client_run.induct)
  case (run_Nil s)
  then show ?case by (auto simp: DukDebugger_def)
next
  case (run_snoc s tr s' lab s'')
  then obtain d w c where "s' = (d, w, [c])"
    "concat (map attributed tr) @ breakpointPendingList d = concat (map requested tr) @ inflight c"
    by blast
  then show ?case using client_step_pending [of sc d w c lab s''] run_snoc.hyps(2) by simp
qed

section \<open>The sequential operations are runs\<close>

lemma run_step: "client_step sc s lab s' \<Longrightarrow> client_run sc s [lab] s'"
  using run_snoc [OF run_Nil] by fastforce

lemma run_trans: "client_run sc s' tr' s'' \<Longrightarrow> client_run sc s tr s' \<Longrightarrow> client_run sc s (tr @ tr') s''"
  by (induction rule: client_run.induct) (auto simp: append_assoc [symmetric] intro: run_snoc simp del: append_assoc)

definition reaches :: "bool \<Rightarrow> system \<Rightarrow> system \<Rightarrow> bool" where
  "reaches sc s s' \<longleftrightarrow> (\<exists>tr. client_run sc s tr s')"

lemma reaches_refl: "reaches sc s s"
  unfolding reaches_def using run_Nil by blast

lemma reaches_step: "client_step sc s lab s' \<Longrightarrow> reaches sc s' s'' \<Longrightarrow> reaches sc s s''"
  unfolding reaches_def using run_step run_trans by blast

text \<open>A thread that runs its code with no other step in between.\<close>

fun run_code :: "nat \<Rightarrow> pending_code \<Rightarrow> debugger \<Rightarrow> pending_code \<times> debugger" where
  "run_code 0 c d = (c, d)"
| "run_code (Suc n) c d =
     (if c = Idle then (c, d) else case thread_step c d of (lab, c', d') \<Rightarrow> run_code n c' d')"

lemma reaches_run_code:
  "run_code n c d = (Idle, d') \<Longrightarrow> i < length ts \<Longrightarrow> ts ! i = c \<Longrightarrow>
    reaches sc (d, w, ts) (d', w, ts[i := Idle])"
proof (induction n c d arbitrary: ts rule: run_code.induct)
  case (1 c d)
  then show ?case using reaches_refl by (metis Pair_inject list_update_id run_code.simps(1))
next
  case (2 n c d)
  show ?case
  proof (cases "c = Idle")
    case True
    then show ?thesis using "2.prems" reaches_refl
      by (metis Pair_inject list_update_id run_code.simps(2))
  next
    case False
    obtain lab c' d1 where st: "thread_step c d = (lab, c', d1)" by (metis prod_cases3)
    with False "2.prems" have "client_step sc (d, w, ts) lab (d1, w, ts[i := c'])"
      by (intro user) auto
    moreover have "reaches sc (d1, w, ts[i := c']) (d', w, ts[i := c', i := Idle])"
      using False st "2.prems" by (intro "2.IH") auto
    ultimately show ?thesis by (auto intro: reaches_step)
  qed
qed

lemma reaches_call:
  assumes "initial_code c" and "run_code 3 c d = (Idle, d')" and "i < length ts" and "ts ! i = Idle"
  shows "reaches sc (d, w, ts) (d', w, ts)"
proof -
  have "ts[i := Idle] = ts" using assms(4) by (metis list_update_id)
  then show ?thesis
    using reaches_step [OF call [OF assms(3,4,1)] reaches_run_code [OF assms(2), of i "ts[i := c]"]]
      assms(3) by simp
qed

lemma run_code_calls:
  "run_code 3 (AddPending f l) d = (Idle, AddBreakpoint f l d)"
  "run_code 3 (RemoveErase f l) d = (Idle, RemoveBreakpoint f l d)"
  "run_code 3 (Simple r) d = (Idle, send (create_simple r) d)"
  by (simp_all add: AddBreakpoint_def RemoveBreakpoint_def send_def numeral_3_eq_3 case_prod_beta
      Let_def split: option.split)

lemma reaches_put_loop:
  "put_loop sc cb g d = (g', d') \<Longrightarrow> cb = on_message \<Longrightarrow>
    reaches sc (d\<lparr>grammarReceiver := g\<rparr>, True, ts) (d'\<lparr>grammarReceiver := g'\<rparr>, False, ts)"
proof (induction sc cb g d arbitrary: g' d' rule: put_loop.induct)
  case (1 sc cb g d)
  show ?case
  proof (cases "put_round sc g")
    case None
    then have "write_round sc (d\<lparr>grammarReceiver := g\<rparr>) = None" by (simp add: write_round_def)
    then show ?thesis using None "1.prems"
      by (subst (asm) put_loop.simps) (auto intro: reaches_step [OF js_return] reaches_refl)
  next
    case (Some x)
    then obtain m g1 where m: "put_round sc g = Some (m, g1)" by (cases x) auto
    have upd: "dispatch on_message m (d\<lparr>grammarReceiver := g\<rparr>) =
        (dispatch on_message m d)\<lparr>grammarReceiver := g\<rparr>"
      by (simp add: dispatch_def on_message_receiver split: option.split)
    have "write_round sc (d\<lparr>grammarReceiver := g\<rparr>) =
        Some ((dispatch on_message m d)\<lparr>grammarReceiver := g1\<rparr>)"
      using m by (simp add: write_round_def upd)
    then show ?thesis using m "1.prems" "1.IH" [OF m refl]
      by (subst (asm) put_loop.simps) (auto intro: reaches_step [OF js_round])
  qed
qed

lemma reaches_write:
  "reaches sc (d, False, ts) (snd (duk_trans_dvalue_write sc bs d), False, ts)"
proof -
  obtain g d' where p: "put sc on_message (grammarReceiver d) bs d = (g, d')" by fastforce
  have "reaches sc (write_begin bs d, True, ts) (d'\<lparr>grammarReceiver := g\<rparr>, False, ts)"
    using reaches_put_loop [OF p [unfolded put_def] refl] by (simp add: write_begin_def)
  then show ?thesis using p
    by (auto simp: duk_trans_dvalue_write_def intro: reaches_step [OF js_write])
qed

section \<open>Schedules\<close>

text \<open>The step relation as a function of the step that the scheduler picks.\<close>

datatype action =
    Call nat pending_code
  | User nat
  | Read nat
  | Write bytes
  | NextRound
  | Return

fun client_exec :: "bool \<Rightarrow> action \<Rightarrow> system \<Rightarrow> (label \<times> system) option" where
  "client_exec sc (Call i c) (d, w, ts) =
     (if i < length ts \<and> ts ! i = Idle \<and> initial_code c then Some (Internal, (d, w, ts[i := c]))
      else None)"
| "client_exec sc (User i) (d, w, ts) =
     (if i < length ts \<and> ts ! i \<noteq> Idle
      then case thread_step (ts ! i) d of (lab, c, d') \<Rightarrow> Some (lab, (d', w, ts[i := c]))
      else None)"
| "client_exec sc (Read n) (d, w, ts) =
     (if w then None
      else case duk_trans_dvalue_read n d of
        None \<Rightarrow> None | Some (buffer, d') \<Rightarrow> Some (Delivered buffer, (d', w, ts)))"
| "client_exec sc (Write buffer) (d, w, ts) =
     (if w then None else Some (Written buffer, (write_begin buffer d, True, ts)))"
| "client_exec sc NextRound (d, w, ts) =
     (if \<not> w then None
      else case write_round sc d of
        None \<Rightarrow> None | Some d' \<Rightarrow> Some (Round (assigned d d'), (d', w, ts)))"
| "client_exec sc Return (d, w, ts) =
     (if w \<and> write_round sc d = None then Some (Internal, (d, False, ts)) else None)"

fun schedule :: "bool \<Rightarrow> action list \<Rightarrow> system \<Rightarrow> (label list \<times> system) option" where
  "schedule sc [] s = Some ([], s)"
| "schedule sc (a # as) s =
     (case client_exec sc a s of
        None \<Rightarrow> None
      | Some (lab, s') \<Rightarrow>
          (case schedule sc as s' of None \<Rightarrow> None | Some (tr, s'') \<Rightarrow> Some (lab # tr, s'')))"

lemma client_exec_step: "client_exec sc a s = Some (lab, s') \<Longrightarrow> client_step sc s lab s'"
  by (cases "(sc, a, s)" rule: client_exec.cases)
    (auto split: if_splits option.splits prod.splits intro: client_step.intros)

lemma schedule_run: "schedule sc as s = Some (tr, s') \<Longrightarrow> client_run sc s tr s'"
proof (induction as arbitrary: s tr)
  case (Cons a as)
  then obtain lab s1 tr' where "client_exec sc a s = Some (lab, s1)"
    "schedule sc as s1 = Some (tr', s')" and tr: "tr = lab # tr'"
    by (auto split: option.splits)
  then have "client_run sc s ([lab] @ tr') s'"
    using Cons.IH client_exec_step run_step run_trans by blast
  then show ?case by (simp add: tr)
qed (simp add: run_Nil)

text \<open>One breakpoint that is requested, read by Duktape and confirmed as number 0.\<close>

definition confirm :: "action list" where
  "confirm = [Call 0 (AddPending (str ''a'') 3), User 0, User 0, User 0, Read 4, Read 4,
     Write [0x02, 0x80], Return, Write [0x00], NextRound, Return]"

definition two_threads :: "action list" where
  "two_threads = [Call 0 (AddPending (str ''a'') 1), User 0, Call 1 (AddPending (str ''b'') 2), User 1,
     User 1, User 1, User 0, User 0, Read 100, Write [0x02, 0x80, 0x00], NextRound, Return]"

definition outcome :: "(label list \<times> system) option \<Rightarrow> (breakpoint list \<times> breakpoint list \<times>
    (int, breakpoint) std_map \<times> pending_code list) option" where
  "outcome r = map_option (\<lambda>(tr, d, w, ts). (concat (map requested tr), concat (map attributed tr),
     breakpointMap d, ts)) r"

lemma confirm_outcome:
  "outcome (schedule True confirm (initial_system 1)) =
    Some ([(str ''a'', 3)], [(str ''a'', 3)], [(0, (str ''a'', 3))], [Idle])"
  by code_simp

lemma two_threads_signed:
  "outcome (schedule True two_threads (initial_system 2)) =
    Some ([(str ''b'', 2), (str ''a'', 1)], [(str ''a'', 1)], [(0, (str ''a'', 1))], [Idle, Idle])"
  by code_simp

lemma two_threads_unsigned:
  "outcome (schedule False two_threads (initial_system 2)) =
    Some ([(str ''b'', 2), (str ''a'', 1)], [(str ''a'', 1)], [(0, (str ''a'', 1))], [Idle, Idle])"
  by code_simp

lemma two_threads_outcome:
  "outcome (schedule sc two_threads (initial_system 2)) =
    Some ([(str ''b'', 2), (str ''a'', 1)], [(str ''a'', 1)], [(0, (str ''a'', 1))], [Idle, Idle])"
  using two_threads_signed two_threads_unsigned by (metis (full_types))

lemma outcome_run:
  assumes "outcome (schedule sc as s) = Some (req, attr, m, ts)"
  shows "\<exists>tr d w. client_run sc s tr (d, w, ts) \<and> concat (map requested tr) = req \<and>
    concat (map attributed tr) = attr \<and> breakpointMap d = m"
  using assms schedule_run [of sc as s] by (fastforce simp: outcome_def)

section \<open>Properties of the client\<close>

text \<open>
  C5: The requests reach Duktape as one FIFO stream. In every interleaving of any number of user
  threads with the JS thread, the bytes delivered by the reads so far, followed by the bytes still in
  \<open>outputBuffer\<close>, are the bytes that were refilled, in the order of the refills.
\<close>

theorem requests_fifo:
  assumes "client_run sc (initial_system n) tr (d, w, ts)"
  shows "concat (map delivered tr) @ outputBuffer d = concat (map refilled tr)"
  using client_run_buffer [OF assms] by (simp add: initial_system_def DukDebugger_def)

definition confirm_run :: "label list \<times> system" where
  "confirm_run = the (schedule True confirm (initial_system 1))"

lemma confirm_run: "client_run True (initial_system 1) (fst confirm_run)
    (fst (snd confirm_run), fst (snd (snd confirm_run)), [Idle])"
  using confirm_outcome schedule_run [of True confirm "initial_system 1"]
  by (fastforce simp: outcome_def confirm_run_def)

theorem requests_fifo_witness:
  "client_run True (initial_system 1) (fst confirm_run)
     (fst (snd confirm_run), fst (snd (snd confirm_run)), [Idle]) \<and>
   concat (map delivered (fst confirm_run)) @ outputBuffer (fst (snd confirm_run)) =
     concat (map refilled (fst confirm_run))"
  using confirm_run requests_fifo [OF confirm_run] by blast

text \<open>
  C6: In every interleaving, the breakpoints that wait for their id are as many as the replies the
  receiver still expects, plus the calls of \<open>AddBreakpoint\<close> that have not queued their recognizer
  yet; so \<open>onAddBreakpoint\<close> never finds its list empty when such a reply is taken.
  The table of breakpoints stays ordered, with no id twice.
\<close>

theorem pending_matches_expected:
  assumes "client_run sc (initial_system n) tr (d, w, ts)"
  shows "length (breakpointPendingList d) = awaiting d + length (filter is_creating ts) \<and>
    distinct (map fst (breakpointMap d))"
  using system_ok_run [OF assms system_ok_initial] by (simp add: debugger_ok_def map_ok_distinct)

theorem pending_matches_expected_witness:
  "client_run True (initial_system 1) (fst confirm_run)
     (fst (snd confirm_run), fst (snd (snd confirm_run)), [Idle]) \<and>
   length (breakpointPendingList (fst (snd confirm_run))) = awaiting (fst (snd confirm_run))"
  using confirm_run pending_matches_expected [OF confirm_run] by simp






text \<open>
  Adding a breakpoint, getting its id and adding it again sends nothing the second time, and
  removing it then sends the removal of exactly that id and forgets the breakpoint.
\<close>

theorem breakpoint_lifecycle:
  assumes "debugger_ok d" and "breakpointPendingList d = []" and "find_breakpoint f l d = None"
    and "map_find (breakpointMap d) bpId = None" and "bpId \<noteq> -1"
    and "d1 = onAddBreakpoint bpId (AddBreakpoint f l d)"
  shows "outputBuffer d1 = outputBuffer d @ fst (CreateAddBreakpointRequest f l (grammarReceiver d)) \<and>
    AddBreakpoint f l d1 = d1 \<and>
    outputBuffer (RemoveBreakpoint f l d1) =
      outputBuffer d1 @ fst (CreateRemoveBreakpointRequest bpId (grammarReceiver d1)) \<and>
    (\<forall>k. map_find (breakpointMap (RemoveBreakpoint f l d1)) k = map_find (breakpointMap d) k)"
proof -
  have bm: "breakpointMap d1 = map_put bpId (f, l) (breakpointMap d)"
    and out: "outputBuffer d1 = outputBuffer d @ fst (CreateAddBreakpointRequest f l (grammarReceiver d))"
    using assms by (simp_all add: step_simps)
  have ok: "map_ok (breakpointMap d)" using assms(1) by (simp add: debugger_ok_def)
  have none: "map_find (breakpointMap d) k \<noteq> Some (f, l)" for k
    using assms(3) std_map.find_None_iff_lookup [OF ok, of "\<lambda>v. fst v = f \<and> snd v = l"]
    by (fastforce simp: find_breakpoint_def)
  have "map_find (breakpointMap d1) bpId = Some (f, l)" by (simp add: bm)
  then have "(bpId, (f, l)) \<in> set (breakpointMap d1)"
    using std_map.entries_lookup [OF map_ok_put [OF ok]] by (simp add: bm)
  then have "find_breakpoint f l d1 \<noteq> None"
    unfolding find_breakpoint_def find_None_iff by force
  then obtain k v where found: "find_breakpoint f l d1 = Some (k, v)" by auto
  have "map_find (breakpointMap d1) k = Some v \<and> (fst v = f \<and> snd v = l)"
    by (rule std_map.find_Some_lookup)
      (use found in \<open>simp_all add: find_breakpoint_def bm map_ok_put [OF ok]\<close>)
  then have "map_find (breakpointMap d1) k = Some (f, l)" by (cases v) simp
  then have "k = bpId" using none [of k] by (simp add: bm split: if_splits)
  with found have again: "AddBreakpoint f l d1 = d1"
    and removed: "RemoveBreakpoint f l d1 =
      send (CreateRemoveBreakpointRequest bpId) (d1\<lparr>breakpointMap := map_erase bpId (breakpointMap d1)\<rparr>)"
    using assms(5) by (simp_all add: AddBreakpoint_def AddBreakpoint_pending_def
        RemoveBreakpoint_def RemoveBreakpoint_erase_def)
  show ?thesis unfolding again removed
    using out assms(4) by (simp add: send_def create_def RefillDataToSend_def bm
        CreateRemoveBreakpointRequest_def)
qed

theorem breakpoint_lifecycle_witness:
  "outputBuffer (RemoveBreakpoint (str ''a'') 3
     (onAddBreakpoint 5 (AddBreakpoint (str ''a'') 3 DukDebugger))) =
   [0x01, 0x98, 0x61, 0x61, 0x83, 0x00, 0x01, 0x99, 0x85, 0x00]"
  using breakpoint_lifecycle [of DukDebugger "str ''a''" 3 5
      "onAddBreakpoint 5 (AddBreakpoint (str ''a'') 3 DukDebugger)"] system_ok_initial [of 0]
  by (simp add: initial_system_def find_breakpoint_def map_find_def DukDebugger_def step_simps
      wire_simps encode_fileName_def encode_int_def)

end
