(* ===== verification/Duk_Debug_Io.thy ===== *)
theory Duk_Debug_Io
  imports Unify_Prelude "HOL-Library.Monad_Syntax"
begin

text \<open>
  The connection primitives of Duktape's built-in debugger
  (\<^verbatim>\<open>src/unifyframework/duktape1.4.0/duk_debugger.c\<close>): reading and writing bytes, integers, strings
  and tagged values through the transport callbacks, and giving up a broken connection.

  The transport is a record of the callbacks given to \<open>duk_debugger_attach\<close>, acting on a state \<open>'t\<close>
  of its own. A computation of type \<open>'a option\<close> that is \<open>None\<close> waits in the read callback and
  does not return. The two flush callbacks are \<open>nullptr\<close> in this program
  (\<open>DukDebugger::Attach\<close>), so \<open>duk_debug_read_flush\<close> and \<open>duk_debug_write_flush\<close> do nothing.
\<close>

unbundle bit_operations_syntax

section \<open>State\<close>

record 't transport =
  read_cb :: "nat \<Rightarrow> 't \<Rightarrow> (bytes \<times> 't) option"
  write_cb :: "bytes \<Rightarrow> 't \<Rightarrow> nat \<times> 't"
  peek_cb :: "'t \<Rightarrow> nat"
  detached_cb :: "'t \<Rightarrow> 't"

text \<open>
  The debugger fields of \<open>duk_heap\<close>. A callback field is whether the pointer is not \<open>NULL\<close>;
  \<open>dbg_breakpoints\<close> is the used part of the array, so \<open>dbg_breakpoint_count\<close> is its length.
\<close>

record duk_heap =
  dbg_read_cb :: bool
  dbg_write_cb :: bool
  dbg_peek_cb :: bool
  dbg_detached_cb :: bool
  dbg_detaching :: bool
  dbg_processing :: bool
  dbg_paused :: bool
  dbg_state_dirty :: bool
  dbg_force_restart :: bool
  dbg_step_type :: nat
  dbg_step_thread :: bool
  dbg_step_csindex :: nat
  dbg_step_startline :: nat
  dbg_have_next_byte :: bool
  dbg_next_byte :: byte
  dbg_breakpoints :: "(bytes \<times> u32) list"
  dbg_breakpoints_active :: "(bytes \<times> u32) list"

type_synonym 't dbg = "duk_heap \<times> 't"

definition DUK_DBG_MARKER_EOM :: byte where [wire_simps]: "DUK_DBG_MARKER_EOM = 0x00"
definition DUK_DBG_MARKER_REQUEST :: byte where [wire_simps]: "DUK_DBG_MARKER_REQUEST = 0x01"
definition DUK_DBG_MARKER_REPLY :: byte where [wire_simps]: "DUK_DBG_MARKER_REPLY = 0x02"
definition DUK_DBG_MARKER_ERROR :: byte where [wire_simps]: "DUK_DBG_MARKER_ERROR = 0x03"
definition DUK_DBG_MARKER_NOTIFY :: byte where [wire_simps]: "DUK_DBG_MARKER_NOTIFY = 0x04"

definition DUK_DBG_CMD_STATUS :: u32 where [wire_simps]: "DUK_DBG_CMD_STATUS = 0x01"
definition DUK_DBG_CMD_THROW :: u32 where [wire_simps]: "DUK_DBG_CMD_THROW = 0x05"
definition DUK_DBG_CMD_DETACHING :: u32 where [wire_simps]: "DUK_DBG_CMD_DETACHING = 0x06"

section \<open>Encoding of values\<close>

text \<open>The bytes \<open>buf\<close> that \<open>duk_debug_write_int\<close> prepares for a signed 32-bit integer.\<close>

definition int_bytes :: "u32 \<Rightarrow> bytes" where
  "int_bytes x =
     (if 0 \<le> sint x \<and> sint x \<le> 0x3f then [0x80 + ucast x]
      else if 0 \<le> sint x \<and> sint x \<le> 0x3fff
      then [0xc0 + ucast (drop_bit 8 x), ucast (x AND 0xff)]
      else [0x10, ucast (drop_bit 24 x AND 0xff), ucast (drop_bit 16 x AND 0xff),
            ucast (drop_bit 8 x AND 0xff), ucast (x AND 0xff)])"

text \<open>The length prefix of \<open>duk_debug_write_strbuf\<close>.\<close>

definition strbuf_header :: "nat \<Rightarrow> byte \<Rightarrow> bytes" where
  "strbuf_header len marker_base =
     (if len \<le> 0x1f \<and> marker_base = 0x11 then [0x60 + of_nat len]
      else if len \<le> 0xffff
      then [marker_base + 1, of_nat (len div 256), of_nat (len mod 256)]
      else [marker_base, of_nat (len div 2 ^ 24), of_nat (len div 2 ^ 16 mod 256),
            of_nat (len div 2 ^ 8 mod 256), of_nat (len mod 256)])"

section \<open>Writing\<close>

text \<open>
  Writing and detaching call each other: a failed write detaches, and detaching first writes a
  notification. \<open>dbg_detaching\<close> is set before that, so a write that fails there finds the
  detach already under way and \<open>duk__debug_do_detach1\<close> returns at once. The write primitives
  take what a failure does as the argument \<open>broken\<close>.
\<close>

function write_loop ::
  "'t transport \<Rightarrow> ('t dbg \<Rightarrow> 't dbg) \<Rightarrow> bytes \<Rightarrow> 't dbg \<Rightarrow> 't dbg" where
  "write_loop T broken data (h, t) =
     (if data = [] then (h, t)
      else let (got, t') = write_cb T data t
           in if got = 0 \<or> got > length data then broken (h\<lparr>dbg_write_cb := False\<rparr>, t')
              else write_loop T broken (drop got data) (h, t'))"
  by pat_completeness auto
termination
  by (relation "measure (\<lambda>(T, broken, data, s). length data)") auto

declare write_loop.simps [simp del]

definition raw_write_bytes ::
  "'t transport \<Rightarrow> ('t dbg \<Rightarrow> 't dbg) \<Rightarrow> bytes \<Rightarrow> 't dbg \<Rightarrow> 't dbg" where
  "raw_write_bytes T broken data s =
     (if \<not> dbg_write_cb (fst s) then s
      else if length data = 0 then s
      else write_loop T broken data s)"

definition raw_write_byte ::
  "'t transport \<Rightarrow> ('t dbg \<Rightarrow> 't dbg) \<Rightarrow> byte \<Rightarrow> 't dbg \<Rightarrow> 't dbg" where
  "raw_write_byte T broken x s =
     (case s of (h, t) \<Rightarrow>
        if \<not> dbg_write_cb h then s
        else let (got, t') = write_cb T [x] t
             in if got \<noteq> 1 then broken (h, t') else (h, t'))"

definition raw_write_notify ::
  "'t transport \<Rightarrow> ('t dbg \<Rightarrow> 't dbg) \<Rightarrow> u32 \<Rightarrow> 't dbg \<Rightarrow> 't dbg" where
  "raw_write_notify T broken command s =
     raw_write_bytes T broken (int_bytes command)
       (raw_write_byte T broken DUK_DBG_MARKER_NOTIFY s)"

definition duk__debug_do_detach1 :: "'t transport \<Rightarrow> u32 \<Rightarrow> 't dbg \<Rightarrow> 't dbg" where
  "duk__debug_do_detach1 T reason s =
     (if dbg_detaching (fst s) then s
      else
        let s1 = apfst (\<lambda>h. h\<lparr>dbg_detaching := True\<rparr>) s;
            s2 = (if dbg_write_cb (fst s1)
                  then raw_write_byte T id DUK_DBG_MARKER_EOM
                         (raw_write_bytes T id (int_bytes reason)
                            (raw_write_notify T id DUK_DBG_CMD_DETACHING s1))
                  else s1)
        in apfst (\<lambda>h. h\<lparr>dbg_read_cb := False, dbg_write_cb := False, dbg_peek_cb := False,
             dbg_processing := False, dbg_paused := False, dbg_state_dirty := False,
             dbg_force_restart := False, dbg_step_type := 0, dbg_step_thread := False,
             dbg_step_csindex := 0, dbg_step_startline := 0, dbg_have_next_byte := False,
             dbg_breakpoints_active := []\<rparr>) s2)"

definition duk__debug_do_detach2 :: "'t transport \<Rightarrow> 't dbg \<Rightarrow> 't dbg" where
  "duk__debug_do_detach2 T s =
     (case s of (h, t) \<Rightarrow>
        (h\<lparr>dbg_detached_cb := False, dbg_detaching := False\<rparr>,
         if dbg_detached_cb h then detached_cb T t else t))"

definition duk_debug_do_detach :: "'t transport \<Rightarrow> 't dbg \<Rightarrow> 't dbg" where
  "duk_debug_do_detach T s = duk__debug_do_detach2 T (duk__debug_do_detach1 T 0 s)"

definition set_conn_broken :: "'t transport \<Rightarrow> 't dbg \<Rightarrow> 't dbg" where
  "set_conn_broken T s = duk__debug_do_detach1 T 1 s"

definition duk_debug_write_bytes :: "'t transport \<Rightarrow> bytes \<Rightarrow> 't dbg \<Rightarrow> 't dbg" where
  "duk_debug_write_bytes T data s = raw_write_bytes T (set_conn_broken T) data s"

definition duk_debug_write_byte :: "'t transport \<Rightarrow> byte \<Rightarrow> 't dbg \<Rightarrow> 't dbg" where
  "duk_debug_write_byte T x s = raw_write_byte T (set_conn_broken T) x s"

definition duk_debug_write_unused :: "'t transport \<Rightarrow> 't dbg \<Rightarrow> 't dbg" where
  "duk_debug_write_unused T s = duk_debug_write_byte T 0x15 s"

definition duk_debug_write_undefined :: "'t transport \<Rightarrow> 't dbg \<Rightarrow> 't dbg" where
  "duk_debug_write_undefined T s = duk_debug_write_byte T 0x16 s"

definition duk_debug_write_int :: "'t transport \<Rightarrow> u32 \<Rightarrow> 't dbg \<Rightarrow> 't dbg" where
  "duk_debug_write_int T x s = duk_debug_write_bytes T (int_bytes x) s"

definition duk_debug_write_uint :: "'t transport \<Rightarrow> u32 \<Rightarrow> 't dbg \<Rightarrow> 't dbg" where
  "duk_debug_write_uint T x s = duk_debug_write_int T x s"

definition duk_debug_write_strbuf :: "'t transport \<Rightarrow> bytes \<Rightarrow> byte \<Rightarrow> 't dbg \<Rightarrow> 't dbg" where
  "duk_debug_write_strbuf T data marker_base s =
     duk_debug_write_bytes T data
       (duk_debug_write_bytes T (strbuf_header (length data) marker_base) s)"

definition duk_debug_write_string :: "'t transport \<Rightarrow> bytes \<Rightarrow> 't dbg \<Rightarrow> 't dbg" where
  "duk_debug_write_string T data s = duk_debug_write_strbuf T data 0x11 s"

definition duk_debug_write_cstring :: "'t transport \<Rightarrow> bytes option \<Rightarrow> 't dbg \<Rightarrow> 't dbg" where
  "duk_debug_write_cstring T data s =
     duk_debug_write_string T (case data of None \<Rightarrow> [] | Some cs \<Rightarrow> cs) s"

definition duk_debug_write_hstring :: "'t transport \<Rightarrow> bytes option \<Rightarrow> 't dbg \<Rightarrow> 't dbg" where
  "duk_debug_write_hstring T h s =
     duk_debug_write_string T (case h of None \<Rightarrow> [] | Some data \<Rightarrow> data) s"

definition duk_debug_write_hbuffer :: "'t transport \<Rightarrow> bytes \<Rightarrow> 't dbg \<Rightarrow> 't dbg" where
  "duk_debug_write_hbuffer T data s = duk_debug_write_strbuf T data 0x13 s"

text \<open>
  A pointer is the list of its bytes, most significant first, as it is after
  \<open>duk_byteswap_bytes\<close>; a light function pointer is written without the swap, so it is the
  bytes as they are in memory.
\<close>

datatype duk_tval =
    TAG_UNDEFINED
  | TAG_UNUSED
  | TAG_NULL
  | TAG_BOOLEAN bool
  | TAG_POINTER bytes
  | TAG_LIGHTFUNC u16 bytes
  | TAG_STRING bytes
  | TAG_OBJECT byte bytes
  | TAG_BUFFER bytes
  | TAG_NUMBER u64

definition duk__debug_write_pointer_raw :: "'t transport \<Rightarrow> bytes \<Rightarrow> byte \<Rightarrow> 't dbg \<Rightarrow> 't dbg" where
  "duk__debug_write_pointer_raw T ptr ibyte s =
     duk_debug_write_bytes T ptr (duk_debug_write_bytes T [ibyte, of_nat (length ptr)] s)"

definition duk_debug_write_hobject :: "'t transport \<Rightarrow> byte \<Rightarrow> bytes \<Rightarrow> 't dbg \<Rightarrow> 't dbg" where
  "duk_debug_write_hobject T class_number obj s =
     duk_debug_write_bytes T obj
       (duk_debug_write_bytes T [0x1b, class_number, of_nat (length obj)] s)"

definition double_bytes :: "u64 \<Rightarrow> bytes" where
  "double_bytes d = map (\<lambda>i. ucast (drop_bit (8 * (7 - i)) d)) [0..<8]"

fun duk_debug_write_tval :: "'t transport \<Rightarrow> duk_tval \<Rightarrow> 't dbg \<Rightarrow> 't dbg" where
  "duk_debug_write_tval T TAG_UNDEFINED s = duk_debug_write_byte T 0x16 s"
| "duk_debug_write_tval T TAG_UNUSED s = duk_debug_write_byte T 0x15 s"
| "duk_debug_write_tval T TAG_NULL s = duk_debug_write_byte T 0x17 s"
| "duk_debug_write_tval T (TAG_BOOLEAN b) s = duk_debug_write_byte T (if b then 0x18 else 0x19) s"
| "duk_debug_write_tval T (TAG_POINTER p) s = duk__debug_write_pointer_raw T p 0x1c s"
| "duk_debug_write_tval T (TAG_LIGHTFUNC lf_flags lf_func) s =
     duk_debug_write_bytes T lf_func
       (duk_debug_write_bytes T
          [0x1d, ucast (drop_bit 8 lf_flags), ucast (lf_flags AND 0xff), of_nat (length lf_func)] s)"
| "duk_debug_write_tval T (TAG_STRING cs) s = duk_debug_write_hstring T (Some cs) s"
| "duk_debug_write_tval T (TAG_OBJECT class_number obj) s = duk_debug_write_hobject T class_number obj s"
| "duk_debug_write_tval T (TAG_BUFFER data) s = duk_debug_write_hbuffer T data s"
| "duk_debug_write_tval T (TAG_NUMBER d) s =
     duk_debug_write_bytes T (double_bytes d) (duk_debug_write_byte T 0x1a s)"

definition duk_debug_write_reply :: "'t transport \<Rightarrow> 't dbg \<Rightarrow> 't dbg" where
  "duk_debug_write_reply T s = duk_debug_write_byte T DUK_DBG_MARKER_REPLY s"

definition duk_debug_write_eom :: "'t transport \<Rightarrow> 't dbg \<Rightarrow> 't dbg" where
  "duk_debug_write_eom T s = duk_debug_write_byte T DUK_DBG_MARKER_EOM s"

definition duk_debug_write_error_eom ::
  "'t transport \<Rightarrow> u32 \<Rightarrow> bytes option \<Rightarrow> 't dbg \<Rightarrow> 't dbg" where
  "duk_debug_write_error_eom T err_code msg s =
     duk_debug_write_eom T
       (duk_debug_write_cstring T msg
          (duk_debug_write_int T err_code (duk_debug_write_byte T DUK_DBG_MARKER_ERROR s)))"

definition duk_debug_write_notify :: "'t transport \<Rightarrow> u32 \<Rightarrow> 't dbg \<Rightarrow> 't dbg" where
  "duk_debug_write_notify T command s =
     duk_debug_write_int T command (duk_debug_write_byte T DUK_DBG_MARKER_NOTIFY s)"

section \<open>Reading\<close>

text \<open>
  The loop of \<open>duk_debug_read_bytes\<close>; \<open>acc\<close> is what is already in \<open>data\<close>, and the result
  \<open>None\<close> inside the pair is \<open>goto fail\<close>.
\<close>

function read_loop :: "'t transport \<Rightarrow> nat \<Rightarrow> bytes \<Rightarrow> 't dbg \<Rightarrow> (bytes option \<times> 't dbg) option" where
  "read_loop T left acc (h, t) =
     (if left = 0 then Some (Some acc, (h, t))
      else case read_cb T left t of
        None \<Rightarrow> None
      | Some (bs, t') \<Rightarrow>
          (if length bs = 0 \<or> length bs > left
           then Some (None, set_conn_broken T (h\<lparr>dbg_write_cb := False\<rparr>, t'))
           else read_loop T (left - length bs) (acc @ bs) (h, t')))"
  by pat_completeness auto
termination
  by (relation "measure (\<lambda>(T, left, acc, s). left)") auto

declare read_loop.simps [simp del]

definition duk_debug_read_bytes :: "'t transport \<Rightarrow> nat \<Rightarrow> 't dbg \<Rightarrow> (bytes \<times> 't dbg) option" where
  "duk_debug_read_bytes T len s =
     (case s of (h, t) \<Rightarrow>
        if \<not> dbg_read_cb h then Some (replicate len 0, s)
        else
          let (p, h') = (if len \<ge> 1 \<and> dbg_have_next_byte h
                         then ([dbg_next_byte h], h\<lparr>dbg_have_next_byte := False\<rparr>)
                         else ([], h))
          in case read_loop T (len - length p) p (h', t) of
               None \<Rightarrow> None
             | Some (Some data, s') \<Rightarrow> Some (data, s')
             | Some (None, s') \<Rightarrow> Some (replicate len 0, s'))"

definition duk_debug_read_byte :: "'t transport \<Rightarrow> 't dbg \<Rightarrow> (byte \<times> 't dbg) option" where
  "duk_debug_read_byte T s = do {
     (data, s) \<leftarrow> duk_debug_read_bytes T 1 s;
     Some (data ! 0, s)
   }"

definition duk_debug_peek_byte :: "'t transport \<Rightarrow> 't dbg \<Rightarrow> (byte \<times> 't dbg) option" where
  "duk_debug_peek_byte T s = do {
     (x, s) \<leftarrow> duk_debug_read_byte T s;
     Some (x, apfst (\<lambda>h. h\<lparr>dbg_have_next_byte := True, dbg_next_byte := x\<rparr>) s)
   }"

definition duk__debug_read_uint32_raw :: "'t transport \<Rightarrow> 't dbg \<Rightarrow> (u32 \<times> 't dbg) option" where
  "duk__debug_read_uint32_raw T s = do {
     (buf, s) \<leftarrow> duk_debug_read_bytes T 4 s;
     Some (push_bit 24 (ucast (buf ! 0)) OR push_bit 16 (ucast (buf ! 1)) OR
           push_bit 8 (ucast (buf ! 2)) OR ucast (buf ! 3), s)
   }"

definition duk__debug_read_uint16_raw :: "'t transport \<Rightarrow> 't dbg \<Rightarrow> (u16 \<times> 't dbg) option" where
  "duk__debug_read_uint16_raw T s = do {
     (buf, s) \<leftarrow> duk_debug_read_bytes T 2 s;
     Some (push_bit 8 (ucast (buf ! 0)) OR ucast (buf ! 1), s)
   }"

definition duk_debug_read_int :: "'t transport \<Rightarrow> 't dbg \<Rightarrow> (u32 \<times> 't dbg) option" where
  "duk_debug_read_int T s = do {
     (x, s) \<leftarrow> duk_debug_read_byte T s;
     (if x \<ge> 0xc0 then do {
        (t, s) \<leftarrow> duk_debug_read_byte T s;
        Some (push_bit 8 (ucast x - 0xc0) + ucast t, s)
      }
      else if x \<ge> 0x80 then Some (ucast x - 0x80, s)
      else if x = 0x10 then duk__debug_read_uint32_raw T s
      else Some (0, set_conn_broken T s))
   }"

definition duk__debug_read_hstring_raw :: "'t transport \<Rightarrow> nat \<Rightarrow> 't dbg \<Rightarrow> (bytes \<times> 't dbg) option" where
  "duk__debug_read_hstring_raw T len s = duk_debug_read_bytes T len s"

definition duk_debug_read_hstring :: "'t transport \<Rightarrow> 't dbg \<Rightarrow> (bytes \<times> 't dbg) option" where
  "duk_debug_read_hstring T s = do {
     (x, s) \<leftarrow> duk_debug_read_byte T s;
     (if x \<ge> 0x60 \<and> x \<le> 0x7f then duk__debug_read_hstring_raw T (unat (x - 0x60)) s
      else if x = 0x12 then do {
        (len, s) \<leftarrow> duk__debug_read_uint16_raw T s;
        duk__debug_read_hstring_raw T (unat len) s
      }
      else if x = 0x11 then do {
        (len, s) \<leftarrow> duk__debug_read_uint32_raw T s;
        duk__debug_read_hstring_raw T (unat len) s
      }
      else Some ([], set_conn_broken T s))
   }"

definition duk_debug_read_peek :: "'t transport \<Rightarrow> 't dbg \<Rightarrow> bool" where
  "duk_debug_read_peek T s =
     (if \<not> dbg_read_cb (fst s) then False
      else if \<not> dbg_peek_cb (fst s) then False
      else peek_cb T (snd s) > 0)"

function duk_debug_skip_bytes :: "'t transport \<Rightarrow> nat \<Rightarrow> 't dbg \<Rightarrow> 't dbg option" where
  "duk_debug_skip_bytes T len s =
     (if len > 0
      then let now = (if len > 64 then 64 else len) in do {
        (dummy, s) \<leftarrow> duk_debug_read_bytes T now s;
        duk_debug_skip_bytes T (len - now) s
      }
      else Some s)"
  by pat_completeness auto
termination
  by (relation "measure (\<lambda>(T, len, s). len)") (auto simp: Let_def split: if_splits)

declare duk_debug_skip_bytes.simps [simp del]

definition duk_debug_skip_byte :: "'t transport \<Rightarrow> 't dbg \<Rightarrow> 't dbg option" where
  "duk_debug_skip_byte T s = do { (x, s) \<leftarrow> duk_debug_read_byte T s; Some s }"

text \<open>Skipping one tagged value; the flag is the value \<open>1\<close> of the source, the end of the message.\<close>

definition duk__debug_skip_dvalue :: "'t transport \<Rightarrow> 't dbg \<Rightarrow> (bool \<times> 't dbg) option" where
  "duk__debug_skip_dvalue T s = do {
     (x, s) \<leftarrow> duk_debug_read_byte T s;
     (if x \<ge> 0xc0 then do { s \<leftarrow> duk_debug_skip_byte T s; Some (False, s) }
      else if x \<ge> 0x80 then Some (False, s)
      else if x \<ge> 0x60 then do { s \<leftarrow> duk_debug_skip_bytes T (unat (x - 0x60)) s; Some (False, s) }
      else if x = 0x00 then Some (True, s)
      else if x \<in> {0x01, 0x02, 0x03, 0x04} then Some (False, s)
      else if x = 0x10 then do { (v, s) \<leftarrow> duk__debug_read_uint32_raw T s; Some (False, s) }
      else if x \<in> {0x11, 0x13} then do {
        (len, s) \<leftarrow> duk__debug_read_uint32_raw T s;
        s \<leftarrow> duk_debug_skip_bytes T (unat len) s;
        Some (False, s)
      }
      else if x \<in> {0x12, 0x14} then do {
        (len, s) \<leftarrow> duk__debug_read_uint16_raw T s;
        s \<leftarrow> duk_debug_skip_bytes T (unat len) s;
        Some (False, s)
      }
      else if x \<in> {0x15, 0x16, 0x17, 0x18, 0x19} then Some (False, s)
      else if x = 0x1a then do { s \<leftarrow> duk_debug_skip_bytes T 8 s; Some (False, s) }
      else if x = 0x1b then do {
        s \<leftarrow> duk_debug_skip_byte T s;
        (len, s) \<leftarrow> duk_debug_read_byte T s;
        s \<leftarrow> duk_debug_skip_bytes T (unat len) s;
        Some (False, s)
      }
      else if x = 0x1c then do {
        (len, s) \<leftarrow> duk_debug_read_byte T s;
        s \<leftarrow> duk_debug_skip_bytes T (unat len) s;
        Some (False, s)
      }
      else if x = 0x1d then do {
        s \<leftarrow> duk_debug_skip_bytes T 2 s;
        (len, s) \<leftarrow> duk_debug_read_byte T s;
        s \<leftarrow> duk_debug_skip_bytes T (unat len) s;
        Some (False, s)
      }
      else Some (True, set_conn_broken T s))
   }"

partial_function (option) duk__debug_skip_to_eom :: "'t transport \<Rightarrow> 't dbg \<Rightarrow> 't dbg option" where
  "duk__debug_skip_to_eom T s = do {
     (eom, s) \<leftarrow> duk__debug_skip_dvalue T s;
     if eom then Some s else duk__debug_skip_to_eom T s
   }"

section \<open>The integer encoding\<close>

lemma int_bytes_cases:
  obtains (small) "uint x \<le> 0x3f" "int_bytes x = [0x80 + ucast x]"
  | (medium) "uint x \<le> 0x3fff" "int_bytes x = [0xc0 + ucast (drop_bit 8 x), ucast x]"
  | (wide) "int_bytes x = [0x10, ucast (drop_bit 24 x), ucast (drop_bit 16 x), ucast (drop_bit 8 x), ucast x]"
proof (cases "0 \<le> sint x")
  case True
  with sint_u32_nonneg [of x] small medium wide show ?thesis
    by (cases "uint x \<le> 0x3f"; cases "uint x \<le> 0x3fff") (auto simp: int_bytes_def)
next
  case False
  with wide show ?thesis by (simp add: int_bytes_def)
qed

lemma small_int_byte:
  assumes "uint (x :: u32) \<le> 0x3f"
  shows "(0x80 + ucast x :: byte) \<ge> 0x80" and "\<not> (0x80 + ucast x :: byte) \<ge> 0xc0"
    and "ucast (0x80 + ucast x :: byte) - 0x80 = x"
proof -
  have u: "uint (0x80 + ucast x :: byte) = 0x80 + uint x"
    using assms by (simp add: uint_word_ariths unsigned_eqs)
  show "(0x80 + ucast x :: byte) \<ge> 0x80" and "\<not> (0x80 + ucast x :: byte) \<ge> 0xc0"
    using assms by (simp_all add: word_le_def u)
  show "ucast (0x80 + ucast x :: byte) - 0x80 = x"
    using assms by (simp add: word_uint_eq_iff uint_word_ariths u unsigned_eqs)
qed

lemma medium_int_bytes:
  assumes "uint (x :: u32) \<le> 0x3fff"
  shows "(0xc0 + ucast (drop_bit 8 x) :: byte) \<ge> 0xc0"
    and "push_bit 8 (ucast (0xc0 + ucast (drop_bit 8 x) :: byte) - 0xc0) + ucast (ucast x :: byte) = x"
proof -
  have hi: "uint x div 256 \<le> 63" "0 \<le> uint x div 256"
    using assms by (simp_all add: pos_imp_zdiv_nonneg_iff)
  then have u: "uint (0xc0 + ucast (drop_bit 8 x) :: byte) = 0xc0 + uint x div 256"
    by (simp add: uint_word_ariths unsigned_eqs drop_bit_eq_div uint_div)
  show "(0xc0 + ucast (drop_bit 8 x) :: byte) \<ge> 0xc0"
    using hi by (simp add: word_le_def u)
  show "push_bit 8 (ucast (0xc0 + ucast (drop_bit 8 x) :: byte) - 0xc0) + ucast (ucast x :: byte) = x"
  proof -
    obtain b0 :: byte where b0: "b0 = 0xc0 + ucast (drop_bit 8 x)" by blast
    obtain c e :: u32 where c: "c = ucast b0 - 0xc0" and e: "e = ucast (ucast x :: byte)" by blast
    have "uint c = uint x div 256"
      using u hi unfolding b0 [symmetric] by (simp add: c uint_word_ariths unsigned_eqs)
    moreover have "uint e = uint x mod 256" by (simp add: e unsigned_eqs uint_mod)
    ultimately have "uint (push_bit 8 c + e) =
        ((uint x div 256 * 256) mod 2 ^ 32 + uint x mod 256) mod 2 ^ 32"
      by (simp add: uint_word_ariths unsigned_eqs push_bit_eq_mult)
    also have "\<dots> = uint x" using hi assms by simp
    finally show ?thesis by (simp add: word_uint_eq_iff c e b0)
  qed
qed

section \<open>Working transports\<close>

text \<open>
  What the server relies on when the connection works: a read returns some of the bytes that are
  available, at least one and at most as many as asked for, and waits when there are none; a
  write takes all its bytes. \<open>incoming\<close> are the bytes available, \<open>consume\<close> takes bytes from them,
  and \<open>absorb\<close> is the effect of the written bytes on the other end.
\<close>

locale debug_transport =
  fixes T :: "'t transport"
    and good :: "'t \<Rightarrow> bool"
    and incoming :: "'t \<Rightarrow> bytes"
    and consume :: "nat \<Rightarrow> 't \<Rightarrow> 't"
    and absorb :: "bytes \<Rightarrow> 't \<Rightarrow> 't"
  assumes read_available: "good t \<Longrightarrow> incoming t \<noteq> [] \<Longrightarrow> n > 0 \<Longrightarrow>
      \<exists>k > 0. k \<le> n \<and> k \<le> length (incoming t) \<and>
        read_cb T n t = Some (take k (incoming t), consume k t)"
    and read_waits: "good t \<Longrightarrow> incoming t = [] \<Longrightarrow> read_cb T n t = None"
    and write_all: "good t \<Longrightarrow> bs \<noteq> [] \<Longrightarrow> write_cb T bs t = (length bs, absorb bs t)"
    and peek_length: "good t \<Longrightarrow> peek_cb T t = length (incoming t)"
    and good_consume [simp]: "good t \<Longrightarrow> good (consume k t)"
    and good_absorb [simp]: "good t \<Longrightarrow> good (absorb bs t)"
    and incoming_consume [simp]: "incoming (consume k t) = drop k (incoming t)"
    and incoming_absorb [simp]: "good t \<Longrightarrow> incoming (absorb bs t) = incoming t"
    and consume_0 [simp]: "consume 0 t = t"
    and consume_consume [simp]: "consume j (consume k t) = consume (k + j) t"
    and absorb_Nil [simp]: "absorb [] t = t"
    and absorb_absorb [simp]: "good t \<Longrightarrow> absorb b (absorb a t) = absorb (a @ b) t"
    and absorb_consume [simp]: "good t \<Longrightarrow> consume k (absorb a t) = absorb a (consume k t)"
begin

lemma read_loop_step:
  assumes "read_cb T n t = Some (take k (incoming t), consume k t)" and "k > 0" "k \<le> n"
    "k \<le> length (incoming t)"
  shows "read_loop T n acc (h, t) = read_loop T (n - k) (acc @ take k (incoming t)) (h, consume k t)"
proof -
  have "length (take k (incoming t)) = k" using assms by simp
  with assms show ?thesis
    by (subst read_loop.simps) (simp del: length_take length_0_conv take_all_iff take_all)
qed

lemma read_loop_available:
  "good t \<Longrightarrow> n \<le> length (incoming t) \<Longrightarrow>
    read_loop T n acc (h, t) = Some (Some (acc @ take n (incoming t)), (h, consume n t))"
proof (induction n arbitrary: acc t rule: less_induct)
  case (less n)
  show ?case
  proof (cases "n = 0")
    case True
    then show ?thesis by (simp add: read_loop.simps)
  next
    case False
    with less.prems have "incoming t \<noteq> []" "n > 0" by auto
    then obtain k where k: "k > 0" "k \<le> n" "k \<le> length (incoming t)"
      and cb: "read_cb T n t = Some (take k (incoming t), consume k t)"
      using read_available less.prems(1) by blast
    have "read_loop T (n - k) (acc @ take k (incoming t)) (h, consume k t) =
      Some (Some ((acc @ take k (incoming t)) @ take (n - k) (drop k (incoming t))), (h, consume n t))"
      using less.IH [of "n - k" "consume k t"] less.prems k by simp
    moreover have "take k (incoming t) @ take (n - k) (drop k (incoming t)) = take n (incoming t)"
      using k by (metis le_add_diff_inverse take_add)
    ultimately show ?thesis using read_loop_step [OF cb k] by simp
  qed
qed

lemma read_loop_waits:
  "good t \<Longrightarrow> length (incoming t) < n \<Longrightarrow> read_loop T n acc (h, t) = None"
proof (induction n arbitrary: acc t rule: less_induct)
  case (less n)
  show ?case
  proof (cases "incoming t = []")
    case True
    then show ?thesis using less.prems read_waits by (subst read_loop.simps) simp
  next
    case False
    with less.prems obtain k where k: "k > 0" "k \<le> n" "k \<le> length (incoming t)"
      and cb: "read_cb T n t = Some (take k (incoming t), consume k t)"
      using read_available [of t n] by (metis length_greater_0_conv less_trans)
    have "read_loop T (n - k) (acc @ take k (incoming t)) (h, consume k t) = None"
      using less.IH [of "n - k" "consume k t"] less.prems k by simp
    then show ?thesis using read_loop_step [OF cb k] by simp
  qed
qed

lemma read_bytes_available:
  "dbg_read_cb h \<Longrightarrow> \<not> dbg_have_next_byte h \<Longrightarrow> good t \<Longrightarrow> n \<le> length (incoming t) \<Longrightarrow>
    duk_debug_read_bytes T n (h, t) = Some (take n (incoming t), (h, consume n t))"
  by (simp add: duk_debug_read_bytes_def read_loop_available)

lemma read_bytes_waits:
  "dbg_read_cb h \<Longrightarrow> \<not> dbg_have_next_byte h \<Longrightarrow> good t \<Longrightarrow> length (incoming t) < n \<Longrightarrow>
    duk_debug_read_bytes T n (h, t) = None"
  by (simp add: duk_debug_read_bytes_def read_loop_waits)

lemma read_byte_available:
  "dbg_read_cb h \<Longrightarrow> \<not> dbg_have_next_byte h \<Longrightarrow> good t \<Longrightarrow> incoming t = b # bs \<Longrightarrow>
    duk_debug_read_byte T (h, t) = Some (b, (h, consume 1 t))"
  by (simp add: duk_debug_read_byte_def read_bytes_available)

lemma read_byte_next:
  "dbg_read_cb h \<Longrightarrow> dbg_have_next_byte h \<Longrightarrow>
    duk_debug_read_byte T (h, t) = Some (dbg_next_byte h, (h\<lparr>dbg_have_next_byte := False\<rparr>, t))"
  by (simp add: duk_debug_read_byte_def duk_debug_read_bytes_def read_loop.simps)

lemma peek_byte_available:
  "dbg_read_cb h \<Longrightarrow> \<not> dbg_have_next_byte h \<Longrightarrow> good t \<Longrightarrow> incoming t = b # bs \<Longrightarrow>
    duk_debug_peek_byte T (h, t) =
      Some (b, (h\<lparr>dbg_have_next_byte := True, dbg_next_byte := b\<rparr>, consume 1 t))"
  by (simp add: duk_debug_peek_byte_def read_byte_available)

lemma read_uint32_available:
  "dbg_read_cb h \<Longrightarrow> \<not> dbg_have_next_byte h \<Longrightarrow> good t \<Longrightarrow> incoming t = a # b # c # d # bs \<Longrightarrow>
    duk__debug_read_uint32_raw T (h, t) =
      Some (push_bit 24 (ucast a) OR push_bit 16 (ucast b) OR push_bit 8 (ucast c) OR ucast d,
        (h, consume 4 t))"
  by (simp add: duk__debug_read_uint32_raw_def read_bytes_available numeral_eq_Suc)

lemma read_uint16_available:
  "dbg_read_cb h \<Longrightarrow> \<not> dbg_have_next_byte h \<Longrightarrow> good t \<Longrightarrow> incoming t = a # b # bs \<Longrightarrow>
    duk__debug_read_uint16_raw T (h, t) = Some (push_bit 8 (ucast a) OR ucast b, (h, consume 2 t))"
  by (simp add: duk__debug_read_uint16_raw_def read_bytes_available numeral_eq_Suc)

lemma skip_to_eom_byte:
  "dbg_read_cb h \<Longrightarrow> \<not> dbg_have_next_byte h \<Longrightarrow> good t \<Longrightarrow> incoming t = 0 # bs \<Longrightarrow>
    duk__debug_skip_to_eom T (h, t) = Some (h, consume 1 t)"
  by (subst duk__debug_skip_to_eom.simps) (simp add: duk__debug_skip_dvalue_def read_byte_available)

lemma skip_to_eom_next:
  "dbg_read_cb h \<Longrightarrow> dbg_have_next_byte h \<Longrightarrow> dbg_next_byte h = 0 \<Longrightarrow>
    duk__debug_skip_to_eom T (h, t) = Some (h\<lparr>dbg_have_next_byte := False\<rparr>, t)"
  by (subst duk__debug_skip_to_eom.simps) (simp add: duk__debug_skip_dvalue_def read_byte_next)

lemma write_bytes_absorb:
  "dbg_write_cb h \<Longrightarrow> good t \<Longrightarrow> duk_debug_write_bytes T bs (h, t) = (h, absorb bs t)"
  by (simp add: duk_debug_write_bytes_def raw_write_bytes_def write_loop.simps write_all)

lemma write_byte_absorb:
  "dbg_write_cb h \<Longrightarrow> good t \<Longrightarrow> duk_debug_write_byte T b (h, t) = (h, absorb [b] t)"
  by (simp add: duk_debug_write_byte_def raw_write_byte_def write_all)

lemma Suc5: "Suc (Suc (Suc (Suc (Suc n)))) = 5 + n"
  by simp

lemma read_int_bytes:
  assumes "dbg_read_cb h" and "\<not> dbg_have_next_byte h" and "good t"
    and "incoming t = int_bytes x @ rest"
  shows "duk_debug_read_int T (h, t) = Some (x, (h, consume (length (int_bytes x)) t))"
proof (cases x rule: int_bytes_cases)
  case small
  with assms show ?thesis
    by (simp add: duk_debug_read_int_def read_byte_available small_int_byte)
next
  case medium
  with assms show ?thesis
    by (simp add: duk_debug_read_int_def read_byte_available medium_int_bytes)
next
  case wide
  then have "length (int_bytes x) = 5" by simp
  with wide assms show ?thesis
    by (simp add: duk_debug_read_int_def read_byte_available read_uint32_available be32_join
        Suc5)
qed

lemma read_string_bytes:
  assumes "dbg_read_cb h" and "\<not> dbg_have_next_byte h" and "good t" and "length cs < 2 ^ 32"
    and "incoming t = strbuf_header (length cs) 0x11 @ cs @ rest"
  shows "duk_debug_read_hstring T (h, t) =
    Some (cs, (h, consume (length (strbuf_header (length cs) 0x11) + length cs) t))"
proof -
  consider "length cs \<le> 31" | "31 < length cs" "length cs \<le> 65535" | "65535 < length cs" by linarith
  then show ?thesis
  proof cases
    case 1
    then have u: "uint (0x60 + of_nat (length cs) :: byte) = 0x60 + int (length cs)"
      by (simp add: uint_word_ariths unsigned_eqs)
    then have "unat (0x60 + of_nat (length cs) - 0x60 :: byte) = length cs"
      using 1 by (simp add: unsigned_eqs)
    with 1 assms u show ?thesis
      by (simp add: duk_debug_read_hstring_def read_byte_available strbuf_header_def word_le_def
          duk__debug_read_hstring_raw_def read_bytes_available)
  next
    case 2
    then have "unat (of_nat (length cs) :: u16) = length cs" by (simp add: unsigned_eqs)
    with 2 assms show ?thesis
      by (simp add: duk_debug_read_hstring_def read_byte_available strbuf_header_def
          duk__debug_read_hstring_raw_def read_bytes_available read_uint16_available
          of_nat_bytes_u16 be16_join)
  next
    case 3
    define w :: u32 where "w = of_nat (length cs)"
    have w: "unat w = length cs" using assms(4) by (simp add: w_def unsigned_eqs)
    have "strbuf_header (length cs) 0x11 =
        [0x11, ucast (drop_bit 24 w), ucast (drop_bit 16 w), ucast (drop_bit 8 w), ucast w]"
      using 3 of_nat_bytes_u32(1-3) [OF assms(4)] of_nat_bytes_u32(4) [of "length cs"]
      by (simp add: strbuf_header_def w_def)
    with assms w show ?thesis
      by (simp add: duk_debug_read_hstring_def read_byte_available be32_join
          duk__debug_read_hstring_raw_def read_bytes_available read_uint32_available Suc5)
  qed
qed

end

end
