(* ===== verification/Duk_Debug_Server.thy ===== *)
theory Duk_Debug_Server
  imports Duk_Debug_Io
begin

text \<open>
  The server side of the debug protocol in \<^verbatim>\<open>src/unifyframework/duktape1.4.0/duk_debugger.c\<close>: status and
  throw notifications, the request handlers, the message loop and the breakpoint array.

  What a handler asks the bytecode executor is the record \<open>duk_vm\<close>: the call stack, the current line
  and pc, the names and values of the local variables. Executing code is not modelled. The
  commands \<open>PutVar\<close>, \<open>Eval\<close>, \<open>DumpHeap\<close> and \<open>GetBytecode\<close>, which act on the executor and which the
  client of this program never sends, are the argument \<open>other\<close> of the message handler.
\<close>

section \<open>What the executor provides\<close>

record vm_frame =
  frame_fileName :: bytes
  frame_name :: bytes
  frame_pc :: nat
  frame_pc2line :: "nat \<Rightarrow> u32"

text \<open>
  \<open>vm_threads\<close> are the call stacks of the thread and of its resumers, innermost frame first;
  the first of them is the stack of the current thread. \<open>vm_varmap\<close> is the enumeration of the
  variable map of the frame at a level, with the value of each variable, or \<open>None\<close> when the
  function has no variable map.
\<close>

record duk_vm =
  vm_threads :: "vm_frame list list"
  vm_varmap :: "int \<Rightarrow> (bytes \<times> duk_tval) list option"
  vm_getvar :: "int \<Rightarrow> bytes \<Rightarrow> duk_tval option"

definition callstack :: "duk_vm \<Rightarrow> vm_frame list" where
  "callstack vm = (case vm_threads vm of [] \<Rightarrow> [] | fs # _ \<Rightarrow> fs)"

definition callstack_top :: "duk_vm \<Rightarrow> nat" where
  "callstack_top vm = length (callstack vm)"

definition duk_debug_curr_line :: "duk_vm \<Rightarrow> u32" where
  "duk_debug_curr_line vm =
     (case callstack vm of [] \<Rightarrow> 0 | act # _ \<Rightarrow> frame_pc2line act (frame_pc act))"

section \<open>Notifications\<close>

definition duk_debug_send_status :: "'t transport \<Rightarrow> duk_vm \<Rightarrow> 't dbg \<Rightarrow> 't dbg" where
  "duk_debug_send_status T vm s =
     (let s = duk_debug_write_notify T DUK_DBG_CMD_STATUS s;
          s = duk_debug_write_int T (if dbg_paused (fst s) then 1 else 0) s;
          s = (case callstack vm of
                 [] \<Rightarrow>
                   let s = duk_debug_write_undefined T s;
                       s = duk_debug_write_undefined T s;
                       s = duk_debug_write_int T 0 s
                   in duk_debug_write_int T 0 s
               | act # _ \<Rightarrow>
                   let s = duk_debug_write_hstring T (Some (frame_fileName act)) s;
                       s = duk_debug_write_hstring T (Some (frame_name act)) s;
                       s = duk_debug_write_uint T (duk_debug_curr_line vm) s
                   in duk_debug_write_uint T (of_nat (frame_pc act)) s)
      in duk_debug_write_eom T s)"

text \<open>
  A thrown value, as far as the notification shows it: its string form and, for an \<open>Error\<close>
  instance, its file name and line number.
\<close>

record thrown =
  thrown_string :: bytes
  thrown_error :: "(bytes \<times> u32) option"

definition duk_debug_send_throw ::
  "'t transport \<Rightarrow> duk_vm \<Rightarrow> thrown \<Rightarrow> bool \<Rightarrow> 't dbg \<Rightarrow> 't dbg option" where
  "duk_debug_send_throw T vm err fatal s =
     (let s = duk_debug_write_notify T DUK_DBG_CMD_THROW s;
          s = duk_debug_write_int T (if fatal then 1 else 0) s;
          s = duk_debug_write_hstring T (Some (thrown_string err)) s
      in case thrown_error err of
           Some (fileName, lineNumber) \<Rightarrow>
             Some (duk_debug_write_eom T
               (duk_debug_write_uint T lineNumber (duk_debug_write_hstring T (Some fileName) s)))
         | None \<Rightarrow>
             (case callstack vm of
                [] \<Rightarrow> None
              | act # _ \<Rightarrow>
                  let pc = (if frame_pc act > 0 then frame_pc act - 1 else 0)
                  in Some (duk_debug_write_eom T
                       (duk_debug_write_uint T (frame_pc2line act pc)
                          (duk_debug_write_hstring T (Some (frame_fileName act)) s)))))"

section \<open>Breakpoints\<close>

definition DUK_HEAP_MAX_BREAKPOINTS :: nat where
  "DUK_HEAP_MAX_BREAKPOINTS = 16"

definition duk_debug_add_breakpoint :: "bytes \<Rightarrow> u32 \<Rightarrow> duk_heap \<Rightarrow> int \<times> duk_heap" where
  "duk_debug_add_breakpoint filename line h =
     (if length (dbg_breakpoints h) \<ge> DUK_HEAP_MAX_BREAKPOINTS then (-1, h)
      else let h' = h\<lparr>dbg_breakpoints_active := [],
                      dbg_breakpoints := dbg_breakpoints h @ [(filename, line)]\<rparr>
           in (int (length (dbg_breakpoints h')) - 1, h'))"

definition duk_debug_remove_breakpoint :: "nat \<Rightarrow> duk_heap \<Rightarrow> bool \<times> duk_heap" where
  "duk_debug_remove_breakpoint breakpoint_index h =
     (if breakpoint_index \<ge> length (dbg_breakpoints h) then (False, h)
      else (True, h\<lparr>dbg_breakpoints := take breakpoint_index (dbg_breakpoints h) @
                      drop (Suc breakpoint_index) (dbg_breakpoints h),
                    dbg_breakpoints_active := []\<rparr>))"

section \<open>Request handlers\<close>

definition clear_step_state :: "duk_heap \<Rightarrow> duk_heap" where
  "clear_step_state h =
     h\<lparr>dbg_step_type := 0, dbg_step_thread := False, dbg_step_csindex := 0, dbg_step_startline := 0\<rparr>"

definition DUK_HEAP_SET_PAUSED :: "duk_heap \<Rightarrow> duk_heap" where
  "DUK_HEAP_SET_PAUSED h = clear_step_state (h\<lparr>dbg_paused := True, dbg_state_dirty := True\<rparr>)"

definition DUK_HEAP_CLEAR_PAUSED :: "duk_heap \<Rightarrow> duk_heap" where
  "DUK_HEAP_CLEAR_PAUSED h = clear_step_state (h\<lparr>dbg_paused := False, dbg_state_dirty := True\<rparr>)"

definition reply_eom :: "'t transport \<Rightarrow> 't dbg \<Rightarrow> 't dbg" where
  "reply_eom T s = duk_debug_write_eom T (duk_debug_write_reply T s)"

text \<open>The build constants that \<open>BasicInfo\<close> reports.\<close>

record duk_build =
  DUK_VERSION :: u32
  DUK_GIT_DESCRIBE :: bytes
  DUK_USE_TARGET_INFO :: bytes
  double_order :: u32

definition duk__debug_handle_basic_info :: "'t transport \<Rightarrow> duk_build \<Rightarrow> 't dbg \<Rightarrow> 't dbg" where
  "duk__debug_handle_basic_info T build s =
     (let s = duk_debug_write_reply T s;
          s = duk_debug_write_int T (DUK_VERSION build) s;
          s = duk_debug_write_cstring T (Some (DUK_GIT_DESCRIBE build)) s;
          s = duk_debug_write_cstring T (Some (DUK_USE_TARGET_INFO build)) s;
          s = duk_debug_write_int T (double_order build) s
      in duk_debug_write_eom T s)"

definition duk__debug_handle_trigger_status :: "'t transport \<Rightarrow> 't dbg \<Rightarrow> 't dbg" where
  "duk__debug_handle_trigger_status T s = apfst (\<lambda>h. h\<lparr>dbg_state_dirty := True\<rparr>) (reply_eom T s)"

definition duk__debug_handle_pause :: "'t transport \<Rightarrow> 't dbg \<Rightarrow> 't dbg" where
  "duk__debug_handle_pause T s = reply_eom T (apfst DUK_HEAP_SET_PAUSED s)"

definition duk__debug_handle_resume :: "'t transport \<Rightarrow> 't dbg \<Rightarrow> 't dbg" where
  "duk__debug_handle_resume T s = reply_eom T (apfst DUK_HEAP_CLEAR_PAUSED s)"

definition duk__debug_handle_step :: "'t transport \<Rightarrow> duk_vm \<Rightarrow> u32 \<Rightarrow> 't dbg \<Rightarrow> 't dbg" where
  "duk__debug_handle_step T vm cmd s =
     (let step_type = (if cmd = 0x14 then 1 else if cmd = 0x15 then 2 else 3);
          line = duk_debug_curr_line vm;
          s = (if line > 0
               then apfst (\<lambda>h. h\<lparr>dbg_paused := False, dbg_step_type := step_type,
                      dbg_step_thread := True, dbg_step_csindex := callstack_top vm - 1,
                      dbg_step_startline := unat line, dbg_state_dirty := True\<rparr>) s
               else s)
      in reply_eom T s)"

definition duk__debug_handle_list_break :: "'t transport \<Rightarrow> 't dbg \<Rightarrow> 't dbg" where
  "duk__debug_handle_list_break T s =
     (let s = duk_debug_write_reply T s;
          s = fold (\<lambda>(filename, line) s.
                duk_debug_write_uint T line (duk_debug_write_hstring T (Some filename) s))
                (dbg_breakpoints (fst s)) s
      in duk_debug_write_eom T s)"

definition duk__debug_handle_add_break :: "'t transport \<Rightarrow> 't dbg \<Rightarrow> 't dbg option" where
  "duk__debug_handle_add_break T s = do {
     (filename, s) \<leftarrow> duk_debug_read_hstring T s;
     (linenumber, s) \<leftarrow> duk_debug_read_int T s;
     let (idx, h) = duk_debug_add_breakpoint filename linenumber (fst s);
     let s = (h, snd s);
     Some (if idx \<ge> 0
           then duk_debug_write_eom T (duk_debug_write_int T (of_int idx) (duk_debug_write_reply T s))
           else duk_debug_write_error_eom T 0x02 (Some (str ''no space for breakpoint'')) s)
   }"

definition duk__debug_handle_del_break :: "'t transport \<Rightarrow> 't dbg \<Rightarrow> 't dbg option" where
  "duk__debug_handle_del_break T s = do {
     (idx, s) \<leftarrow> duk_debug_read_int T s;
     let (ok, h) = duk_debug_remove_breakpoint (unat idx) (fst s);
     let s = (h, snd s);
     Some (if ok then reply_eom T s
           else duk_debug_write_error_eom T 0x03 (Some (str ''invalid breakpoint index'')) s)
   }"

text \<open>
  The optional call stack level of \<open>GetVar\<close> and \<open>GetLocals\<close>: \<open>None\<close> inside the pair is an
  invalid level, \<open>Some None\<close> that there is none.
\<close>

definition read_level :: "'t transport \<Rightarrow> duk_vm \<Rightarrow> 't dbg \<Rightarrow> (int option option \<times> 't dbg) option" where
  "read_level T vm s = do {
     (x, s) \<leftarrow> duk_debug_peek_byte T s;
     (if x \<noteq> DUK_DBG_MARKER_EOM then do {
        (level, s) \<leftarrow> duk_debug_read_int T s;
        Some (if sint level \<ge> 0 \<or> - sint level > int (callstack_top vm) then None
              else Some (Some (sint level)), s)
      }
      else Some (Some None, s))
   }"

definition invalid_level :: "'t transport \<Rightarrow> 't dbg \<Rightarrow> 't dbg" where
  "invalid_level T s = duk_debug_write_error_eom T 0x03 (Some (str ''invalid callstack level'')) s"

definition duk__debug_handle_get_var :: "'t transport \<Rightarrow> duk_vm \<Rightarrow> 't dbg \<Rightarrow> 't dbg option" where
  "duk__debug_handle_get_var T vm s = do {
     (name, s) \<leftarrow> duk_debug_read_hstring T s;
     (l, s) \<leftarrow> read_level T vm s;
     Some (case l of
       None \<Rightarrow> invalid_level T s
     | Some level \<Rightarrow>
         let rc = (if callstack_top vm > 0
                   then vm_getvar vm (case level of None \<Rightarrow> -1 | Some i \<Rightarrow> i) name else None);
             s = duk_debug_write_reply T s;
             s = (case rc of
                    Some v \<Rightarrow> duk_debug_write_tval T v (duk_debug_write_int T 1 s)
                  | None \<Rightarrow> duk_debug_write_unused T (duk_debug_write_int T 0 s))
         in duk_debug_write_eom T s)
   }"

definition write_frame :: "'t transport \<Rightarrow> bool \<Rightarrow> vm_frame \<Rightarrow> 't dbg \<Rightarrow> 't dbg" where
  "write_frame T is_top act s =
     (let s = duk_debug_write_hstring T (Some (frame_fileName act)) s;
          s = duk_debug_write_hstring T (Some (frame_name act)) s;
          pc = (if \<not> is_top \<and> frame_pc act > 0 then frame_pc act - 1 else frame_pc act);
          s = duk_debug_write_uint T (frame_pc2line act pc) s
      in duk_debug_write_uint T (of_nat pc) s)"

fun write_stack :: "'t transport \<Rightarrow> bool \<Rightarrow> vm_frame list \<Rightarrow> 't dbg \<Rightarrow> 't dbg" where
  "write_stack T is_top [] s = s"
| "write_stack T is_top (act # acts) s = write_stack T False acts (write_frame T is_top act s)"

definition duk__debug_handle_get_call_stack :: "'t transport \<Rightarrow> duk_vm \<Rightarrow> 't dbg \<Rightarrow> 't dbg" where
  "duk__debug_handle_get_call_stack T vm s =
     duk_debug_write_eom T (fold (write_stack T True) (vm_threads vm) (duk_debug_write_reply T s))"

definition write_locals :: "'t transport \<Rightarrow> (bytes \<times> duk_tval) list \<Rightarrow> 't dbg \<Rightarrow> 't dbg" where
  "write_locals T vars s =
     fold (\<lambda>(varname, v) s. duk_debug_write_tval T v (duk_debug_write_hstring T (Some varname) s)) vars s"

definition duk__debug_handle_get_locals :: "'t transport \<Rightarrow> duk_vm \<Rightarrow> 't dbg \<Rightarrow> 't dbg option" where
  "duk__debug_handle_get_locals T vm s = do {
     (l, s) \<leftarrow> read_level T vm s;
     Some (case l of
       None \<Rightarrow> invalid_level T s
     | Some level \<Rightarrow>
         let s = duk_debug_write_reply T s;
             s = (if level = None \<and> callstack_top vm = 0 then s
                  else case vm_varmap vm (case level of None \<Rightarrow> -1 | Some i \<Rightarrow> i) of
                    Some vars \<Rightarrow> write_locals T vars s
                  | None \<Rightarrow> s)
         in duk_debug_write_eom T s)
   }"

definition duk__debug_handle_detach :: "'t transport \<Rightarrow> 't dbg \<Rightarrow> 't dbg" where
  "duk__debug_handle_detach T s = duk__debug_do_detach1 T 0 (reply_eom T s)"

definition duk__debug_handle_request ::
  "'t transport \<Rightarrow> duk_vm \<Rightarrow> duk_build \<Rightarrow> (u32 \<Rightarrow> 't dbg \<Rightarrow> 't dbg option) \<Rightarrow> u32 \<Rightarrow> 't dbg \<Rightarrow>
    't dbg option" where
  "duk__debug_handle_request T vm build other cmd s =
     (if cmd = 0x10 then Some (duk__debug_handle_basic_info T build s)
      else if cmd = 0x11 then Some (duk__debug_handle_trigger_status T s)
      else if cmd = 0x12 then Some (duk__debug_handle_pause T s)
      else if cmd = 0x13 then Some (duk__debug_handle_resume T s)
      else if cmd \<in> {0x14, 0x15, 0x16} then Some (duk__debug_handle_step T vm cmd s)
      else if cmd = 0x17 then Some (duk__debug_handle_list_break T s)
      else if cmd = 0x18 then duk__debug_handle_add_break T s
      else if cmd = 0x19 then duk__debug_handle_del_break T s
      else if cmd = 0x1a then duk__debug_handle_get_var T vm s
      else if cmd = 0x1c then Some (duk__debug_handle_get_call_stack T vm s)
      else if cmd = 0x1d then duk__debug_handle_get_locals T vm s
      else if cmd = 0x1f then Some (duk__debug_handle_detach T s)
      else if cmd \<in> {0x1b, 0x1e, 0x20, 0x21} then other cmd s
      else Some (duk_debug_write_error_eom T 0x01 (Some (str ''unsupported command'')) s))"

definition duk__debug_process_message ::
  "'t transport \<Rightarrow> duk_vm \<Rightarrow> duk_build \<Rightarrow> (u32 \<Rightarrow> 't dbg \<Rightarrow> 't dbg option) \<Rightarrow> 't dbg \<Rightarrow> 't dbg option" where
  "duk__debug_process_message T vm build other s = do {
     (x, s) \<leftarrow> duk_debug_read_byte T s;
     (if x = DUK_DBG_MARKER_REQUEST then do {
        (cmd, s) \<leftarrow> duk_debug_read_int T s;
        s \<leftarrow> duk__debug_handle_request T vm build other cmd s;
        duk__debug_skip_to_eom T s
      }
      else if x \<in> {DUK_DBG_MARKER_REPLY, DUK_DBG_MARKER_ERROR, DUK_DBG_MARKER_NOTIFY}
      then duk__debug_skip_to_eom T s
      else Some (set_conn_broken T s))
   }"

text \<open>The body of the loop of \<open>duk_debug_process_messages\<close> after the tests that leave it.\<close>

definition process_one ::
  "'t transport \<Rightarrow> duk_vm \<Rightarrow> duk_build \<Rightarrow> (u32 \<Rightarrow> 't dbg \<Rightarrow> 't dbg option) \<Rightarrow> 't dbg \<Rightarrow> 't dbg option" where
  "process_one T vm build other s = do {
     s \<leftarrow> duk__debug_process_message T vm build other s;
     let s = (if \<not> dbg_read_cb (fst s) then duk__debug_do_detach2 T s else s);
     Some (if dbg_state_dirty (fst s)
           then apfst (\<lambda>h. h\<lparr>dbg_state_dirty := False\<rparr>) (duk_debug_send_status T vm s) else s)
   }"

partial_function (option) process_loop ::
  "'t transport \<Rightarrow> duk_vm \<Rightarrow> duk_build \<Rightarrow> (u32 \<Rightarrow> 't dbg \<Rightarrow> 't dbg option) \<Rightarrow> bool \<Rightarrow> bool \<Rightarrow>
    't dbg \<Rightarrow> (bool \<times> 't dbg) option" where
  "process_loop T vm build other no_block retval s =
     (if \<not> dbg_read_cb (fst s) then Some (retval, s)
      else if (\<not> dbg_paused (fst s) \<or> no_block) \<and> \<not> duk_debug_read_peek T s then Some (retval, s)
      else do {
        s \<leftarrow> process_one T vm build other s;
        process_loop T vm build other no_block True s
      })"

definition duk_debug_process_messages ::
  "'t transport \<Rightarrow> duk_vm \<Rightarrow> duk_build \<Rightarrow> (u32 \<Rightarrow> 't dbg \<Rightarrow> 't dbg option) \<Rightarrow> bool \<Rightarrow>
    't dbg \<Rightarrow> (bool \<times> 't dbg) option" where
  "duk_debug_process_messages T vm build other no_block s =
     process_loop T vm build other no_block False s"

text \<open>The version line is formatted by \<open>duk_push_sprintf\<close>; its text is the argument \<open>version_line\<close>.\<close>

definition duk_debugger_attach :: "'t transport \<Rightarrow> bytes \<Rightarrow> 't dbg \<Rightarrow> 't dbg" where
  "duk_debugger_attach T version_line s =
     duk_debug_write_bytes T version_line
       (apfst (\<lambda>h. h\<lparr>dbg_read_cb := True, dbg_write_cb := True, dbg_peek_cb := True,
          dbg_detached_cb := True, dbg_have_next_byte := False, dbg_processing := False,
          dbg_paused := True, dbg_state_dirty := True, dbg_force_restart := False,
          dbg_step_type := 0, dbg_step_thread := False, dbg_step_csindex := 0,
          dbg_step_startline := 0\<rparr>) s)"

section \<open>The messages as bytes\<close>

definition string_bytes :: "bytes \<Rightarrow> bytes" where
  "string_bytes cs = strbuf_header (length cs) 0x11 @ cs"

fun tval_bytes :: "duk_tval \<Rightarrow> bytes" where
  "tval_bytes TAG_UNDEFINED = [0x16]"
| "tval_bytes TAG_UNUSED = [0x15]"
| "tval_bytes TAG_NULL = [0x17]"
| "tval_bytes (TAG_BOOLEAN b) = [if b then 0x18 else 0x19]"
| "tval_bytes (TAG_POINTER p) = [0x1c, of_nat (length p)] @ p"
| "tval_bytes (TAG_LIGHTFUNC flags f) =
     [0x1d, ucast (drop_bit 8 flags), ucast (flags AND 0xff), of_nat (length f)] @ f"
| "tval_bytes (TAG_STRING cs) = string_bytes cs"
| "tval_bytes (TAG_OBJECT c p) = [0x1b, c, of_nat (length p)] @ p"
| "tval_bytes (TAG_BUFFER bs) = strbuf_header (length bs) 0x13 @ bs"
| "tval_bytes (TAG_NUMBER d) = 0x1a # double_bytes d"

definition status_bytes :: "bool \<Rightarrow> duk_vm \<Rightarrow> bytes" where
  "status_bytes paused vm =
     [0x04, 0x81, if paused then 0x81 else 0x80] @
     (case callstack vm of
        [] \<Rightarrow> [0x16, 0x16, 0x80, 0x80]
      | act # _ \<Rightarrow> string_bytes (frame_fileName act) @ string_bytes (frame_name act) @
          int_bytes (duk_debug_curr_line vm) @ int_bytes (of_nat (frame_pc act))) @ [0x00]"

definition throw_bytes :: "bool \<Rightarrow> bytes \<Rightarrow> bytes \<Rightarrow> u32 \<Rightarrow> bytes" where
  "throw_bytes fatal msg fileName line =
     [0x04, 0x85, if fatal then 0x81 else 0x80] @ string_bytes msg @ string_bytes fileName @
     int_bytes line @ [0x00]"

definition locals_bytes :: "(bytes \<times> duk_tval) list \<Rightarrow> bytes" where
  "locals_bytes vars = concat (map (\<lambda>(n, v). string_bytes n @ tval_bytes v) vars)"

definition error_bytes :: "u32 \<Rightarrow> bytes \<Rightarrow> bytes" where
  "error_bytes code msg = [0x03] @ int_bytes code @ string_bytes msg @ [0x00]"

text \<open>A heap with a working connection and no byte read ahead.\<close>

definition connected :: "duk_heap \<Rightarrow> bool" where
  "connected h \<longleftrightarrow> dbg_read_cb h \<and> dbg_write_cb h \<and> \<not> dbg_have_next_byte h"

lemma int_bytes_numeral [simp]:
  "int_bytes 0 = [0x80]" "int_bytes 1 = [0x81]" "int_bytes 2 = [0x82]" "int_bytes 3 = [0x83]"
  "int_bytes 5 = [0x85]" "int_bytes 0x12 = [0x92]" "int_bytes 0x13 = [0x93]"
  "int_bytes 0x18 = [0x98]" "int_bytes 0x19 = [0x99]" "int_bytes 0x1d = [0x9d]"
  by (simp_all add: int_bytes_def)

context debug_transport
begin

lemma write_int_absorb:
  "dbg_write_cb h \<Longrightarrow> good t \<Longrightarrow> duk_debug_write_int T x (h, t) = (h, absorb (int_bytes x) t)"
  by (simp add: duk_debug_write_int_def write_bytes_absorb)

lemma write_uint_absorb:
  "dbg_write_cb h \<Longrightarrow> good t \<Longrightarrow> duk_debug_write_uint T x (h, t) = (h, absorb (int_bytes x) t)"
  by (simp add: duk_debug_write_uint_def write_int_absorb)

lemma write_string_absorb:
  "dbg_write_cb h \<Longrightarrow> good t \<Longrightarrow>
    duk_debug_write_string T cs (h, t) = (h, absorb (string_bytes cs) t)"
  by (simp add: duk_debug_write_string_def duk_debug_write_strbuf_def write_bytes_absorb string_bytes_def)

lemma write_hstring_absorb:
  "dbg_write_cb h \<Longrightarrow> good t \<Longrightarrow>
    duk_debug_write_hstring T (Some cs) (h, t) = (h, absorb (string_bytes cs) t)"
  by (simp add: duk_debug_write_hstring_def write_string_absorb)

lemma write_tval_absorb:
  "dbg_write_cb h \<Longrightarrow> good t \<Longrightarrow> duk_debug_write_tval T v (h, t) = (h, absorb (tval_bytes v) t)"
  by (cases v)
    (simp_all add: write_byte_absorb write_bytes_absorb write_hstring_absorb
      duk__debug_write_pointer_raw_def duk_debug_write_hobject_def duk_debug_write_hbuffer_def
      duk_debug_write_strbuf_def)

lemma write_marker_absorb:
  "dbg_write_cb h \<Longrightarrow> good t \<Longrightarrow> duk_debug_write_reply T (h, t) = (h, absorb [0x02] t)"
  "dbg_write_cb h \<Longrightarrow> good t \<Longrightarrow> duk_debug_write_eom T (h, t) = (h, absorb [0x00] t)"
  "dbg_write_cb h \<Longrightarrow> good t \<Longrightarrow> duk_debug_write_undefined T (h, t) = (h, absorb [0x16] t)"
  "dbg_write_cb h \<Longrightarrow> good t \<Longrightarrow>
     duk_debug_write_notify T c (h, t) = (h, absorb (0x04 # int_bytes c) t)"
  "dbg_write_cb h \<Longrightarrow> good t \<Longrightarrow> reply_eom T (h, t) = (h, absorb [0x02, 0x00] t)"
  "dbg_write_cb h \<Longrightarrow> good t \<Longrightarrow>
     duk_debug_write_error_eom T code (Some msg) (h, t) = (h, absorb (error_bytes code msg) t)"
  by (simp_all add: duk_debug_write_reply_def duk_debug_write_eom_def duk_debug_write_undefined_def
      duk_debug_write_notify_def reply_eom_def duk_debug_write_error_eom_def write_byte_absorb
      write_int_absorb write_string_absorb duk_debug_write_cstring_def error_bytes_def wire_simps)

lemmas write_absorb =
  write_byte_absorb write_bytes_absorb write_int_absorb write_uint_absorb write_hstring_absorb
  write_tval_absorb write_marker_absorb

lemma send_status_absorb:
  "dbg_write_cb h \<Longrightarrow> good t \<Longrightarrow>
    duk_debug_send_status T vm (h, t) = (h, absorb (status_bytes (dbg_paused h) vm) t)"
  by (cases "callstack vm")
    (simp_all add: duk_debug_send_status_def write_absorb status_bytes_def DUK_DBG_CMD_STATUS_def)

lemma send_throw_absorb:
  "dbg_write_cb h \<Longrightarrow> good t \<Longrightarrow> thrown_error err = Some (fileName, line) \<Longrightarrow>
    duk_debug_send_throw T vm err fatal (h, t) =
      Some (h, absorb (throw_bytes fatal (thrown_string err) fileName line) t)"
  by (simp add: duk_debug_send_throw_def write_absorb throw_bytes_def DUK_DBG_CMD_THROW_def)

lemma write_locals_absorb:
  "dbg_write_cb h \<Longrightarrow> good t \<Longrightarrow> write_locals T vars (h, t) = (h, absorb (locals_bytes vars) t)"
proof (induction vars arbitrary: t)
  case Nil
  then show ?case by (simp add: write_locals_def locals_bytes_def)
next
  case (Cons v vars)
  then show ?case
    by (cases v) (simp add: write_locals_def locals_bytes_def write_absorb)
qed

lemma process_request:
  assumes "connected h" and "good t" and "incoming t = 0x01 # int_bytes cmd @ rest"
    and "n = Suc (length (int_bytes cmd))"
  shows "duk__debug_process_message T vm build other (h, t) =
    duk__debug_handle_request T vm build other cmd (h, consume n t) \<bind> duk__debug_skip_to_eom T"
  using assms
  by (simp add: duk__debug_process_message_def connected_def read_byte_available wire_simps
      read_int_bytes)

lemma process_pause:
  assumes "connected h" and "good t" and "incoming t = 0x01 # 0x92 # 0x00 # rest"
  shows "duk__debug_process_message T vm build other (h, t) =
    Some (DUK_HEAP_SET_PAUSED h, absorb [0x02, 0x00] (consume 3 t))"
  using assms process_request [of h t "0x12" "0x00 # rest" 2]
  by (simp add: duk__debug_handle_request_def duk__debug_handle_pause_def
      DUK_HEAP_SET_PAUSED_def clear_step_state_def connected_def write_absorb skip_to_eom_byte)

lemma process_resume:
  assumes "connected h" and "good t" and "incoming t = 0x01 # 0x93 # 0x00 # rest"
  shows "duk__debug_process_message T vm build other (h, t) =
    Some (DUK_HEAP_CLEAR_PAUSED h, absorb [0x02, 0x00] (consume 3 t))"
  using assms process_request [of h t "0x13" "0x00 # rest" 2]
  by (simp add: duk__debug_handle_request_def duk__debug_handle_resume_def
      DUK_HEAP_CLEAR_PAUSED_def clear_step_state_def connected_def write_absorb skip_to_eom_byte)

lemma process_add_break:
  assumes "connected h" and "good t" and "length f < 2 ^ 32"
    and "incoming t = [0x01, 0x98] @ string_bytes f @ int_bytes l @ 0x00 # rest"
    and "n = 3 + length (string_bytes f) + length (int_bytes l)"
  shows "duk__debug_process_message T vm build other (h, t) =
    Some (if length (dbg_breakpoints h) < DUK_HEAP_MAX_BREAKPOINTS
      then (h\<lparr>dbg_breakpoints := dbg_breakpoints h @ [(f, l)], dbg_breakpoints_active := []\<rparr>,
        absorb ([0x02] @ int_bytes (of_nat (length (dbg_breakpoints h))) @ [0x00]) (consume n t))
      else (h, absorb (error_bytes 2 (str ''no space for breakpoint'')) (consume n t)))"
proof -
  define t1 where "t1 = consume 2 t"
  define t2 where "t2 = consume (length (string_bytes f)) t1"
  define t3 where "t3 = consume (length (int_bytes l)) t2"
  have inc: "incoming t1 = string_bytes f @ int_bytes l @ 0x00 # rest"
    "incoming t2 = int_bytes l @ 0x00 # rest" "incoming t3 = 0x00 # rest"
    using assms(4) by (simp_all add: t1_def t2_def t3_def)
  have good: "good t1" "good t2" "good t3" using assms(2) by (simp_all add: t1_def t2_def t3_def)
  have n: "consume n t = consume 1 t3"
    using assms(5) by (simp add: t1_def t2_def t3_def numeral_3_eq_3)
  have name: "duk_debug_read_hstring T (h, t1) = Some (f, (h, t2))"
    using assms(1,3) inc(1) good(1) read_string_bytes [of h t1 f "int_bytes l @ 0x00 # rest"]
    by (simp add: connected_def string_bytes_def t2_def)
  have line: "duk_debug_read_int T (h, t2) = Some (l, (h, t3))"
    using assms(1) inc(2) good(2) read_int_bytes [of h t2 l "0x00 # rest"]
    by (simp add: connected_def t3_def)
  have "duk__debug_process_message T vm build other (h, t) =
      duk__debug_handle_add_break T (h, t1) \<bind> duk__debug_skip_to_eom T"
    using assms process_request [of h t "0x18" "string_bytes f @ int_bytes l @ 0x00 # rest" 2]
    by (simp add: duk__debug_handle_request_def t1_def)
  then show ?thesis unfolding n
    using assms(1) good inc(3)
    by (simp add: duk__debug_handle_add_break_def name line duk_debug_add_breakpoint_def connected_def
        write_absorb Let_def skip_to_eom_byte)
qed

lemma process_del_break:
  assumes "connected h" and "good t"
    and "incoming t = [0x01, 0x99] @ int_bytes i @ 0x00 # rest"
    and "n = 3 + length (int_bytes i)"
  shows "duk__debug_process_message T vm build other (h, t) =
    Some (case duk_debug_remove_breakpoint (unat i) h of
      (True, h') \<Rightarrow> (h', absorb [0x02, 0x00] (consume n t))
    | (False, h') \<Rightarrow> (h', absorb (error_bytes 3 (str ''invalid breakpoint index'')) (consume n t)))"
proof -
  define t1 where "t1 = consume 2 t"
  define t2 where "t2 = consume (length (int_bytes i)) t1"
  have inc: "incoming t1 = int_bytes i @ 0x00 # rest" "incoming t2 = 0x00 # rest"
    and good: "good t1" "good t2"
    using assms(2,3) by (simp_all add: t1_def t2_def)
  have n: "consume n t = consume 1 t2" using assms(4) by (simp add: t1_def t2_def numeral_3_eq_3)
  have idx: "duk_debug_read_int T (h, t1) = Some (i, (h, t2))"
    using assms(1) inc(1) good(1) read_int_bytes [of h t1 i "0x00 # rest"]
    by (simp add: connected_def t2_def)
  have "duk__debug_process_message T vm build other (h, t) =
      duk__debug_handle_del_break T (h, t1) \<bind> duk__debug_skip_to_eom T"
    using assms process_request [of h t "0x19" "int_bytes i @ 0x00 # rest" 2]
    by (simp add: duk__debug_handle_request_def t1_def)
  then show ?thesis unfolding n
    using assms(1) good inc(2)
    by (simp add: duk__debug_handle_del_break_def idx duk_debug_remove_breakpoint_def connected_def
        write_absorb Let_def skip_to_eom_byte)
qed

lemma process_get_locals:
  assumes "connected h" and "good t" and "incoming t = 0x01 # 0x9d # 0x00 # rest"
    and "callstack_top vm > 0" and "vm_varmap vm (-1) = Some vars"
  shows "duk__debug_process_message T vm build other (h, t) =
    Some (h\<lparr>dbg_next_byte := 0\<rparr>, absorb ([0x02] @ locals_bytes vars @ [0x00]) (consume 3 t))"
  using assms process_request [of h t "0x1d" "0x00 # rest" 2]
  by (simp add: duk__debug_handle_request_def duk__debug_handle_get_locals_def
      read_level_def peek_byte_available wire_simps connected_def write_absorb write_locals_absorb
      skip_to_eom_next)

text \<open>A message whose arguments have not all arrived keeps the server waiting.\<close>

lemma process_add_break_waits:
  assumes "connected h" and "good t" and "incoming t = [0x01, 0x98, 0x12, a, b] @ rest"
    and "length rest < unat (push_bit 8 (ucast a) OR ucast b :: u16)"
  shows "duk__debug_process_message T vm build other (h, t) = None"
  using assms process_request [of h t "0x18" "[0x12, a, b] @ rest" 2]
  by (simp add: duk__debug_handle_request_def duk__debug_handle_add_break_def connected_def
      duk_debug_read_hstring_def read_byte_available read_uint16_available
      duk__debug_read_hstring_raw_def read_bytes_waits)

end

end
