(* ===== verification/Debug_Session.thy ===== *)
theory Debug_Session
  imports Duk_Debugger Duk_Debug_Server
begin

text \<open>
  A debug session: the client \<open>ce::DukDebugger\<close> attached to Duktape's debugger. The transport
  callbacks of \<^verbatim>\<open>src/unifyframework/platform/DukDebugger.cpp\<close> satisfy what Duktape's connection code
  relies on, and what one side writes is what the other side reads, for the values on which
  the two implementations agree.
\<close>

section \<open>The callbacks\<close>

definition client_transport :: "bool \<Rightarrow> debugger transport" where
  "client_transport sc =
     \<lparr>read_cb = duk_trans_dvalue_read, write_cb = duk_trans_dvalue_write sc,
      peek_cb = duk_trans_dvalue_peek, detached_cb = (\<lambda>d. d)\<rparr>"

definition client_ok :: "debugger \<Rightarrow> bool" where
  "client_ok d \<longleftrightarrow> receiver_ok (grammarReceiver d)"

definition client_consume :: "nat \<Rightarrow> debugger \<Rightarrow> debugger" where
  "client_consume k d = d\<lparr>outputBuffer := drop k (outputBuffer d)\<rparr>"

definition client_absorb :: "bool \<Rightarrow> bytes \<Rightarrow> debugger \<Rightarrow> debugger" where
  "client_absorb sc bs d = (if bs = [] then d else snd (duk_trans_dvalue_write sc bs d))"

lemma on_message_outputBuffer:
  "on_message m (d\<lparr>outputBuffer := b\<rparr>) = (on_message m d)\<lparr>outputBuffer := b\<rparr>"
  by (cases m) (simp_all add: step_simps split: list.split)

lemma write_consume:
  "snd (duk_trans_dvalue_write sc bs (d\<lparr>outputBuffer := b\<rparr>)) =
    (snd (duk_trans_dvalue_write sc bs d))\<lparr>outputBuffer := b\<rparr>"
  by (simp add: duk_trans_dvalue_write_def put_def case_prod_beta
      put_loop_commute [of on_message "\<lambda>d. d\<lparr>outputBuffer := b\<rparr>"] on_message_outputBuffer)

lemma put_loop_outputBuffer:
  "cb = on_message \<Longrightarrow> outputBuffer (snd (put_loop sc cb g d)) = outputBuffer d"
proof (induction sc cb g d rule: put_loop.induct)
  case (1 sc cb g d)
  have "outputBuffer (dispatch on_message m d) = outputBuffer d" for m
  proof -
    have "outputBuffer (on_message x d) = outputBuffer d" for x
      by (cases x) (simp_all add: step_simps split: list.split)
    then show ?thesis by (simp add: dispatch_def split: option.split)
  qed
  with 1 show ?case by (subst put_loop.simps) (auto split: option.split)
qed

lemma write_outputBuffer:
  "outputBuffer (snd (duk_trans_dvalue_write sc bs d)) = outputBuffer d"
  by (simp add: duk_trans_dvalue_write_def put_def case_prod_beta put_loop_outputBuffer)

lemma client_absorb_append:
  "client_ok d \<Longrightarrow> client_absorb sc b (client_absorb sc a d) = client_absorb sc (a @ b) d"
  by (cases "a = []"; cases "b = []")
    (simp_all add: client_absorb_def client_ok_def write_append [symmetric])

interpretation session: debug_transport "client_transport sc" client_ok outputBuffer client_consume
  "client_absorb sc" for sc
proof
  fix d :: debugger and n :: nat
  assume "outputBuffer d \<noteq> []" "n > 0"
  then show "\<exists>k > 0. k \<le> n \<and> k \<le> length (outputBuffer d) \<and>
      read_cb (client_transport sc) n d = Some (take k (outputBuffer d), client_consume k d)"
    by (intro exI [of _ "min n (length (outputBuffer d))"])
      (auto simp: client_transport_def duk_trans_dvalue_read_def innerSendData_def client_consume_def
        min_def)
qed (auto simp: client_transport_def duk_trans_dvalue_read_def client_absorb_def client_ok_def
       client_consume_def duk_trans_dvalue_peek_def write_receiver_ok write_consume
       write_outputBuffer client_absorb_append [unfolded client_absorb_def client_ok_def] add.commute,
       simp_all add: duk_trans_dvalue_write_def case_prod_beta)

section \<open>Client and server agree on the encodings\<close>

lemma int_bytes_short: "uint x \<le> 0x3f \<Longrightarrow> int_bytes x = [0x80 + ucast x]"
  using sint_u32_small [of x] by (simp add: int_bytes_def)

lemma int_bytes_long:
  "0x3f < uint x \<Longrightarrow> uint x \<le> 0x3fff \<Longrightarrow> int_bytes x = [0xc0 + ucast (drop_bit 8 x), ucast x]"
  using sint_u32_small [of x] by (simp add: int_bytes_def)

lemma DukDebugInteger_int_bytes:
  assumes "uint x \<le> 0x3fff"
  shows "DukDebugInteger sc (int_bytes x @ rest) = Some (uint x, rest)"
proof (cases "uint x \<le> 0x3f")
  case True
  then have "uint (0x80 + ucast x :: byte) = 0x80 + uint x"
    by (simp add: uint_word_ariths unsigned_eqs)
  with True show ?thesis
    by (simp add: int_bytes_short DukDebugInteger_def shortInteger_def parser_simps wire_simps
        word_le_def)
next
  case False
  have "uint x div 256 \<le> 63" "0 \<le> uint x div 256"
    using assms by (simp_all add: pos_imp_zdiv_nonneg_iff)
  then have "uint (0xc0 + ucast (drop_bit 8 x) :: byte) = 0xc0 + uint x div 256"
    by (simp add: uint_word_ariths unsigned_eqs drop_bit_eq_div uint_div)
  moreover have "uint (ucast x :: byte) = uint x mod 256" by (simp add: unsigned_eqs uint_mod)
  ultimately show ?thesis using False assms \<open>uint x div 256 \<le> 63\<close> \<open>0 \<le> uint x div 256\<close>
    by (simp add: int_bytes_long DukDebugInteger_def shortInteger_def longInteger_def parser_simps
        wire_simps word_le_def)
qed

lemma DukDebugStr_string_bytes:
  assumes "length cs \<le> 0xffff"
  shows "DukDebugStr sc (string_bytes cs @ rest) = Some (cs, rest)"
proof (cases "length cs \<le> 31")
  case True
  then have u: "uint (0x60 + of_nat (length cs) :: byte) = 0x60 + int (length cs)"
    by (simp add: uint_word_ariths unsigned_eqs)
  then have "char_of_byte sc (0x60 + of_nat (length cs)) - 0x60 = int (length cs)"
    using True by (simp add: char_of_byte_def sint_byte)
  with True u show ?thesis
    by (simp add: string_bytes_def strbuf_header_def DukDebugStr_def lenStrType1_def parser_simps
        word_le_def)
next
  case False
  have "unat (of_nat (length cs div 256) :: byte) = length cs div 256"
    using assms by (simp add: unsigned_eqs)
  moreover have "unat (of_nat (length cs mod 256) :: byte) = length cs mod 256"
    by (simp add: unsigned_eqs)
  ultimately have "load_big 0 [of_nat (length cs div 256), of_nat (length cs mod 256)] = length cs"
    by simp
  with False assms show ?thesis
    by (simp add: string_bytes_def strbuf_header_def DukDebugStr_def lenStrType1_def lenStrType2_def
        big_word_def parser_simps word_le_def any_binary_parser_eq)
qed

lemma load_big_step: "n div (k * 256) * 256 + n div k mod 256 = n div (k :: nat)"
  by (simp add: div_mult2_eq)

lemma load_big_double_bytes: "load_big 0 (double_bytes d) = unat d"
proof -
  have d: "unat d < 2 ^ 64" using unsigned_less [of d, where ?'a = nat] by simp
  then have b: "unat (ucast (drop_bit k d) :: byte) = unat d div 2 ^ k mod 256" for k
    by (simp add: unsigned_ucast_eq unsigned_drop_bit_eq take_bit_eq_mod
        drop_bit_eq_div [where ?'a = nat])
  have top: "unat d div 2 ^ 56 mod 256 = unat d div 2 ^ 56" using d by simp
  have s: "unat d div 2 ^ (k + 8) * 256 + unat d div 2 ^ k mod 256 = unat d div 2 ^ k" for k
    using load_big_step [of "unat d" "2 ^ k"] by (simp add: power_add)
  have "double_bytes d = map (\<lambda>k. ucast (drop_bit k d)) [56, 48, 40, 32, 24, 16, 8, 0]"
    by (simp add: double_bytes_def upt_rec)
  then show ?thesis
    using s [of 48] s [of 40] s [of 32] s [of 24] s [of 16] s [of 8] s [of 0] top
    by (simp del: drop_bit_0 add: b)
qed

lemma encode_int_bytes:
  assumes "0 \<le> l" and "l \<le> 16383"
  shows "encode_int l = int_bytes (of_int l)"
proof -
  have u: "uint (of_int l :: u32) = l" using assms by (simp add: unsigned_of_int take_bit_int_eq_self)
  show ?thesis
  proof (cases "l \<le> 63")
    case True
    moreover have "(of_int l :: byte) = ucast (of_int l :: u32)"
      by (simp add: word_uint_eq_iff unsigned_of_int unsigned_eqs mod_mod_cancel)
    ultimately show ?thesis using assms u by (simp add: encode_int_def int_bytes_short)
  next
    case False
    have "(of_int (l div 256) :: byte) = ucast (drop_bit 8 (of_int l :: u32))"
      "(of_int (l mod 256) :: byte) = ucast (of_int l :: u32)"
      using assms by (simp_all add: word_uint_eq_iff unsigned_of_int unsigned_eqs drop_bit_eq_div
          uint_div u mod_mod_cancel)
    with False show ?thesis using assms u
      by (simp add: encode_int_def int_bytes_long)
  qed
qed

lemma encode_fileName_bytes:
  "length f \<le> 31 \<Longrightarrow> encode_fileName f = string_bytes f"
  by (simp add: encode_fileName_def string_bytes_def strbuf_header_def)

lemma add_request_bytes:
  assumes "length f \<le> 31" and "0 \<le> l" and "l \<le> 16383"
  shows "fst (CreateAddBreakpointRequest f l g) =
    [0x01, 0x98] @ string_bytes f @ int_bytes (of_int l) @ [0x00]"
  using assms
  by (simp add: CreateAddBreakpointRequest_def wire_simps encode_int_bytes encode_fileName_bytes)

lemma remove_request_bytes:
  assumes "0 \<le> i" and "i \<le> 16383"
  shows "fst (CreateRemoveBreakpointRequest i g) = [0x01, 0x99] @ int_bytes (of_int i) @ [0x00]"
  using assms by (simp add: CreateRemoveBreakpointRequest_def wire_simps encode_int_bytes)

lemma parse_reply_int:
  "uint x \<le> 0x3fff \<Longrightarrow>
    qi_parse sc GReplyInt (0x02 # int_bytes x @ [0x00]) = Some (MReplyInt (uint x), [])"
  by (simp add: qi_parse.simps ReplyIntGrammar_def sequence_def omit_def succeed_def wire_simps
      DukDebugInteger_int_bytes)

lemma parse_reply: "qi_parse sc GReply [0x02, 0x00] = Some (MReply [], [])"
  by (simp add: qi_parse.simps ReplyGrammar_def parser_simps wire_simps)

section \<open>Notifications and local variables\<close>

lemma parse_status:
  assumes "callstack vm = act # acts" and "length (frame_fileName act) \<le> 0xffff"
    and "length (frame_name act) \<le> 0xffff" and "uint (duk_debug_curr_line vm) \<le> 0x3fff"
    and "frame_pc act \<le> 0x3fff"
  shows "qi_parse sc GStatus (status_bytes paused vm) =
    Some (MStatus \<lparr>sn_state = of_bool paused, sn_fileName = frame_fileName act,
      sn_funcName = frame_name act, sn_lineNumber = uint (duk_debug_curr_line vm),
      sn_pc = int (frame_pc act)\<rparr>, [])"
proof -
  have pc: "uint (of_nat (frame_pc act) :: u32) = int (frame_pc act)"
    using assms(5) by (simp add: unsigned_of_nat take_bit_nat_eq_self)
  have "int_bytes (of_bool paused) = [if paused then 0x81 else 0x80]" by simp
  then have state: "DukDebugInteger sc ((if paused then 0x81 else 0x80) # rest) = Some (of_bool paused, rest)" for rest
    using DukDebugInteger_int_bytes [of "of_bool paused" sc rest] by (cases paused) simp_all
  show ?thesis
    using assms DukDebugStr_string_bytes DukDebugInteger_int_bytes [of "duk_debug_curr_line vm"]
      DukDebugInteger_int_bytes [of "of_nat (frame_pc act)"]
    by (simp add: qi_parse.simps StatusNotificationGrammar_def status_bytes_def sequence_def omit_def
        succeed_def wire_simps state pc)
qed

lemma parse_throw:
  assumes "length msg \<le> 0xffff" and "length fileName \<le> 0xffff" and "uint line \<le> 0x3fff"
  shows "qi_parse sc GException (throw_bytes fatal msg fileName line) =
    Some (MException \<lparr>en_fatal = of_bool fatal, en_msg = msg, en_fileName = fileName,
      en_line = uint line\<rparr>, [])"
proof -
  have fatal: "DukDebugInteger sc ((if fatal then 0x81 else 0x80) # rest) = Some (of_bool fatal, rest)" for rest
    using DukDebugInteger_int_bytes [of "of_bool fatal" sc rest] by (cases fatal) simp_all
  show ?thesis
    using assms DukDebugStr_string_bytes DukDebugInteger_int_bytes [of line]
    by (simp add: qi_parse.simps ExceptionNotificationGrammar_def throw_bytes_def sequence_def omit_def
        succeed_def wire_simps fatal)
qed

text \<open>
  What the client shows for a value, and the values it can read: no pointers, light functions or
  buffers, strings of at most 65535 bytes, and pointers of objects of at most 127 bytes (the
  count is read as a \<open>char\<close>).
\<close>

fun shown_value :: "bool \<Rightarrow> duk_tval \<Rightarrow> VarType" where
  "shown_value sc TAG_UNDEFINED = VarString (str ''undefined'')"
| "shown_value sc TAG_UNUSED = VarString (str ''unused/none'')"
| "shown_value sc TAG_NULL = VarString (str ''null'')"
| "shown_value sc (TAG_BOOLEAN b) = VarString (if b then str ''true'' else str ''false'')"
| "shown_value sc (TAG_STRING cs) = VarString cs"
| "shown_value sc (TAG_OBJECT c p) = VarClass \<lparr>number = char_of_byte sc c, data = p\<rparr>"
| "shown_value sc (TAG_NUMBER d) = VarDouble d"
| "shown_value sc _ = VarInt 0"

fun readable :: "duk_tval \<Rightarrow> bool" where
  "readable (TAG_POINTER _) = False"
| "readable (TAG_LIGHTFUNC _ _) = False"
| "readable (TAG_BUFFER _) = False"
| "readable (TAG_STRING cs) = (length cs \<le> 0xffff)"
| "readable (TAG_OBJECT c p) = (length p \<le> 127)"
| "readable _ = True"

lemma string_bytes_head:
  "length cs \<le> 0xffff \<Longrightarrow> \<exists>b bs. string_bytes cs = b # bs \<and> b \<in> str_first"
proof -
  assume len: "length cs \<le> 0xffff"
  have "\<exists>a r. DukDebugStr True (string_bytes cs @ []) = Some (a, r)"
    using DukDebugStr_string_bytes [OF len] by blast
  then show ?thesis using debug_str.starts by fastforce
qed

lemma debugValue_string:
  assumes "length cs \<le> 0xffff"
  shows "debugValue sc (string_bytes cs @ rest) = Some (VarString cs, rest)"
proof -
  obtain b bs where b: "string_bytes cs = b # bs" "b \<in> str_first"
    using string_bytes_head [OF assms] by blast
  then have "DukDebugInteger sc (string_bytes cs @ rest) = None"
    using first_disjoint(1) debug_int.rejects [of b] by auto
  then show ?thesis
    using DukDebugStr_string_bytes [OF assms] by (simp add: debugValue_def parser_simps)
qed

lemma debugValue_object:
  assumes "length p \<le> 127"
  shows "debugValue sc (tval_bytes (TAG_OBJECT c p) @ rest) =
    Some (VarClass \<lparr>number = char_of_byte sc c, data = p\<rparr>, rest)"
proof -
  have "uint (of_nat (length p) :: byte) = int (length p)"
    using assms by (simp add: unsigned_of_nat take_bit_nat_eq_self)
  then have "char_of_byte sc (of_nat (length p)) = int (length p)"
    using assms by (simp add: char_of_byte_def sint_byte)
  moreover have "(0x1b :: byte) \<notin> int_first" "(0x1b :: byte) \<notin> str_first"
    by (auto simp: first_defs)
  ultimately show ?thesis
    by (simp add: debugValue_def sequence_def alternative_def succeed_def debug_int.rejects
        debug_str.rejects debug_double.rejects DukDebugJsClass_def lenStrType_def wire_simps)
qed

lemma debugValue_tval:
  assumes "readable v"
  shows "debugValue sc (tval_bytes v @ rest) = Some (shown_value sc v, rest)"
proof (cases v)
  case (TAG_STRING cs)
  then show ?thesis using assms by (simp add: debugValue_string)
next
  case (TAG_OBJECT c p)
  then show ?thesis using assms debugValue_object by simp
next
  case (TAG_NUMBER d)
  have "(0x1a :: byte) \<notin> int_first" "(0x1a :: byte) \<notin> str_first" by (auto simp: first_defs)
  moreover have "length (double_bytes d) = 8" by (simp add: double_bytes_def)
  ultimately show ?thesis
    using load_big_double_bytes [of d]
    by (simp add: TAG_NUMBER debugValue_def sequence_def alternative_def succeed_def omit_def
        debug_int.rejects debug_str.rejects DukDebugDouble_def big_bin_double_def any_binary_parser_eq)
qed (use assms in \<open>simp_all add: debugValue_def DukDebugInteger_def DukDebugStr_def shortInteger_def
       longInteger_def lenStrType1_def lenStrType2_def undefinedStr_def nullStr_def trueStr_def
       falseStr_def unusedStr_def parser_simps word_le_def\<close>)

lemma parse_locals:
  assumes "list_all (\<lambda>(n, v). length n \<le> 0xffff \<and> readable v) vars"
  shows "qi_parse sc GLocals (0x02 # locals_bytes vars @ [0x00]) =
    Some (MLocals (map (\<lambda>(n, v). \<lparr>rnv_name = n, rnv_value = shown_value sc v\<rparr>) vars), [])"
proof -
  have elem: "ReplyNameValueGrammar sc ((\<lambda>(n, v). string_bytes n @ tval_bytes v) x @ t) =
      Some ((\<lambda>(n, v). \<lparr>rnv_name = n, rnv_value = shown_value sc v\<rparr>) x, t) \<and>
      (\<lambda>(n, v). string_bytes n @ tval_bytes v) x \<noteq> []" if "x \<in> set vars" for x t
  proof -
    obtain n v where x: "x = (n, v)" by fastforce
    with that assms have "length n \<le> 0xffff" "readable v" by (auto simp: list_all_iff)
    then show ?thesis
      using string_bytes_head [of n] DukDebugStr_string_bytes [of n sc] debugValue_tval [of v sc]
      by (auto simp: x ReplyNameValueGrammar_def sequence_def succeed_def)
  qed
  have "ReplyNameValueGrammar sc [0x00] = None"
    by (rule name_value.rejects) (auto simp: first_defs)
  then have "kleene (ReplyNameValueGrammar sc) (locals_bytes vars @ [0x00]) =
      Some (map (\<lambda>(n, v). \<lparr>rnv_name = n, rnv_value = shown_value sc v\<rparr>) vars, [0x00])"
    unfolding locals_bytes_def by (intro kleene_concat elem)
  then show ?thesis
    by (simp add: qi_parse.simps ReplyNameValueArrayGrammar_def sequence_def omit_def
        succeed_def wire_simps)
qed

section \<open>Sessions at rest\<close>

text \<open>
  Between two requests of a single user thread: nothing is on the way in either direction. The two
  sides agree when the id of a breakpoint in the client's table is its index in Duktape's array.
\<close>

definition quiet :: "debugger \<Rightarrow> bool" where
  "quiet d \<longleftrightarrow> debugger_ok d \<and> savedData (grammarReceiver d) = [] \<and>
     recognizerQueue (grammarReceiver d) = [] \<and> outputBuffer d = [] \<and> breakpointPendingList d = []"

definition agree :: "duk_heap \<Rightarrow> debugger \<Rightarrow> bool" where
  "agree h d \<longleftrightarrow> (\<forall>i. map_find (breakpointMap d) i =
     (if 0 \<le> i \<and> i < int (length (dbg_breakpoints h))
      then Some (fst (dbg_breakpoints h ! nat i), uint (snd (dbg_breakpoints h ! nat i)))
      else None))"

lemma quiet_initial: "quiet DukDebugger"
  using system_ok_initial [of 0]
  by (simp add: initial_system_def quiet_def DukDebugger_def InitDefaultRecognizers_def
      GrammarReceiver_def)

lemma absorb_reply:
  assumes "client_ok d" and "savedData (grammarReceiver d) = []"
    and "recognizerQueue (grammarReceiver d) = r # rs"
    and "qi_parse sc (grammar r) bs = Some (m, [])" and "bs \<noteq> []"
  shows "client_absorb sc bs d =
    (dispatch on_message (if callback r then Some m else None) d)
      \<lparr>grammarReceiver := (append_data bs (grammarReceiver d))\<lparr>savedData := [], recognizerQueue := rs\<rparr>\<rparr>"
  using put_reply [OF assms(1)[unfolded client_ok_def] assms(2-4), of on_message d] assms(5)
  by (simp add: client_absorb_def duk_trans_dvalue_write_def)

lemma process_added:
  assumes "quiet d" and "connected h" and "length (dbg_breakpoints h) < DUK_HEAP_MAX_BREAKPOINTS"
    and "find_breakpoint f l d = None" and "length f \<le> 31" and "0 \<le> l" and "l \<le> 16383"
  shows "\<exists>d'. duk__debug_process_message (client_transport sc) vm build other (h, AddBreakpoint f l d) =
      Some (h\<lparr>dbg_breakpoints := dbg_breakpoints h @ [(f, of_int l)], dbg_breakpoints_active := []\<rparr>, d') \<and>
    quiet d' \<and>
    breakpointMap d' = map_put (int (length (dbg_breakpoints h))) (f, l) (breakpointMap d)"
proof -
  define n where "n = length (dbg_breakpoints h)"
  define d1 where "d1 = AddBreakpoint f l d"
  define t where "t = client_consume (length (outputBuffer d1)) d1"
  define reply where "reply = (0x02 :: byte) # int_bytes (of_nat n) @ [0x00]"
  have n: "n < 16" using assms(3) by (simp add: n_def DUK_HEAP_MAX_BREAKPOINTS_def)
  then have un: "uint (of_nat n :: u32) = int n" by (simp add: unsigned_of_nat take_bit_nat_eq_self)
  have d1: "outputBuffer d1 = [0x01, 0x98] @ string_bytes f @ int_bytes (of_int l) @ [0x00]"
    "breakpointPendingList d1 = [(f, l)]" "breakpointMap d1 = breakpointMap d"
    "savedData (grammarReceiver d1) = []" "client_ok d1" "debugger_ok d1"
    "recognizerQueue (grammarReceiver d1) = [\<lparr>grammar = GReplyInt, callback = True\<rparr>]"
    using assms add_request_bytes [of f l "grammarReceiver d"]
    by (simp_all add: d1_def quiet_def step_simps debugger_ok_def client_ok_def reply_kinds_def)
  have proc: "duk__debug_process_message (client_transport sc) vm build other (h, d1) =
      Some (h\<lparr>dbg_breakpoints := dbg_breakpoints h @ [(f, of_int l)], dbg_breakpoints_active := []\<rparr>,
        client_absorb sc reply t)"
    using session.process_add_break [OF assms(2) d1(5), of f "of_int l" "[]"
        "length (outputBuffer d1)"] assms(3,5) d1(1)
    by (simp add: t_def reply_def n_def)
  have t: "client_ok t" "savedData (grammarReceiver t) = []"
    "recognizerQueue (grammarReceiver t) = [\<lparr>grammar = GReplyInt, callback = True\<rparr>]"
    using d1 by (simp_all add: t_def client_consume_def client_ok_def)
  have "qi_parse sc (grammar \<lparr>grammar = GReplyInt, callback = True\<rparr>) reply = Some (MReplyInt (int n), [])"
    using parse_reply_int [of "of_nat n" sc] n by (simp add: reply_def un)
  from absorb_reply [OF t this]
  have "client_absorb sc reply t =
      (onAddBreakpoint (int n) t)\<lparr>grammarReceiver :=
        (append_data reply (grammarReceiver t))\<lparr>savedData := [], recognizerQueue := []\<rparr>\<rparr>"
    by (simp add: reply_def dispatch_def)
  moreover have "quiet \<dots>" "breakpointMap \<dots> = map_put (int n) (f, l) (breakpointMap d)"
    using d1 by (auto simp: quiet_def t_def client_consume_def onAddBreakpoint_def debugger_ok_def
        receiver_ok_def append_data_def map_ok_put)
  ultimately show ?thesis using proc unfolding d1_def n_def by metis
qed

lemma of_int_u32_line: "0 \<le> l \<Longrightarrow> l \<le> 16383 \<Longrightarrow> uint (of_int l :: u32) = l"
  by (simp add: unsigned_of_int take_bit_int_eq_self)

lemma agree_add:
  assumes "agree h d" and "0 \<le> l" and "l \<le> 16383"
    and "dbg_breakpoints h' = dbg_breakpoints h @ [(f, of_int l)]"
    and "breakpointMap d' = map_put (int (length (dbg_breakpoints h))) (f, l) (breakpointMap d)"
  shows "agree h' d'"
  unfolding agree_def
proof
  fix i
  consider "i < 0" | "0 \<le> i" "i < int (length (dbg_breakpoints h))"
    | "i = int (length (dbg_breakpoints h))" | "i > int (length (dbg_breakpoints h))" by linarith
  then show "map_find (breakpointMap d') i =
      (if 0 \<le> i \<and> i < int (length (dbg_breakpoints h'))
       then Some (fst (dbg_breakpoints h' ! nat i), uint (snd (dbg_breakpoints h' ! nat i))) else None)"
    using assms by cases (auto simp: agree_def nth_append of_int_u32_line)
qed

lemma agree_lookup:
  "agree h d \<Longrightarrow> map_find (breakpointMap d) k = Some v \<longleftrightarrow>
    (\<exists>i < length (dbg_breakpoints h). k = int i \<and>
      v = (fst (dbg_breakpoints h ! i), uint (snd (dbg_breakpoints h ! i))))"
  unfolding agree_def by (cases k) auto

lemma agree_find:
  assumes "agree h d" and "map_ok (breakpointMap d)"
  shows "find_breakpoint f l d = None \<longleftrightarrow>
    (\<forall>b \<in> set (dbg_breakpoints h). (fst b, uint (snd b)) \<noteq> (f, l))"
proof -
  have "find_breakpoint f l d = None \<longleftrightarrow>
      (\<forall>k v. map_find (breakpointMap d) k = Some v \<longrightarrow> \<not> (fst v = f \<and> snd v = l))"
    unfolding find_breakpoint_def by (rule std_map.find_None_iff_lookup [OF assms(2)])
  also have "\<dots> \<longleftrightarrow> (\<forall>i < length (dbg_breakpoints h).
      (fst (dbg_breakpoints h ! i), uint (snd (dbg_breakpoints h ! i))) \<noteq> (f, l))"
    by (auto simp: agree_lookup [OF assms(1)])
  finally show ?thesis by (simp add: all_set_conv_all_nth)
qed

lemma process_removed:
  assumes "quiet d" and "connected h" and "k < length (dbg_breakpoints h)" and "k \<le> 16383"
    and "find_breakpoint f l d = Some (int k, v)"
  shows "\<exists>d'. duk__debug_process_message (client_transport sc) vm build other (h, RemoveBreakpoint f l d) =
      Some (h\<lparr>dbg_breakpoints := take k (dbg_breakpoints h) @ drop (Suc k) (dbg_breakpoints h),
        dbg_breakpoints_active := []\<rparr>, d') \<and>
    quiet d' \<and> breakpointMap d' = map_erase (int k) (breakpointMap d)"
proof -
  define d1 where "d1 = RemoveBreakpoint f l d"
  define t where "t = client_consume (length (outputBuffer d1)) d1"
  define r where "r = \<lparr>grammar = GReply, callback = replyRemoveBreakpointReceiver (grammarReceiver d)\<rparr>"
  have uk: "unat (of_int (int k) :: u32) = k" using assms(4) by (simp add: unsigned_eqs)
  have d1: "outputBuffer d1 = [0x01, 0x99] @ int_bytes (of_int (int k)) @ [0x00]"
    "breakpointPendingList d1 = []" "breakpointMap d1 = map_erase (int k) (breakpointMap d)"
    "savedData (grammarReceiver d1) = []" "client_ok d1" "debugger_ok d1"
    "recognizerQueue (grammarReceiver d1) = [r]"
    using assms remove_request_bytes [of "int k" "grammarReceiver d"]
    by (simp_all add: d1_def r_def quiet_def step_simps debugger_ok_def client_ok_def reply_kinds_def
        map_ok_erase)
  have proc: "duk__debug_process_message (client_transport sc) vm build other (h, d1) =
      Some (h\<lparr>dbg_breakpoints := take k (dbg_breakpoints h) @ drop (Suc k) (dbg_breakpoints h),
        dbg_breakpoints_active := []\<rparr>, client_absorb sc [0x02, 0x00] t)"
    using session.process_del_break [OF assms(2) d1(5), of "of_int (int k)" "[]"
        "length (outputBuffer d1)"] assms(3) d1(1) uk
    by (simp add: t_def duk_debug_remove_breakpoint_def)
  have t: "client_ok t" "savedData (grammarReceiver t) = []" "recognizerQueue (grammarReceiver t) = [r]"
    using d1 by (simp_all add: t_def client_consume_def client_ok_def)
  have "qi_parse sc (grammar r) [0x02, 0x00] = Some (MReply [], [])"
    by (simp add: r_def parse_reply)
  from absorb_reply [OF t this]
  have "client_absorb sc [0x02, 0x00] t =
      t\<lparr>grammarReceiver :=
        (append_data [0x02, 0x00] (grammarReceiver t))\<lparr>savedData := [], recognizerQueue := []\<rparr>\<rparr>"
    by (simp add: dispatch_def onRemoveBreakpoint_def split: if_split)
  moreover have "quiet \<dots>" "breakpointMap \<dots> = map_erase (int k) (breakpointMap d)"
    using d1 by (auto simp: quiet_def t_def client_consume_def debugger_ok_def receiver_ok_def
        append_data_def)
  ultimately show ?thesis using proc unfolding d1_def by metis
qed

lemma agree_removed:
  assumes "agree h d" and "k < length (dbg_breakpoints h)"
    and "dbg_breakpoints h' = take k (dbg_breakpoints h) @ drop (Suc k) (dbg_breakpoints h)"
    and "breakpointMap d' = map_erase (int k) (breakpointMap d)"
  shows "agree h' d' \<longleftrightarrow> Suc k = length (dbg_breakpoints h)"
proof
  assume last: "Suc k = length (dbg_breakpoints h)"
  show "agree h' d'"
    unfolding agree_def
  proof
    fix i
    show "map_find (breakpointMap d') i =
        (if 0 \<le> i \<and> i < int (length (dbg_breakpoints h'))
         then Some (fst (dbg_breakpoints h' ! nat i), uint (snd (dbg_breakpoints h' ! nat i))) else None)"
      using assms last by (cases i) (auto simp: agree_def)
  qed
next
  assume agree': "agree h' d'"
  show "Suc k = length (dbg_breakpoints h)"
  proof (rule ccontr)
    assume "Suc k \<noteq> length (dbg_breakpoints h)"
    with assms(2,3) have "k < length (dbg_breakpoints h')" by simp
    with agree' have "map_find (breakpointMap d') (int k) \<noteq> None" by (simp add: agree_def)
    then show False using assms(4) by simp
  qed
qed

section \<open>Properties of a session\<close>

text \<open>The user adds breakpoints one after the other and Duktape handles each request.\<close>

fun add_all ::
  "bool \<Rightarrow> duk_vm \<Rightarrow> duk_build \<Rightarrow> (u32 \<Rightarrow> debugger dbg \<Rightarrow> debugger dbg option) \<Rightarrow>
    breakpoint list \<Rightarrow> debugger dbg \<Rightarrow> debugger dbg option" where
  "add_all sc vm build other [] s = Some s"
| "add_all sc vm build other ((f, l) # bs) (h, d) =
     (case duk__debug_process_message (client_transport sc) vm build other (h, AddBreakpoint f l d) of
        None \<Rightarrow> None
      | Some s \<Rightarrow> add_all sc vm build other bs s)"

definition acceptable :: "breakpoint \<Rightarrow> bool" where
  "acceptable b \<longleftrightarrow> length (fst b) \<le> 31 \<and> 0 \<le> snd b \<and> snd b \<le> 16383"


definition fresh_heap :: duk_heap where
  "fresh_heap = \<lparr>dbg_read_cb = True, dbg_write_cb = True, dbg_peek_cb = True, dbg_detached_cb = True,
     dbg_detaching = False, dbg_processing = False, dbg_paused = True, dbg_state_dirty = True,
     dbg_force_restart = False, dbg_step_type = 0, dbg_step_thread = False, dbg_step_csindex = 0,
     dbg_step_startline = 0, dbg_have_next_byte = False, dbg_next_byte = 0, dbg_breakpoints = [],
     dbg_breakpoints_active = []\<rparr>"

definition empty_vm :: duk_vm where
  "empty_vm = \<lparr>vm_threads = [], vm_varmap = (\<lambda>_. None), vm_getvar = (\<lambda>_ _. None)\<rparr>"

definition some_build :: duk_build where
  "some_build = \<lparr>DUK_VERSION = 10400, DUK_GIT_DESCRIBE = str ''v1.4.0'',
     DUK_USE_TARGET_INFO = str ''unknown'', double_order = 1\<rparr>"

lemma fresh_session: "connected fresh_heap" "agree fresh_heap DukDebugger"
  by (simp_all add: fresh_heap_def connected_def agree_def DukDebugger_def map_find_def)


text \<open>
  C9: Removing a breakpoint is handled by Duktape and acknowledged, but it keeps the two sides in
  agreement only when it is the last one of Duktape's array. Duktape closes the gap in its
  array, which renumbers every later breakpoint, while the client keeps the old ids.
\<close>

theorem session_remove_breakpoint:
  assumes "quiet d" and "connected h" and "agree h d" and "k < length (dbg_breakpoints h)"
    and "length (dbg_breakpoints h) \<le> DUK_HEAP_MAX_BREAKPOINTS"
    and "find_breakpoint f l d = Some (int k, v)"
  shows "\<exists>h' d'. duk__debug_process_message (client_transport sc) vm build other
      (h, RemoveBreakpoint f l d) = Some (h', d') \<and> quiet d' \<and> connected h' \<and>
    dbg_breakpoints h' = take k (dbg_breakpoints h) @ drop (Suc k) (dbg_breakpoints h) \<and>
    (agree h' d' \<longleftrightarrow> Suc k = length (dbg_breakpoints h))"
proof -
  have "k \<le> 16383" using assms(4,5) by (simp add: DUK_HEAP_MAX_BREAKPOINTS_def)
  from process_removed [OF assms(1,2,4) this assms(6), of sc vm build other] obtain d' where
    d': "duk__debug_process_message (client_transport sc) vm build other (h, RemoveBreakpoint f l d) =
      Some (h\<lparr>dbg_breakpoints := take k (dbg_breakpoints h) @ drop (Suc k) (dbg_breakpoints h),
        dbg_breakpoints_active := []\<rparr>, d')"
    "quiet d'" "breakpointMap d' = map_erase (int k) (breakpointMap d)" by blast
  then show ?thesis
    using assms(2) agree_removed [OF assms(3,4) _ d'(3)] by (simp add: connected_def)
qed

lemma agree_two:
  "agree (fresh_heap\<lparr>dbg_breakpoints := [(f, l), (f', l')]\<rparr>)
     (DukDebugger\<lparr>breakpointMap := [(0, (f, uint l)), (1, (f', uint l'))]\<rparr>)"
  unfolding agree_def
proof
  fix i :: int
  consider "i < 0" | "i = 0" | "i = 1" | "i > 1" by linarith
  then show "map_find (breakpointMap
        (DukDebugger\<lparr>breakpointMap := [(0, (f, uint l)), (1, (f', uint l'))]\<rparr>)) i =
      (if 0 \<le> i \<and> i < int (length (dbg_breakpoints
             (fresh_heap\<lparr>dbg_breakpoints := [(f, l), (f', l')]\<rparr>)))
       then Some (fst (dbg_breakpoints (fresh_heap\<lparr>dbg_breakpoints := [(f, l), (f', l')]\<rparr>) ! nat i),
         uint (snd (dbg_breakpoints (fresh_heap\<lparr>dbg_breakpoints := [(f, l), (f', l')]\<rparr>) ! nat i)))
       else None)"
    by cases (auto simp: map_find_def)
qed

theorem session_remove_breakpoint_witness:
  "\<exists>h' d'. duk__debug_process_message (client_transport True) empty_vm some_build (\<lambda>_ _. None)
      (fresh_heap\<lparr>dbg_breakpoints := [(str ''a'', 3), (str ''b'', 7)]\<rparr>,
       RemoveBreakpoint (str ''a'') 3
         (DukDebugger\<lparr>breakpointMap := [(0, (str ''a'', 3)), (1, (str ''b'', 7))]\<rparr>)) = Some (h', d') \<and>
    dbg_breakpoints h' = [(str ''b'', 7)] \<and> \<not> agree h' d'"
  using session_remove_breakpoint [of "DukDebugger\<lparr>breakpointMap := [(0, (str ''a'', 3)), (1, (str ''b'', 7))]\<rparr>"
      "fresh_heap\<lparr>dbg_breakpoints := [(str ''a'', 3), (str ''b'', 7)]\<rparr>" 0 "str ''a''" 3 "(str ''a'', 3)"
      True empty_vm some_build "\<lambda>_ _. None"]
    agree_two [of "str ''a''" 3 "str ''b''" 7] quiet_initial fresh_session(1)
  by (auto simp: quiet_def debugger_ok_def connected_def find_breakpoint_def map_ok_def
      DUK_HEAP_MAX_BREAKPOINTS_def)

text \<open>
  A client with the recognizers of its constructor that shows state changes, locals and exceptions,
  and that has already seen the status notification that Duktape sends first.
\<close>

definition watching :: "debugger \<Rightarrow> bool" where
  "watching d \<longleftrightarrow> client_ok d \<and> savedData (grammarReceiver d) = [] \<and>
     defaultRecognizers (grammarReceiver d) =
       [\<lparr>grammar = GVersion, callback = True\<rparr>, \<lparr>grammar = GStatus, callback = True\<rparr>,
        \<lparr>grammar = GException, callback = True\<rparr>] \<and>
     firstPause d \<and> OnDebuggerStateChangedFunc d \<and> OnDebuggerGetLocalsFunc d \<and>
     OnReceiveExceptionNotificationFunc d"

lemma absorb_notification:
  assumes "watching d" and "k \<in> {GStatus, GException}"
    and "qi_parse sc k bs = Some (m, [])" and "bs \<noteq> []"
  shows "client_absorb sc bs d = (on_message m d)
      \<lparr>grammarReceiver := (append_data bs (grammarReceiver d))\<lparr>savedData := []\<rparr>\<rparr>"
proof -
  have "put sc on_message (grammarReceiver d) bs d =
      ((append_data bs (grammarReceiver d))\<lparr>savedData := []\<rparr>,
       dispatch on_message (if True then Some m else None) d)"
    by (rule put_notification)
      (use assms in \<open>auto simp: watching_def client_ok_def default_kinds_def\<close>)
  then show ?thesis
    using assms(4) by (simp add: client_absorb_def duk_trans_dvalue_write_def dispatch_def)
qed

definition example_frame :: vm_frame where
  "example_frame = \<lparr>frame_fileName = str ''a.js'', frame_name = str ''f'', frame_pc = 70,
     frame_pc2line = (\<lambda>_. 200)\<rparr>"

definition example_vm :: duk_vm where
  "example_vm =
     \<lparr>vm_threads = [[example_frame]],
      vm_varmap = (\<lambda>_. Some [(str ''x'', TAG_NUMBER 0x3ff0000000000000), (str ''s'', TAG_STRING (str ''hi''))]),
      vm_getvar = (\<lambda>_ _. None)\<rparr>"

definition example_client :: debugger where
  "example_client = DukDebugger\<lparr>firstPause := True, OnDebuggerStateChangedFunc := True,
     OnDebuggerGetLocalsFunc := True, OnReceiveExceptionNotificationFunc := True\<rparr>"

lemma example_facts:
  "callstack example_vm = [example_frame]" "duk_debug_curr_line example_vm = 200"
  "client_calls example_client = []" "dbg_paused fresh_heap"
  by (simp_all add: example_vm_def example_frame_def callstack_def duk_debug_curr_line_def
      example_client_def DukDebugger_def fresh_heap_def)

lemma example_watching: "watching example_client"
  using quiet_initial
  by (simp add: watching_def example_client_def client_ok_def quiet_def debugger_ok_def)
    (simp add: DukDebugger_def InitDefaultRecognizers_def GrammarReceiver_def)



text \<open>
  A throw notification for an \<open>Error\<close> instance reaches the client's callback with the message,
  file name, line and fatal flag that Duktape sent.
\<close>

theorem session_throw:
  assumes "connected h" and "watching d" and "thrown_error err = Some (fileName, line)"
    and "length (thrown_string err) \<le> 0xffff" and "length fileName \<le> 0xffff" and "uint line \<le> 0x3fff"
  shows "\<exists>d'. duk_debug_send_throw (client_transport sc) vm err fatal (h, d) = Some (h, d') \<and>
    watching d' \<and>
    client_calls d' = client_calls d @
      [MException \<lparr>en_fatal = of_bool fatal, en_msg = thrown_string err, en_fileName = fileName,
        en_line = uint line\<rparr>]"
proof -
  have "client_ok d" using assms(2) by (simp add: watching_def)
  then have "duk_debug_send_throw (client_transport sc) vm err fatal (h, d) =
      Some (h, client_absorb sc (throw_bytes fatal (thrown_string err) fileName line) d)"
    using session.send_throw_absorb assms(1,3) by (simp add: connected_def)
  moreover note absorb_notification [OF assms(2) _ parse_throw [OF assms(4-6)]]
  ultimately show ?thesis
    using assms(2)
    by (simp add: throw_bytes_def onReceiveExceptionNotification_def watching_def client_ok_def
        receiver_ok_def append_data_def default_kinds_def)
qed

theorem session_throw_witness:
  "\<exists>d'. duk_debug_send_throw (client_transport True) example_vm
      \<lparr>thrown_string = str ''TypeError'', thrown_error = Some (str ''a.js'', 12)\<rparr> True
      (fresh_heap, example_client) = Some (fresh_heap, d') \<and>
    client_calls d' = [MException \<lparr>en_fatal = 1, en_msg = str ''TypeError'',
      en_fileName = str ''a.js'', en_line = 12\<rparr>]"
  using session_throw [OF fresh_session(1) example_watching,
      of "\<lparr>thrown_string = str ''TypeError'', thrown_error = Some (str ''a.js'', 12)\<rparr>" "str ''a.js''" 12
        True example_vm True]
  by (auto simp: example_facts)





end
