(* ===== verification/Notification_Center.thy ===== *)
theory Notification_Center
  imports Std_Map "HOL-Library.List_Lexorder"
begin

text \<open>
  \<open>ce::NotificationCenter\<close> of \<^verbatim>\<open>src/unifyframework/include/NotificationCenter.cpp\<close>: observers registered under a
  name, for the platform (Objective-C or JNI) and for JavaScript, and the dispatch of a notification.

  Pointers to functions, targets and selectors are numbers, \<open>None\<close> is the null pointer. Strings are
  ordered as \<open>std::string\<close> orders them, bytewise. An operation returns \<open>None\<close> when the C++
  code has undefined behaviour: it erases past the end of a vector, goes on iterating with an
  invalidated iterator, or builds a \<open>std::string\<close> from a null pointer. The callbacks of
  \<open>notify\<close> are recorded in the order of the calls; they only post work to other threads.
\<close>

section \<open>State\<close>

datatype platform = UNIFY_IOS | UNIFY_ANDROID

record observer =
  func :: "nat option"
  objcTarget :: "nat option"
  objcLastTarget :: "nat option"
  objcCallback :: "nat option"
  className :: bytes
  tag :: bytes
  jsCallback :: "nat option"

definition new_observer :: observer where
  "new_observer =
     \<lparr>func = None, objcTarget = None, objcLastTarget = None, objcCallback = None,
      className = [], tag = [], jsCallback = None\<rparr>"

type_synonym center = "(bytes, observer list) std_map"

text \<open>\<open>_observers[name]\<close>: the entry is created when there is none.\<close>

definition observers_at :: "bytes \<Rightarrow> center \<Rightarrow> observer list" where
  "observers_at name c = (case map_find c name of None \<Rightarrow> [] | Some obs \<Rightarrow> obs)"

definition touch :: "bytes \<Rightarrow> center \<Rightarrow> center" where
  "touch name c = (case map_find c name of None \<Rightarrow> map_put name [] c | Some _ \<Rightarrow> c)"

definition push_observer :: "bytes \<Rightarrow> observer \<Rightarrow> center \<Rightarrow> center" where
  "push_observer name obs c = map_put name (observers_at name c @ [obs]) c"

section \<open>Removing\<close>

definition erase_at :: "nat \<Rightarrow> 'a list \<Rightarrow> 'a list option" where
  "erase_at i xs = (if i < length xs then Some (take i xs @ drop (Suc i) xs) else None)"

fun erase_each :: "nat list \<Rightarrow> 'a list \<Rightarrow> 'a list option" where
  "erase_each [] xs = Some xs"
| "erase_each (i # is) xs =
     (case erase_at i xs of None \<Rightarrow> None | Some ys \<Rightarrow> erase_each is ys)"

fun del_indexes :: "('a \<Rightarrow> bool) \<Rightarrow> nat \<Rightarrow> 'a list \<Rightarrow> nat list" where
  "del_indexes checker i [] = []"
| "del_indexes checker i (x # xs) =
     (if checker x then i # del_indexes checker (Suc i) xs else del_indexes checker (Suc i) xs)"

definition removeObserverByCondition :: "bytes \<Rightarrow> (observer \<Rightarrow> bool) \<Rightarrow> center \<Rightarrow> center option" where
  "removeObserverByCondition name checker c =
     (let obs = observers_at name c
      in if obs = [] then Some (touch name c)
         else case erase_each (del_indexes checker 0 obs) obs of
           None \<Rightarrow> None
         | Some obs' \<Rightarrow> Some (map_put name obs' c))"

text \<open>The loop variable is a copy of the map entry, so what is erased is erased from the copy.\<close>

fun erase_in_copies :: "(observer \<Rightarrow> bool) \<Rightarrow> (bytes \<times> observer list) list \<Rightarrow> bool" where
  "erase_in_copies checker [] = True"
| "erase_in_copies checker ((name, obs) # rest) =
     (case erase_each (del_indexes checker 0 obs) obs of
        None \<Rightarrow> False
      | Some _ \<Rightarrow> erase_in_copies checker rest)"

definition removeAllObserversByCondition :: "(observer \<Rightarrow> bool) \<Rightarrow> center \<Rightarrow> center option" where
  "removeAllObserversByCondition checker c = (if erase_in_copies checker c then Some c else None)"

section \<open>Objective-C\<close>

definition addObserver_last :: "bytes \<Rightarrow> nat option \<Rightarrow> nat option \<Rightarrow> nat option \<Rightarrow> center \<Rightarrow> center" where
  "addObserver_last name target objsLastTarget selector c =
     push_observer name (new_observer\<lparr>objcTarget := target, objcLastTarget := objsLastTarget,
       objcCallback := selector\<rparr>) c"

text \<open>
  The inner loop erases from the vector it iterates over; after the first erasure the iterators of
  the range-based loop are invalid.
\<close>

definition removeObservers :: "bytes \<Rightarrow> nat option \<Rightarrow> nat option \<Rightarrow> center \<Rightarrow> center option" where
  "removeObservers name target objsLastTarget c =
     (case map_find c name of
        None \<Rightarrow> Some c
      | Some obs \<Rightarrow>
          (if \<exists>ob \<in> set obs. objcLastTarget ob = objsLastTarget \<and> objcTarget ob = target
           then None else Some c))"

definition addObserver :: "bytes \<Rightarrow> nat option \<Rightarrow> nat option \<Rightarrow> center \<Rightarrow> center" where
  "addObserver name target selector c =
     push_observer name (new_observer\<lparr>objcTarget := target, objcCallback := selector\<rparr>) c"

definition addObservers :: "bytes list \<Rightarrow> nat option \<Rightarrow> nat option \<Rightarrow> center \<Rightarrow> center" where
  "addObservers names target selector c = fold (\<lambda>name. addObserver name target selector) names c"

definition removeObserver :: "bytes \<Rightarrow> nat option \<Rightarrow> nat option \<Rightarrow> center \<Rightarrow> center option" where
  "removeObserver name target selector c =
     removeObserverByCondition name (\<lambda>ob. objcTarget ob = target \<and> objcCallback ob = selector) c"

definition removeAllObserversForTarget :: "bytes \<Rightarrow> nat option \<Rightarrow> center \<Rightarrow> center option" where
  "removeAllObserversForTarget name target c =
     removeAllObserversByCondition (\<lambda>ob. objcTarget ob = target) c"

section \<open>JNI\<close>

definition addObserverForJni :: "bytes \<Rightarrow> bytes \<Rightarrow> center \<Rightarrow> center" where
  "addObserverForJni name cls c = push_observer name (new_observer\<lparr>className := cls\<rparr>) c"

definition addObserversForJni :: "bytes list \<Rightarrow> bytes \<Rightarrow> center \<Rightarrow> center" where
  "addObserversForJni names cls c = fold (\<lambda>name. addObserverForJni name cls) names c"

definition removeObserverForJni :: "bytes \<Rightarrow> bytes \<Rightarrow> center \<Rightarrow> center option" where
  "removeObserverForJni name cls c = removeObserverByCondition name (\<lambda>ob. className ob = cls) c"

definition removeAllObserversForClassJni :: "bytes \<Rightarrow> center \<Rightarrow> center option" where
  "removeAllObserversForClassJni cls c = removeAllObserversByCondition (\<lambda>ob. className ob = cls) c"

section \<open>JavaScript\<close>

definition addObserverForJs :: "bytes \<Rightarrow> bytes \<Rightarrow> nat option \<Rightarrow> center \<Rightarrow> center" where
  "addObserverForJs name tg callback c =
     push_observer name (new_observer\<lparr>tag := tg, jsCallback := callback\<rparr>) c"

definition addObserversForJs :: "bytes list \<Rightarrow> bytes \<Rightarrow> nat option \<Rightarrow> center \<Rightarrow> center" where
  "addObserversForJs names tg callback c = fold (\<lambda>name. addObserverForJs name tg callback) names c"

definition removeObserverForJs :: "bytes \<Rightarrow> bytes \<Rightarrow> center \<Rightarrow> center option" where
  "removeObserverForJs name tg c = removeObserverByCondition name (\<lambda>ob. tag ob = tg) c"

section \<open>Notifying\<close>

datatype dispatched =
    CallFunc nat bytes bytes
  | CallJs nat bytes bytes
  | CallObjc nat nat bytes bytes
  | CallJni bytes bytes bytes

fun dispatch_to :: "platform \<Rightarrow> bytes \<Rightarrow> bytes \<Rightarrow> observer \<Rightarrow> dispatched list" where
  "dispatch_to p name body obs =
     (case func obs of
        Some f \<Rightarrow> [CallFunc f name body]
      | None \<Rightarrow>
          (case jsCallback obs of
             Some f \<Rightarrow> [CallJs f name body]
           | None \<Rightarrow>
               (case p of
                  UNIFY_IOS \<Rightarrow>
                    (case (objcTarget obs, objcCallback obs) of
                       (Some t, Some s) \<Rightarrow> [CallObjc t s name body]
                     | _ \<Rightarrow> [])
                | UNIFY_ANDROID \<Rightarrow>
                    (if className obs \<noteq> [] then [CallJni name (className obs) body] else []))))"

definition notify ::
  "platform \<Rightarrow> bytes \<Rightarrow> bytes option \<Rightarrow> center \<Rightarrow> (dispatched list \<times> center) option" where
  "notify p name body c =
     (case body of
        None \<Rightarrow> None
      | Some b \<Rightarrow>
          Some (concat (map (dispatch_to p name b) (observers_at name c)), touch name c))"

section \<open>Lookups\<close>

lemma observers_at_push [simp]:
  "observers_at n (push_observer name ob c) =
    (if n = name then observers_at name c @ [ob] else observers_at n c)"
  by (simp add: observers_at_def push_observer_def)

lemma observers_at_put [simp]:
  "observers_at n (map_put name obs c) = (if n = name then obs else observers_at n c)"
  by (simp add: observers_at_def)

lemma observers_at_touch [simp]: "observers_at n (touch name c) = observers_at n c"
  by (simp add: observers_at_def touch_def split: option.split)

section \<open>What erasing by ascending indexes removes\<close>

text \<open>
  The indexes were computed on the vector before any erasure. Each erasure moves the elements after
  it down by one, so the \<open>k\<close>-th erasure, at index \<open>is ! k\<close>, hits what was at \<open>is ! k + k\<close>.
\<close>

definition hit_positions :: "nat list \<Rightarrow> nat set" where
  "hit_positions is = {is ! k + k | k. k < length is}"

lemma hit_positions_Nil [simp]: "hit_positions [] = {}"
  by (simp add: hit_positions_def)

lemma hit_positions_Cons: "hit_positions (i # is) = insert i (Suc ` hit_positions is)"
proof -
  have "hit_positions (i # is) = (\<lambda>k. (i # is) ! k + k) ` {..<Suc (length is)}"
    by (auto simp: hit_positions_def)
  also have "\<dots> = insert i ((\<lambda>k. is ! k + Suc k) ` {..<length is})"
    by (simp add: lessThan_Suc_eq_insert_0 image_image)
  also have "(\<lambda>k. is ! k + Suc k) ` {..<length is} = Suc ` hit_positions is"
    by (auto simp: hit_positions_def image_iff)
  finally show ?thesis .
qed

lemma hit_positions_above: "sorted_wrt (<) (i # is) \<Longrightarrow> p \<in> hit_positions is \<Longrightarrow> i < p"
  by (auto simp: hit_positions_def) (meson nth_mem trans_less_add1)

lemma nths_erase:
  assumes "i < length xs" and "\<forall>p \<in> P. i < p"
  shows "nths (take i xs @ drop (Suc i) xs) (- P) = nths xs (- insert i (Suc ` P))"
proof -
  have xs: "xs = take i xs @ xs ! i # drop (Suc i) xs" using assms(1) by (rule id_take_nth_drop)
  have low: "nths (take i xs) (- P) = take i xs"
    by (rule nths_all) (use assms(2) in force)
  have low': "nths (take i xs) (- insert i (Suc ` P)) = take i xs"
    by (rule nths_all) (use assms(2) in force)
  have "{j. j + i \<in> - P} = {j. Suc j + i \<in> - insert i (Suc ` P)}" by auto
  then show ?thesis
    using assms(1) low low' by (subst (2) xs) (simp add: nths_append nths_Cons min_def)
qed

lemma erase_each_eq:
  assumes "sorted_wrt (<) is"
  shows "erase_each is xs =
    (if \<forall>p \<in> hit_positions is. p < length xs then Some (nths xs (- hit_positions is)) else None)"
  using assms
proof (induction "is" arbitrary: xs)
  case (Cons i "is")
  show ?case
  proof (cases "i < length xs")
    case False
    then show ?thesis by (simp add: erase_at_def hit_positions_Cons)
  next
    case True
    let ?ys = "take i xs @ drop (Suc i) xs"
    have above: "\<forall>p \<in> hit_positions is. i < p" using hit_positions_above [OF Cons.prems] by blast
    have "length ?ys = length xs - 1" using True by simp
    then have "(\<forall>p \<in> hit_positions is. p < length ?ys) \<longleftrightarrow>
        (\<forall>p \<in> hit_positions (i # is). p < length xs)"
      using True by (auto simp: hit_positions_Cons)
    then show ?thesis
      using True Cons nths_erase [OF True above]
      by (simp add: erase_at_def hit_positions_Cons)
  qed
qed (simp add: nths_all)

lemma del_indexes_sorted: "sorted_wrt (<) (del_indexes P i xs) \<and> (\<forall>j \<in> set (del_indexes P i xs). i \<le> j)"
proof (induction xs arbitrary: i)
  case (Cons x xs)
  from Cons [of "Suc i"] show ?case by (auto simp: Suc_le_eq)
qed simp

lemma del_indexes_filter: "length (del_indexes P i xs) = length (filter P xs)"
  by (induction P i xs rule: del_indexes.induct) auto

lemma del_indexes_set: "set (del_indexes P i xs) = {i + k | k. k < length xs \<and> P (xs ! k)}"
proof (induction P i xs rule: del_indexes.induct)
  case (2 P i x xs)
  have "{i + k | k. k < length (x # xs) \<and> P ((x # xs) ! k)} =
      (if P x then {i} else {}) \<union> {Suc i + k | k. k < length xs \<and> P (xs ! k)}"
  proof -
    have "k < length (x # xs) \<and> P ((x # xs) ! k) \<longleftrightarrow>
        (k = 0 \<and> P x) \<or> (\<exists>j. k = Suc j \<and> j < length xs \<and> P (xs ! j))" for k
      by (cases k) auto
    then show ?thesis by auto
  qed
  with 2 show ?case by auto
qed simp

lemma nths_below: "nths xs A = nths xs {i. i < length xs \<and> i \<in> A}"
  unfolding nths_def by (intro arg_cong [where f = "map fst"] filter_cong) (auto simp: in_set_zip)

lemma hit_positions_set:
  "length is \<le> 1 \<Longrightarrow> hit_positions is = set is"
  by (cases "is") (simp_all add: hit_positions_Cons)

lemma erase_each_single:
  assumes "length (filter checker obs) \<le> 1"
  shows "erase_each (del_indexes checker 0 obs) obs = Some (filter (\<lambda>x. \<not> checker x) obs)"
proof -
  let ?is = "del_indexes checker 0 obs"
  have hits: "hit_positions ?is = {k. k < length obs \<and> checker (obs ! k)}"
    using hit_positions_set [of ?is] assms by (simp add: del_indexes_filter del_indexes_set)
  have "{i. i < length obs \<and> i \<in> - {k. k < length obs \<and> checker (obs ! k)}} =
      {i. i < length obs \<and> \<not> checker (obs ! i)}" by auto
  then have "nths obs (- {k. k < length obs \<and> checker (obs ! k)}) = filter (\<lambda>x. \<not> checker x) obs"
    using nths_below [of obs "- {k. k < length obs \<and> checker (obs ! k)}"]
    by (simp add: filter_eq_nths)
  then show ?thesis using del_indexes_sorted [of checker 0 obs] by (simp add: erase_each_eq hits)
qed

lemma erase_each_survivor:
  assumes "length (filter checker obs) \<ge> 2" and "erase_each (del_indexes checker 0 obs) obs = Some obs'"
  shows "\<exists>x \<in> set obs'. checker x"
proof -
  let ?is = "del_indexes checker 0 obs"
  have "length ?is \<ge> 2" using assms(1) by (simp add: del_indexes_filter)
  then obtain i j r where ijr: "?is = i # j # r" by (metis Suc_le_length_iff numeral_2_eq_2)
  have srt: "sorted_wrt (<) (i # j # r)" using del_indexes_sorted [of checker 0 obs] ijr by simp
  have "j \<in> set ?is" by (simp add: ijr)
  then have j: "j < length obs" "checker (obs ! j)" by (auto simp: del_indexes_set)
  have "j \<notin> hit_positions ?is"
  proof
    assume "j \<in> hit_positions ?is"
    then consider "j = i" | p where "p \<in> hit_positions (j # r)" "j = Suc p"
      by (auto simp: ijr hit_positions_Cons)
    then show False
    proof cases
      case 1
      then show False using srt by simp
    next
      case 2
      have "j < q" if "q \<in> hit_positions r" for q using hit_positions_above [of j r] srt that by simp
      then have "j \<le> p" using 2(1) by (force simp: hit_positions_Cons)
      then show False using 2(2) by simp
    qed
  qed
  moreover have "obs' = nths obs (- hit_positions ?is)"
    using assms(2) erase_each_eq [of ?is obs] srt unfolding ijr by (simp split: if_splits)
  ultimately have "obs ! j \<in> set obs'" using j(1) by (auto simp: set_nths)
  with j(2) show ?thesis by blast
qed

section \<open>Properties of the notification center\<close>

text \<open>
  C24: \<open>removeObserverByCondition\<close> removes the observers that satisfy the condition, and nothing else,
  exactly when at most one observer of that name satisfies it. With two or more it either erases
  past the end of the vector or leaves a matching observer registered.
\<close>

theorem remove_correct_iff:
  "(\<exists>c'. removeObserverByCondition name checker c = Some c' \<and>
      observers_at name c' = filter (\<lambda>ob. \<not> checker ob) (observers_at name c) \<and>
      (\<forall>n. n \<noteq> name \<longrightarrow> observers_at n c' = observers_at n c)) \<longleftrightarrow>
   length (filter checker (observers_at name c)) \<le> 1"
proof
  assume "length (filter checker (observers_at name c)) \<le> 1"
  then show "\<exists>c'. removeObserverByCondition name checker c = Some c' \<and>
      observers_at name c' = filter (\<lambda>ob. \<not> checker ob) (observers_at name c) \<and>
      (\<forall>n. n \<noteq> name \<longrightarrow> observers_at n c' = observers_at n c)"
    using erase_each_single [of checker "observers_at name c"]
    by (cases "observers_at name c = []") (simp_all add: removeObserverByCondition_def Let_def)
next
  assume "\<exists>c'. removeObserverByCondition name checker c = Some c' \<and>
      observers_at name c' = filter (\<lambda>ob. \<not> checker ob) (observers_at name c) \<and>
      (\<forall>n. n \<noteq> name \<longrightarrow> observers_at n c' = observers_at n c)"
  then obtain c' where c': "removeObserverByCondition name checker c = Some c'"
    "observers_at name c' = filter (\<lambda>ob. \<not> checker ob) (observers_at name c)" by blast
  show "length (filter checker (observers_at name c)) \<le> 1"
  proof (rule ccontr)
    assume many: "\<not> length (filter checker (observers_at name c)) \<le> 1"
    then have "observers_at name c \<noteq> []" by auto
    with c' obtain obs' where "erase_each (del_indexes checker 0 (observers_at name c))
        (observers_at name c) = Some obs'" "observers_at name c' = obs'"
      by (auto simp: removeObserverByCondition_def Let_def split: option.splits)
    with erase_each_survivor [of checker "observers_at name c"] many c'(2) show False by force
  qed
qed

theorem remove_correct_iff_witness:
  "\<not> (\<exists>c'. removeObserverForJs (str ''n'') (str ''t'')
        (addObserverForJs (str ''n'') (str ''t'') (Some 2)
          (addObserverForJs (str ''n'') (str ''t'') (Some 1) [])) = Some c' \<and>
      observers_at (str ''n'') c' = [] \<and> (\<forall>n. n \<noteq> str ''n'' \<longrightarrow> observers_at n c' = []))"
  using remove_correct_iff [of "str ''n''" "\<lambda>ob. tag ob = str ''t''"
      "addObserverForJs (str ''n'') (str ''t'') (Some 2)
          (addObserverForJs (str ''n'') (str ''t'') (Some 1) [])"]
  by (simp add: removeObserverForJs_def addObserverForJs_def)
    (simp add: observers_at_def map_find_def)



text \<open>A registration for JavaScript: name, tag and callback.\<close>

definition register_js :: "bytes \<times> bytes \<times> nat \<Rightarrow> center \<Rightarrow> center" where
  "register_js r c = (case r of (name, tg, f) \<Rightarrow> addObserverForJs name tg (Some f) c)"

lemma observers_at_registered:
  "observers_at name (fold register_js regs c) =
    observers_at name c @
    map (\<lambda>(n, tg, f). new_observer\<lparr>tag := tg, jsCallback := Some f\<rparr>) (filter (\<lambda>(n, _). n = name) regs)"
  by (induction regs arbitrary: c) (auto simp: register_js_def addObserverForJs_def)


end
