(* ===== verification/File_Utils.thy ===== *)
theory File_Utils
  imports Std_Map "HOL-Library.List_Lexorder"
begin

text \<open>
  \<open>CCFileUtils\<close> and its Android subclass (\<^verbatim>\<open>src/unifyframework/platform/CCFileUtils.cpp\<close>,
  \<^verbatim>\<open>src/unifyframework/platform/android/CCFileUtilsAndroid.cpp\<close>): search paths, the cache of full paths, and
  reading and writing of files.

  The methods that a subclass overrides are a record \<open>file_vtable\<close>; the lookup is defined over it
  once, and \<open>android\<close> is the instance for the Android class. What the lookup relies on is the
  locale \<open>file_platform\<close>. The file system is a record: readable files on disk, paths that can
  be opened for writing, and the entries of the APK as \<open>ZipFile\<close> serves them.
\<close>

section \<open>State\<close>

record file_system =
  disk :: "bytes \<Rightarrow> bytes option"
  writable :: "bytes \<Rightarrow> bool"
  apk :: "bytes \<Rightarrow> bytes option"
  directories :: "bytes \<Rightarrow> bool"
  file_directory :: bytes

record file_utils =
  m_searchPathArray :: "bytes list"
  m_searchPathArrayCheck :: "bytes list"
  m_searchResolutionsOrderArray :: "bytes list"
  m_strDefaultResRootPath :: bytes
  m_fullPathCache :: "(bytes, bytes) std_map"
  m_strWritablePath :: bytes
  m_strCachePath :: bytes

record file_vtable =
  v_isAbsolutePath :: "file_utils \<Rightarrow> bytes \<Rightarrow> bool"
  v_isFileExist :: "file_system \<Rightarrow> file_utils \<Rightarrow> bytes \<Rightarrow> bool"
  v_getWritablePath :: "file_system \<Rightarrow> file_utils \<Rightarrow> bytes"

definition slash :: byte where [simp]: "slash = 0x2f"
definition backslash :: byte where [simp]: "backslash = 0x5c"

text \<open>\<open>s[0]\<close> of an empty \<open>std::string\<close> is the null character.\<close>

definition char0 :: "bytes \<Rightarrow> byte" where
  "char0 s = (case s of [] \<Rightarrow> 0 | c # _ \<Rightarrow> c)"

definition isAbsolutePath :: "file_utils \<Rightarrow> bytes \<Rightarrow> bool" where
  "isAbsolutePath fu strPath = (char0 strPath = slash)"

section \<open>Search paths\<close>

definition updateSearchPathArrayCheck :: "file_vtable \<Rightarrow> file_utils \<Rightarrow> file_utils" where
  "updateSearchPathArrayCheck vt fu =
     (let root = m_strDefaultResRootPath fu;
          root' = (if root \<noteq> [] \<and> last root \<noteq> slash \<and> last root \<noteq> backslash
                   then root @ [slash] else root);
          fu' = fu\<lparr>m_strDefaultResRootPath := root'\<rparr>
      in fu'\<lparr>m_searchPathArrayCheck :=
           map (\<lambda>path. if \<not> v_isAbsolutePath vt fu' path then root' @ path else path) (m_searchPathArray fu')
           @ (if root' \<noteq> [] then [root'] else [])\<rparr>)"

definition new_file_utils :: file_utils where
  "new_file_utils =
     \<lparr>m_searchPathArray = [], m_searchPathArrayCheck = [], m_searchResolutionsOrderArray = [],
      m_strDefaultResRootPath = [], m_fullPathCache = [], m_strWritablePath = [], m_strCachePath = []\<rparr>"

definition init :: "file_vtable \<Rightarrow> file_utils \<Rightarrow> file_utils" where
  "init vt fu =
     updateSearchPathArrayCheck vt
       (fu\<lparr>m_searchPathArray := m_searchPathArray fu @ [m_strDefaultResRootPath fu],
           m_searchResolutionsOrderArray := m_searchResolutionsOrderArray fu @ [[]]\<rparr>)"

definition purgeCachedEntries :: "file_utils \<Rightarrow> file_utils" where
  "purgeCachedEntries fu = fu\<lparr>m_fullPathCache := []\<rparr>"

definition getSearchPaths :: "file_utils \<Rightarrow> bytes list" where
  "getSearchPaths fu = m_searchPathArray fu"

definition setSearchPaths :: "file_vtable \<Rightarrow> bytes list \<Rightarrow> file_utils \<Rightarrow> file_utils" where
  "setSearchPaths vt searchPaths fu =
     updateSearchPathArrayCheck vt (fu\<lparr>m_fullPathCache := [], m_searchPathArray := searchPaths\<rparr>)"

definition addSearchPath :: "file_vtable \<Rightarrow> bytes option \<Rightarrow> file_utils \<Rightarrow> file_utils" where
  "addSearchPath vt path fu =
     (case path of
        None \<Rightarrow> fu
      | Some p \<Rightarrow>
          (if length p > 0
           then updateSearchPathArrayCheck vt (fu\<lparr>m_searchPathArray := m_searchPathArray fu @ [p]\<rparr>)
           else fu))"

section \<open>Lookup\<close>

definition getFullPathForDirectoryAndFilename ::
  "file_vtable \<Rightarrow> file_system \<Rightarrow> file_utils \<Rightarrow> bytes \<Rightarrow> bytes \<Rightarrow> bytes" where
  "getFullPathForDirectoryAndFilename vt fs fu strDirectory strFilename =
     (let ret = strDirectory @ strFilename in if \<not> v_isFileExist vt fs fu ret then [] else ret)"

text \<open>The part of a name up to and including its last slash, and the part after it.\<close>

definition directory_part :: "bytes \<Rightarrow> bytes" where
  "directory_part filename = rev (dropWhile (\<lambda>c. c \<noteq> slash) (rev filename))"

definition file_part :: "bytes \<Rightarrow> bytes" where
  "file_part filename = rev (takeWhile (\<lambda>c. c \<noteq> slash) (rev filename))"

definition getPathForFilename ::
  "file_vtable \<Rightarrow> file_system \<Rightarrow> file_utils \<Rightarrow> bytes \<Rightarrow> bytes \<Rightarrow> bytes \<Rightarrow> bytes" where
  "getPathForFilename vt fs fu filename resolutionDirectory searchPath =
     (let path = searchPath @ directory_part filename @ resolutionDirectory
      in getFullPathForDirectoryAndFilename vt fs fu path (file_part filename))"

fun search_resolutions ::
  "file_vtable \<Rightarrow> file_system \<Rightarrow> file_utils \<Rightarrow> bytes \<Rightarrow> bytes \<Rightarrow> bytes list \<Rightarrow> bytes option" where
  "search_resolutions vt fs fu newFilename searchPath [] = None"
| "search_resolutions vt fs fu newFilename searchPath (res # rs) =
     (let fullpath = getPathForFilename vt fs fu newFilename res searchPath
      in if length fullpath > 0 then Some fullpath
         else search_resolutions vt fs fu newFilename searchPath rs)"

fun search_paths ::
  "file_vtable \<Rightarrow> file_system \<Rightarrow> file_utils \<Rightarrow> bytes \<Rightarrow> bytes list \<Rightarrow> bytes option" where
  "search_paths vt fs fu newFilename [] = None"
| "search_paths vt fs fu newFilename (p # ps) =
     (case search_resolutions vt fs fu newFilename p (m_searchResolutionsOrderArray fu) of
        Some fullpath \<Rightarrow> Some fullpath
      | None \<Rightarrow> search_paths vt fs fu newFilename ps)"

definition fullPathForFilename ::
  "file_vtable \<Rightarrow> file_system \<Rightarrow> bytes \<Rightarrow> file_utils \<Rightarrow> bytes \<times> file_utils" where
  "fullPathForFilename vt fs pszFileName fu =
     (if v_isAbsolutePath vt fu pszFileName then (pszFileName, fu)
      else case map_find (m_fullPathCache fu) pszFileName of
        Some cached \<Rightarrow> (cached, fu)
      | None \<Rightarrow>
          (case search_paths vt fs fu pszFileName (m_searchPathArrayCheck fu) of
             Some fullpath \<Rightarrow>
               (fullpath, fu\<lparr>m_fullPathCache := map_put pszFileName fullpath (m_fullPathCache fu)\<rparr>)
           | None \<Rightarrow> (pszFileName, fu)))"

section \<open>Reading and writing\<close>

text \<open>The data and whether the path cache changed; \<open>None\<close> is a null buffer.\<close>

definition getFileData ::
  "file_vtable \<Rightarrow> file_system \<Rightarrow> bytes \<Rightarrow> file_utils \<Rightarrow> bytes option \<times> file_utils" where
  "getFileData vt fs pszFileName fu =
     (let (fullPath, fu') = fullPathForFilename vt fs pszFileName fu in (disk fs fullPath, fu'))"

definition writeToFile :: "bytes \<Rightarrow> bytes \<Rightarrow> file_system \<Rightarrow> bool \<times> file_system" where
  "writeToFile content fullPath fs =
     (if writable fs fullPath then (True, fs\<lparr>disk := (disk fs)(fullPath := Some content)\<rparr>)
      else (False, fs))"

definition getWritablePath :: "file_utils \<Rightarrow> bytes" where
  "getWritablePath fu = m_strWritablePath fu"

definition getCachePath :: "file_vtable \<Rightarrow> file_system \<Rightarrow> file_utils \<Rightarrow> bytes" where
  "getCachePath vt fs fu =
     (if length (m_strCachePath fu) > 0 then m_strCachePath fu else v_getWritablePath vt fs fu)"

definition setWritablePath :: "bytes option \<Rightarrow> file_utils \<Rightarrow> file_utils" where
  "setWritablePath writablePath fu =
     fu\<lparr>m_strWritablePath := (case writablePath of Some p \<Rightarrow> p | None \<Rightarrow> [])\<rparr>"

definition setCachePath :: "bytes option \<Rightarrow> file_utils \<Rightarrow> file_utils" where
  "setCachePath cachePath fu = fu\<lparr>m_strCachePath := (case cachePath of Some p \<Rightarrow> p | None \<Rightarrow> [])\<rparr>"

section \<open>The Android class\<close>

definition starts_with :: "bytes \<Rightarrow> bytes \<Rightarrow> bool" where
  "starts_with p s = (take (length p) s = p)"

definition isFileExist_android :: "file_system \<Rightarrow> file_utils \<Rightarrow> bytes \<Rightarrow> bool" where
  "isFileExist_android fs fu strFilePath =
     (if length strFilePath = 0 then False
      else if char0 strFilePath \<noteq> slash
      then let strPath = (if \<not> starts_with (m_strDefaultResRootPath fu) strFilePath
                          then m_strDefaultResRootPath fu @ strFilePath else strFilePath)
           in apk fs strPath \<noteq> None
      else disk fs strFilePath \<noteq> None)"

definition isDirectoryExist_android :: "file_system \<Rightarrow> bytes \<Rightarrow> bool" where
  "isDirectoryExist_android fs strDirPath = directories fs strDirPath"

definition isAbsolutePath_android :: "file_utils \<Rightarrow> bytes \<Rightarrow> bool" where
  "isAbsolutePath_android fu strPath =
     (char0 strPath = slash \<or> starts_with (m_strDefaultResRootPath fu) strPath)"

definition getWritablePath_android :: "file_system \<Rightarrow> file_utils \<Rightarrow> bytes" where
  "getWritablePath_android fs fu =
     (if length (file_directory fs) > 0 then file_directory fs @ [slash] else [])"

definition android :: file_vtable where
  "android = \<lparr>v_isAbsolutePath = isAbsolutePath_android, v_isFileExist = isFileExist_android,
     v_getWritablePath = getWritablePath_android\<rparr>"

definition init_android :: "file_utils \<Rightarrow> file_utils" where
  "init_android fu = init android (fu\<lparr>m_strDefaultResRootPath := str ''assets/''\<rparr>)"

definition getInstance_android :: file_utils where
  "getInstance_android = init_android new_file_utils"

definition doGetFileData ::
  "file_system \<Rightarrow> bytes \<Rightarrow> bool \<Rightarrow> file_utils \<Rightarrow> bytes option \<times> file_utils" where
  "doGetFileData fs pszFileName forAsync fu =
     (if length pszFileName = 0 then (None, fu)
      else let (fullPath, fu') = fullPathForFilename android fs pszFileName fu
           in if char0 fullPath \<noteq> slash
              then (if forAsync then None else apk fs fullPath, fu')
              else (disk fs fullPath, fu'))"

definition getFileData_android :: "file_system \<Rightarrow> bytes \<Rightarrow> file_utils \<Rightarrow> bytes option \<times> file_utils" where
  "getFileData_android fs pszFileName fu = doGetFileData fs pszFileName False fu"

section \<open>The lookup contract\<close>

text \<open>The paths that are tried for a name, in the order of the two loops.\<close>

definition candidates :: "file_utils \<Rightarrow> bytes \<Rightarrow> bytes list" where
  "candidates fu name =
     concat (map (\<lambda>p. map (\<lambda>r. p @ directory_part name @ r @ file_part name)
       (m_searchResolutionsOrderArray fu)) (m_searchPathArrayCheck fu))"

definition resolve :: "file_vtable \<Rightarrow> file_system \<Rightarrow> file_utils \<Rightarrow> bytes \<Rightarrow> bytes" where
  "resolve vt fs fu name =
     (if v_isAbsolutePath vt fu name then name
      else case find (v_isFileExist vt fs fu) (candidates fu name) of Some path \<Rightarrow> path | None \<Rightarrow> name)"

text \<open>Every cached path is what a lookup without the cache would find.\<close>

definition coherent :: "file_vtable \<Rightarrow> file_system \<Rightarrow> file_utils \<Rightarrow> bool" where
  "coherent vt fs fu \<longleftrightarrow>
     (\<forall>name path. map_find (m_fullPathCache fu) name = Some path \<longrightarrow>
        find (v_isFileExist vt fs fu) (candidates fu name) = Some path)"

locale file_platform =
  fixes vt :: file_vtable
  assumes empty_not_a_file: "\<not> v_isFileExist vt fs fu []"
    and exist_cache: "v_isFileExist vt fs (fu\<lparr>m_fullPathCache := c\<rparr>) = v_isFileExist vt fs fu"
    and absolute_cache: "v_isAbsolutePath vt (fu\<lparr>m_fullPathCache := c\<rparr>) = v_isAbsolutePath vt fu"
    and exist_paths: "v_isFileExist vt fs (fu\<lparr>m_searchPathArray := a, m_searchPathArrayCheck := b\<rparr>) =
      v_isFileExist vt fs fu"
begin

lemma search_resolutions_find:
  "search_resolutions vt fs fu name p rs =
    find (v_isFileExist vt fs fu) (map (\<lambda>r. p @ directory_part name @ r @ file_part name) rs)"
proof (induction rs)
  case (Cons res rs)
  let ?path = "p @ directory_part name @ res @ file_part name"
  have "?path \<noteq> []" if "v_isFileExist vt fs fu ?path"
    using that empty_not_a_file [of fs fu] by metis
  with Cons show ?case
    by (auto simp: getPathForFilename_def getFullPathForDirectoryAndFilename_def Let_def)
qed simp

lemma search_paths_find:
  "search_paths vt fs fu name ps =
    find (v_isFileExist vt fs fu)
      (concat (map (\<lambda>p. map (\<lambda>r. p @ directory_part name @ r @ file_part name)
        (m_searchResolutionsOrderArray fu)) ps))"
  by (induction ps) (simp_all add: search_resolutions_find find_append split: option.split)

lemma search_candidates:
  "search_paths vt fs fu name (m_searchPathArrayCheck fu) = find (v_isFileExist vt fs fu) (candidates fu name)"
  by (simp add: search_paths_find candidates_def)

lemma candidates_cache [simp]: "candidates (fu\<lparr>m_fullPathCache := c\<rparr>) name = candidates fu name"
  by (simp add: candidates_def)

lemma lookup_resolves:
  assumes "coherent vt fs fu"
  shows "fst (fullPathForFilename vt fs name fu) = resolve vt fs fu name"
  using assms
  by (auto simp: fullPathForFilename_def resolve_def coherent_def search_candidates split: option.split)

lemma lookup_coherent:
  assumes "coherent vt fs fu"
  shows "coherent vt fs (snd (fullPathForFilename vt fs name fu))"
  using assms
  by (auto simp: fullPathForFilename_def coherent_def search_candidates exist_cache
      split: option.split if_splits)

lemma lookup_resolve_same:
  "resolve vt fs (snd (fullPathForFilename vt fs name fu)) n = resolve vt fs fu n"
  by (auto simp: fullPathForFilename_def resolve_def exist_cache absolute_cache split: option.split)

end

interpretation android: file_platform android
  by unfold_locales
    (auto simp: android_def isFileExist_android_def isAbsolutePath_android_def fun_eq_iff)

section \<open>Sequences of operations\<close>

datatype file_op = Lookup bytes | SetSearchPaths "bytes list" | AddSearchPath "bytes option" | Purge

fun file_step :: "file_system \<Rightarrow> file_op \<Rightarrow> file_utils \<Rightarrow> file_utils" where
  "file_step fs (Lookup name) fu = snd (fullPathForFilename android fs name fu)"
| "file_step fs (SetSearchPaths ps) fu = setSearchPaths android ps fu"
| "file_step fs (AddSearchPath p) fu = addSearchPath android p fu"
| "file_step fs Purge fu = purgeCachedEntries fu"

text \<open>
  The root is the one of the Android class, and every path that is searched is on disk or below
  the root.
\<close>

definition paths_ok :: "file_utils \<Rightarrow> bool" where
  "paths_ok fu \<longleftrightarrow> m_strDefaultResRootPath fu = str ''assets/'' \<and>
     list_all (\<lambda>p. char0 p = slash \<or> starts_with (str ''assets/'') p) (m_searchPathArrayCheck fu)"

lemma starts_with_append [simp]: "starts_with p (p @ s)"
  by (simp add: starts_with_def)

lemma starts_with_trans: "starts_with p s \<Longrightarrow> starts_with p (s @ t)"
  unfolding starts_with_def by (metis append.assoc append_eq_conv_conj append_take_drop_id)

lemma char0_append: "p \<noteq> [] \<Longrightarrow> char0 (p @ s) = char0 p"
  by (cases p) (simp_all add: char0_def)

lemma paths_ok_update:
  "m_strDefaultResRootPath fu = str ''assets/'' \<Longrightarrow> paths_ok (updateSearchPathArrayCheck android fu)"
  by (auto simp: paths_ok_def updateSearchPathArrayCheck_def android_def isAbsolutePath_android_def
      list_all_iff Let_def starts_with_def)

lemma paths_ok_step: "paths_ok fu \<Longrightarrow> paths_ok (file_step fs op fu)"
proof (cases op)
  case (Lookup name)
  then show "paths_ok fu \<Longrightarrow> ?thesis"
    by (auto simp: fullPathForFilename_def paths_ok_def split: option.split)
next
  case (SetSearchPaths ps)
  then show "paths_ok fu \<Longrightarrow> ?thesis"
    by (auto simp: setSearchPaths_def intro!: paths_ok_update) (simp add: paths_ok_def)
next
  case (AddSearchPath p)
  then show "paths_ok fu \<Longrightarrow> ?thesis"
    by (auto simp: addSearchPath_def split: option.split intro!: paths_ok_update)
      (simp_all add: paths_ok_def)
qed (simp add: purgeCachedEntries_def paths_ok_def)

lemma paths_ok_initial: "paths_ok getInstance_android"
  unfolding getInstance_android_def init_android_def init_def by (intro paths_ok_update) simp

lemma paths_ok_steps: "paths_ok fu \<Longrightarrow> paths_ok (fold (file_step fs) ops fu)"
  by (induction ops arbitrary: fu) (auto simp: paths_ok_step)

lemma coherent_empty: "m_fullPathCache fu = [] \<Longrightarrow> coherent vt fs fu"
  by (simp add: coherent_def map_find_def)

lemma coherent_step:
  assumes "coherent android fs fu" and "\<forall>p. op \<noteq> AddSearchPath p"
  shows "coherent android fs (file_step fs op fu)"
  using assms
  by (cases op) (auto simp: android.lookup_coherent setSearchPaths_def purgeCachedEntries_def
      updateSearchPathArrayCheck_def Let_def intro!: coherent_empty)

lemma coherent_steps:
  "coherent android fs fu \<Longrightarrow> \<forall>p. AddSearchPath p \<notin> set ops \<Longrightarrow>
    coherent android fs (fold (file_step fs) ops fu)"
proof (induction ops arbitrary: fu)
  case (Cons op ops)
  from Cons.prems have "coherent android fs (file_step fs op fu)" by (intro coherent_step) auto
  with Cons show ?case by simp
qed simp

lemma coherent_initial: "coherent android fs getInstance_android"
  by (rule coherent_empty)
    (simp add: getInstance_android_def init_android_def init_def updateSearchPathArrayCheck_def Let_def
      new_file_utils_def)

lemma candidate_path:
  assumes "paths_ok fu" and "path \<in> set (candidates fu name)" and "path \<noteq> []"
  shows "char0 path = slash \<or> starts_with (str ''assets/'') path"
proof -
  from assms(2) obtain p r where p: "p \<in> set (m_searchPathArrayCheck fu)"
    and path: "path = p @ directory_part name @ r @ file_part name"
    by (auto simp: candidates_def)
  from p assms(1) have "char0 p = slash \<or> starts_with (str ''assets/'') p"
    by (auto simp: paths_ok_def list_all_iff)
  then show ?thesis
  proof
    assume "char0 p = slash"
    then show ?thesis by (cases p) (auto simp: path char0_def)
  qed (simp add: path starts_with_trans)
qed

section \<open>Properties of the file utilities\<close>


definition demo_fs :: file_system where
  "demo_fs = \<lparr>disk = (\<lambda>p. if p = str ''/sd/b.png'' then Some [1, 2] else None), writable = (\<lambda>_. True),
     apk = (\<lambda>p. if p = str ''assets/a.js'' \<or> p = str ''assets/x/a.js'' then Some [7] else None),
     directories = (\<lambda>_. False), file_directory = str ''/data''\<rparr>"







end
