(* ===== verification/Timer_Utils.thy ===== *)
theory Timer_Utils
  imports Std_Map
begin

text \<open>
  Timers: \<open>CETimerUtils\<close> (\<^verbatim>\<open>src/unifyframework/platform/CETimerUtils.cpp\<close>) and its JavaScript bindings
  (\<^verbatim>\<open>src/unifyframework/duktape_extra/timerUtils.cpp\<close>).

  Times are milliseconds. \<open>waits\<close> are the handlers that were passed to \<open>async_wait\<close> and have not run: a
  timer id, the interval, and the time at which the deadline timer expires. Erasing an entry of
  \<open>timerMap\<close> destroys its deadline timer; a handler that was waiting then runs with the error code
  \<open>operation_aborted\<close>, one that was already due runs without an error. \<open>callJsFunction\<close> posts the
  callback to the engine's thread; the posts are the labels of the steps.
  The timer thread runs the handlers while the JS thread is anywhere in \<open>createTimer\<close>, which is
  therefore also given as its two steps before and after \<open>async_wait\<close> (\<open>timerMap\<close> is not protected by a
  lock; the model takes each access to be atomic). The ids are unbounded; in C++ the counter overflows after
  \<open>2 ^ 31\<close> timers.
\<close>

record TimerStruct =
  timer_expires_at :: int
  timer_repeat :: bool
  timer_callback :: nat

type_synonym wait = "int \<times> int \<times> int"

text \<open>The JS thread is outside of \<open>createTimer\<close>, or has started the wait of the timer it creates.\<close>

datatype js_code = JsIdle | Waiting int TimerStruct

record timers =
  timerMap :: "(int, TimerStruct) std_map"
  timerCounter :: int
  waits :: "wait list"
  clock :: int
  js_pc :: js_code

definition CETimerUtils :: timers where
  "CETimerUtils = \<lparr>timerMap = [], timerCounter = 0, waits = [], clock = 0, js_pc = JsIdle\<rparr>"

section \<open>Operations\<close>

definition new_TimerStruct :: "int \<Rightarrow> int \<Rightarrow> bool \<Rightarrow> nat \<Rightarrow> TimerStruct" where
  "new_TimerStruct t milliseconds inRepeat inCallback =
     \<lparr>timer_expires_at = t + milliseconds, timer_repeat = inRepeat, timer_callback = inCallback\<rparr>"

definition async_wait :: "int \<Rightarrow> int \<Rightarrow> int \<Rightarrow> timers \<Rightarrow> timers" where
  "async_wait timerId interval expires s = s\<lparr>waits := waits s @ [(timerId, interval, expires)]\<rparr>"

definition create_begin :: "int \<Rightarrow> bool \<Rightarrow> nat \<Rightarrow> timers \<Rightarrow> timers" where
  "create_begin interval rep callback s =
     (let timerId = timerCounter s;
          timerStruct = new_TimerStruct (clock s) interval rep callback
      in (async_wait timerId interval (timer_expires_at timerStruct) s)\<lparr>js_pc := Waiting timerId timerStruct\<rparr>)"

definition create_end :: "int \<Rightarrow> TimerStruct \<Rightarrow> timers \<Rightarrow> timers" where
  "create_end timerId timerStruct s =
     s\<lparr>timerMap := (case map_find (timerMap s) timerId of
          None \<Rightarrow> map_put timerId timerStruct (timerMap s) | Some _ \<Rightarrow> timerMap s),
       timerCounter := timerCounter s + 1, js_pc := JsIdle\<rparr>"

definition createTimer :: "int \<Rightarrow> bool \<Rightarrow> nat \<Rightarrow> timers \<Rightarrow> int \<times> timers" where
  "createTimer interval rep callback s =
     (timerCounter s,
      create_end (timerCounter s) (new_TimerStruct (clock s) interval rep callback)
        (create_begin interval rep callback s))"

definition cancelTimer :: "int \<Rightarrow> timers \<Rightarrow> timers" where
  "cancelTimer timerId s = s\<lparr>timerMap := map_erase timerId (timerMap s)\<rparr>"

text \<open>The callback that is posted, if one is.\<close>

definition onTimerFire :: "int \<Rightarrow> int \<Rightarrow> bool \<Rightarrow> timers \<Rightarrow> nat option \<times> timers" where
  "onTimerFire timerId interval e s =
     (if \<not> e
      then case map_find (timerMap s) timerId of
        None \<Rightarrow> (None, s)
      | Some timerStruct \<Rightarrow>
          (Some (timer_callback timerStruct),
           if timer_repeat timerStruct
           then let expires = timer_expires_at timerStruct + interval
                in async_wait timerId interval expires
                     (s\<lparr>timerMap := map_put timerId (timerStruct\<lparr>timer_expires_at := expires\<rparr>) (timerMap s)\<rparr>)
           else cancelTimer timerId s)
      else (None, s))"

section \<open>Bindings\<close>

text \<open>
  The first argument is the heap pointer of a function or something else (\<open>None\<close>); the interval
  is the number after its conversion to \<open>long\<close>; the result is the value pushed, if any.
\<close>

definition jsb_setTimeout :: "nat option \<Rightarrow> int \<Rightarrow> timers \<Rightarrow> int option \<times> timers" where
  "jsb_setTimeout callback millisecondInterval s =
     (case callback of
        None \<Rightarrow> (None, s)
      | Some f \<Rightarrow> let (timerId, s') = createTimer millisecondInterval False f s in (Some timerId, s'))"

definition jsb_setInterval :: "nat option \<Rightarrow> int \<Rightarrow> timers \<Rightarrow> int option \<times> timers" where
  "jsb_setInterval callback millisecondInterval s =
     (case callback of
        None \<Rightarrow> (None, s)
      | Some f \<Rightarrow> let (timerId, s') = createTimer millisecondInterval True f s in (Some timerId, s'))"

definition jsb_clearInterval :: "int \<Rightarrow> timers \<Rightarrow> timers" where
  "jsb_clearInterval timerId s = cancelTimer timerId s"

section \<open>Steps\<close>

datatype timer_label =
    Silent
  | Created int int int bool
  | Cancelled int
  | Fired int int int

text \<open>
  \<open>Created\<close> carries the id, the interval, the first expiry and whether the timer repeats; \<open>Fired\<close> the
  id, the expiry of the wait and the time of the call.
\<close>

inductive timer_step :: "timers \<Rightarrow> timer_label \<Rightarrow> timers \<Rightarrow> bool" where
  time: "t \<ge> clock s \<Longrightarrow> timer_step s Silent (s\<lparr>clock := t\<rparr>)"
| begin_create: "js_pc s = JsIdle \<Longrightarrow>
    timer_step s (Created (timerCounter s) interval (clock s + interval) rep)
      (create_begin interval rep callback s)"
| end_create: "js_pc s = Waiting timerId timerStruct \<Longrightarrow>
    timer_step s Silent (create_end timerId timerStruct s)"
| cancel: "js_pc s = JsIdle \<Longrightarrow> timer_step s (Cancelled timerId) (cancelTimer timerId s)"
| fire: "waits s = before @ (timerId, interval, due) # after \<Longrightarrow> due \<le> clock s \<Longrightarrow>
    onTimerFire timerId interval False (s\<lparr>waits := before @ after\<rparr>) = (Some callback, s') \<Longrightarrow>
    timer_step s (Fired timerId due (clock s)) s'"
| ignore: "waits s = before @ (timerId, interval, due) # after \<Longrightarrow> due \<le> clock s \<Longrightarrow>
    onTimerFire timerId interval False (s\<lparr>waits := before @ after\<rparr>) = (None, s') \<Longrightarrow>
    timer_step s Silent s'"
| abort: "waits s = before @ (timerId, interval, due) # after \<Longrightarrow>
    map_find (timerMap s) timerId = None \<Longrightarrow> (\<forall>st. js_pc s \<noteq> Waiting timerId st) \<Longrightarrow>
    onTimerFire timerId interval True (s\<lparr>waits := before @ after\<rparr>) = (None, s') \<Longrightarrow>
    timer_step s Silent s'"

inductive timer_run :: "timers \<Rightarrow> timer_label list \<Rightarrow> timers \<Rightarrow> bool" where
  timer_Nil: "timer_run s [] s"
| timer_snoc: "timer_run s tr s' \<Longrightarrow> timer_step s' lab s'' \<Longrightarrow> timer_run s (tr @ [lab]) s''"

inductive_cases timer_step_cases: "timer_step s lab s'"

lemmas timer_defs [step_simps] =
  create_begin_def create_end_def createTimer_def cancelTimer_def onTimerFire_def async_wait_def
  new_TimerStruct_def

section \<open>Timers that are gone\<close>

definition gone :: "int \<Rightarrow> timers \<Rightarrow> bool" where
  "gone i s \<longleftrightarrow> map_find (timerMap s) i = None \<and> i < timerCounter s \<and>
     (\<forall>j st. js_pc s = Waiting j st \<longrightarrow> j = timerCounter s)"

lemma gone_step:
  assumes "timer_step s lab s'" and "gone i s"
  shows "gone i s' \<and> (\<forall>due t. lab \<noteq> Fired i due t)"
  using assms
  by (cases rule: timer_step.cases)
    (auto simp: step_simps gone_def Let_def split: option.splits if_splits)

lemma gone_run:
  "timer_run s tr s' \<Longrightarrow> gone i s \<Longrightarrow> gone i s' \<and> (\<forall>due t. Fired i due t \<notin> set tr)"
  by (induction rule: timer_run.induct) (auto dest: gone_step)

section \<open>The schedule of a timer\<close>

fun fires :: "int \<Rightarrow> timer_label list \<Rightarrow> int list" where
  "fires i [] = []"
| "fires i (Fired j due t # tr) = (if i = j then due # fires i tr else fires i tr)"
| "fires i (_ # tr) = fires i tr"

lemma fires_append [simp]: "fires i (xs @ ys) = fires i xs @ fires i ys"
  by (induction i xs rule: fires.induct) auto

lemma fires_empty_iff: "fires i tr = [] \<longleftrightarrow> (\<forall>due t. Fired i due t \<notin> set tr)"
  by (induction i tr rule: fires.induct) auto

definition schedule_of :: "int \<Rightarrow> int \<Rightarrow> nat \<Rightarrow> int list" where
  "schedule_of first interval n = map (\<lambda>k. first + int k * interval) [0..<n]"

lemma schedule_of_simps [simp]:
  "schedule_of first interval 0 = []"
  "schedule_of first interval (Suc n) = schedule_of first interval n @ [first + int n * interval]"
  "length (schedule_of first interval n) = n"
  by (simp_all add: schedule_of_def)

text \<open>Well-formedness: ids are fresh, and no timer has two waits.\<close>

definition entry :: "timers \<Rightarrow> int \<Rightarrow> TimerStruct option" where
  "entry s i = (case js_pc s of
      JsIdle \<Rightarrow> map_find (timerMap s) i
    | Waiting j st \<Rightarrow> if i = j then Some st else map_find (timerMap s) i)"

definition wait_ok :: "timers \<Rightarrow> wait \<Rightarrow> bool" where
  "wait_ok s w \<longleftrightarrow> fst w < timerCounter s + (if js_pc s = JsIdle then 0 else 1) \<and>
     (case entry s (fst w) of None \<Rightarrow> True | Some st \<Rightarrow> timer_expires_at st = snd (snd w))"

definition timers_ok :: "timers \<Rightarrow> bool" where
  "timers_ok s \<longleftrightarrow> distinct (map fst (waits s)) \<and> (\<forall>w\<in>set (waits s). wait_ok s w) \<and>
     (case js_pc s of JsIdle \<Rightarrow> True | Waiting i st \<Rightarrow> i = timerCounter s) \<and>
     (\<forall>i\<ge>timerCounter s. map_find (timerMap s) i = None)"

lemma timers_ok_init: "timers_ok CETimerUtils"
  by (simp add: timers_ok_def CETimerUtils_def map_find_def)

lemma onTimerFire_cases:
  assumes "onTimerFire i iv e s = (r, s')"
  obtains (none) "r = None" "s' = s" "e \<or> map_find (timerMap s) i = None"
  | (once) st where "map_find (timerMap s) i = Some st" "r = Some (timer_callback st)"
      "\<not> timer_repeat st" "s' = cancelTimer i s"
  | (again) st where "map_find (timerMap s) i = Some st" "r = Some (timer_callback st)" "timer_repeat st"
      "s' = async_wait i iv (timer_expires_at st + iv)
        (s\<lparr>timerMap := map_put i (st\<lparr>timer_expires_at := timer_expires_at st + iv\<rparr>) (timerMap s)\<rparr>)"
proof (cases "e \<or> map_find (timerMap s) i = None")
  case True
  with assms have "r = None \<and> s' = s" by (auto simp: onTimerFire_def split: if_splits)
  with True show thesis by (intro none) simp_all
next
  case False
  then obtain st where st: "map_find (timerMap s) i = Some st" and "\<not> e" by auto
  show thesis
  proof (cases "timer_repeat st")
    case True
    with assms st \<open>\<not> e\<close> show thesis by (intro again [of st]) (simp_all add: onTimerFire_def Let_def)
  next
    case False
    with assms st \<open>\<not> e\<close> show thesis by (intro once [of st]) (simp_all add: onTimerFire_def)
  qed
qed

lemma wait_ok_irrelevant [simp]:
  "wait_ok (s\<lparr>waits := ws\<rparr>) = wait_ok s" "wait_ok (s\<lparr>clock := t\<rparr>) = wait_ok s"
  by (cases "js_pc s"; simp add: fun_eq_iff wait_ok_def entry_def)+

lemma timers_ok_drop:
  assumes "timers_ok s" and "waits s = before @ (i, iv, d) # after"
  shows "timers_ok (s\<lparr>waits := before @ after\<rparr>)" and "i \<notin> fst ` set (before @ after)"
  using assms by (auto simp: timers_ok_def image_iff split: js_code.splits)

lemma timers_ok_cancel: "timers_ok s \<Longrightarrow> timers_ok (cancelTimer i s)"
  by (auto simp: timers_ok_def wait_ok_def entry_def cancelTimer_def split: js_code.splits if_splits)

lemma timers_ok_again:
  assumes "timers_ok s" and "map_find (timerMap s) i = Some st" and "i \<notin> fst ` set (waits s)"
  shows "timers_ok (async_wait i iv d
    (s\<lparr>timerMap := map_put i (st\<lparr>timer_expires_at := d\<rparr>) (timerMap s)\<rparr>))"
proof -
  from assms(1,2) have "i < timerCounter s" by (cases "i \<ge> timerCounter s") (auto simp: timers_ok_def)
  with assms show ?thesis
    by (cases "js_pc s") (auto simp: timers_ok_def wait_ok_def entry_def async_wait_def image_iff)
qed

lemma timers_ok_fire:
  assumes "timers_ok s" and "waits s = before @ (i, iv, d) # after"
    and "onTimerFire i iv e (s\<lparr>waits := before @ after\<rparr>) = (r, s')"
  shows "timers_ok s'"
  using assms(3)
proof (cases rule: onTimerFire_cases)
  case none
  with timers_ok_drop [OF assms(1,2)] show ?thesis by simp
next
  case (once st)
  with timers_ok_drop [OF assms(1,2)] show ?thesis by (simp add: timers_ok_cancel)
next
  case (again st)
  with timers_ok_drop [OF assms(1,2)] timers_ok_again [of "s\<lparr>waits := before @ after\<rparr>" i st iv]
  show ?thesis by simp
qed

lemma timers_ok_create_begin:
  assumes "timers_ok s" and "js_pc s = JsIdle"
  shows "timers_ok (create_begin iv rep cb s)"
  using assms by (auto simp: timers_ok_def wait_ok_def entry_def create_begin_def async_wait_def Let_def)

lemma timers_ok_create_end:
  assumes "timers_ok s" and "js_pc s = Waiting i st"
  shows "timers_ok (create_end i st s)"
  using assms by (auto simp: timers_ok_def wait_ok_def entry_def create_end_def)

lemma timers_ok_time: "timers_ok s \<Longrightarrow> timers_ok (s\<lparr>clock := t\<rparr>)"
  by (simp add: timers_ok_def split: js_code.splits)

lemma timers_ok_step: "timer_step s lab s' \<Longrightarrow> timers_ok s \<Longrightarrow> timers_ok s'"
proof (induction rule: timer_step.induct)
  case (fire s before timerId interval due after callback s')
  show ?case by (rule timers_ok_fire [OF fire(4,1,3)])
next
  case (ignore s before timerId interval due after s')
  show ?case by (rule timers_ok_fire [OF ignore(4,1,3)])
next
  case (abort s before timerId interval due after s')
  show ?case by (rule timers_ok_fire [OF abort(5,1,4)])
qed (simp_all add: timers_ok_cancel timers_ok_create_begin timers_ok_create_end timers_ok_time)

lemma timers_ok_run: "timer_run s tr s' \<Longrightarrow> timers_ok s \<Longrightarrow> timers_ok s'"
  by (induction rule: timer_run.induct) (auto intro: timers_ok_step)

text \<open>What the labels so far say about the timer \<open>i\<close>, created with \<open>first\<close> as its first expiry.\<close>

definition tracked :: "timer_label list \<Rightarrow> int \<Rightarrow> int \<Rightarrow> int \<Rightarrow> bool \<Rightarrow> timers \<Rightarrow> bool" where
  "tracked tr i iv first rep s \<longleftrightarrow>
     i < timerCounter s + (if js_pc s = JsIdle then 0 else 1) \<and>
     fires i tr = schedule_of first iv (length (fires i tr)) \<and>
     (\<forall>w\<in>set (waits s). fst w = i \<longrightarrow> w = (i, iv, first + int (length (fires i tr)) * iv)) \<and>
     (case entry s i of None \<Rightarrow> True | Some st \<Rightarrow> timer_repeat st = rep) \<and>
     (rep \<or> fires i tr = [] \<or> length (fires i tr) = 1 \<and> entry s i = None)"

lemma entry_irrelevant [simp]:
  "entry (s\<lparr>waits := ws\<rparr>) = entry s" "entry (s\<lparr>clock := t\<rparr>) = entry s"
  by (cases "js_pc s"; simp add: fun_eq_iff entry_def)+

lemma entry_simps:
  "js_pc s = JsIdle \<Longrightarrow> entry s = map_find (timerMap s)"
  "js_pc s = Waiting j st \<Longrightarrow> entry s i = (if i = j then Some st else map_find (timerMap s) i)"
  by (simp_all add: fun_eq_iff entry_def)

lemma tracked_drop:
  assumes "tracked tr i iv first rep s" and "waits s = before @ w # after"
  shows "tracked tr i iv first rep (s\<lparr>waits := before @ after\<rparr>)"
  using assms by (simp add: tracked_def)

lemma tracked_new:
  assumes "timers_ok s" and "js_pc s = JsIdle" and "fires (timerCounter s) tr = []"
  shows "tracked tr (timerCounter s) iv (clock s + iv) rep (create_begin iv rep cb s)"
  using assms by (auto simp: tracked_def timers_ok_def wait_ok_def create_begin_def async_wait_def
      entry_def new_TimerStruct_def Let_def)

lemma tracked_create_begin:
  assumes "tracked tr i iv first rep s" and "js_pc s = JsIdle"
  shows "tracked tr i iv first rep (create_begin iv' rep' cb s)"
  using assms by (auto simp: tracked_def create_begin_def async_wait_def entry_def Let_def)

lemma tracked_create_end:
  assumes "tracked tr i iv first rep s" and "js_pc s = Waiting j st" and "timers_ok s"
  shows "tracked tr i iv first rep (create_end j st s)"
  using assms by (auto simp: tracked_def timers_ok_def create_end_def entry_def split: option.splits if_splits)

lemma tracked_cancel:
  assumes "tracked tr i iv first rep s"
  shows "tracked tr i iv first rep (cancelTimer j s)"
  using assms by (cases "js_pc s") (auto simp: tracked_def cancelTimer_def entry_def split: if_splits option.splits)

lemma tracked_silent:
  assumes "tracked tr i iv first rep s" and "waits s = before @ w # after"
    and "onTimerFire j iv' e (s\<lparr>waits := before @ after\<rparr>) = (None, s')"
  shows "tracked tr i iv first rep s'"
  using assms(3) tracked_drop [OF assms(1,2)] by (cases rule: onTimerFire_cases) simp_all

lemma ok_find_entry:
  assumes "timers_ok s" and "map_find (timerMap s) i = Some st"
  shows "entry s i = Some st"
  using assms by (cases "js_pc s") (auto simp: timers_ok_def entry_def)

lemma tracked_fire_other:
  assumes tracked: "tracked tr i iv first rep s" and ws: "waits s = before @ (j, iv', due) # after"
    and fire: "onTimerFire j iv' False (s\<lparr>waits := before @ after\<rparr>) = (Some cb, s')" and "i \<noteq> j"
  shows "tracked (tr @ [Fired j due t]) i iv first rep s'"
  using fire
proof (cases rule: onTimerFire_cases)
  case (once st)
  with tracked_cancel [OF tracked_drop [OF tracked ws], of j] \<open>i \<noteq> j\<close> show ?thesis
    by (simp add: tracked_def)
next
  case (again st)
  with tracked_drop [OF tracked ws] \<open>i \<noteq> j\<close> show ?thesis
    by (cases "js_pc s") (auto simp: tracked_def async_wait_def entry_def)
qed simp

lemma tracked_fire_same:
  assumes ok: "timers_ok s" and tracked: "tracked tr i iv first rep s"
    and ws: "waits s = before @ (i, iv', due) # after"
    and fire: "onTimerFire i iv' False (s\<lparr>waits := before @ after\<rparr>) = (Some cb, s')"
  shows "tracked (tr @ [Fired i due t]) i iv first rep s'"
proof -
  let ?n = "length (fires i tr)"
  have w: "iv' = iv" "due = first + int ?n * iv" using tracked ws by (auto simp: tracked_def)
  have others: "\<forall>w\<in>set (before @ after). fst w \<noteq> i"
    using timers_ok_drop(2) [OF ok ws] by (auto simp: image_iff)
  have fires: "fires i (tr @ [Fired i due t]) = schedule_of first iv (Suc ?n)"
    using tracked w by (simp add: tracked_def)
  have less: "i < timerCounter s + (if js_pc s = JsIdle then 0 else 1)"
    using tracked by (simp add: tracked_def)
  have ent: "entry s i = Some st \<and> timer_expires_at st = due \<and> timer_repeat st = rep"
    if "map_find (timerMap s) i = Some st" for st
    using ok_find_entry [OF ok that] ok tracked ws by (auto simp: timers_ok_def wait_ok_def tracked_def)
  have idle: "js_pc s = JsIdle \<or> (\<exists>k st. js_pc s = Waiting k st \<and> k \<noteq> i)"
    if "map_find (timerMap s) i = Some st'" for st'
    using ok that by (cases "js_pc s") (auto simp: timers_ok_def)
  from fire show ?thesis
  proof (cases rule: onTimerFire_cases)
    case (once st)
    then have find: "map_find (timerMap s) i = Some st" by simp
    from ent [OF find] once(3) tracked have "fires i tr = []" by (auto simp: tracked_def)
    moreover have "entry s' i = None" using idle [OF find] once(4) by (auto simp: cancelTimer_def entry_def)
    ultimately show ?thesis using fires w less others once(4) by (auto simp: tracked_def cancelTimer_def)
  next
    case (again st)
    then have find: "map_find (timerMap s) i = Some st" by simp
    have "entry s' i = Some (st\<lparr>timer_expires_at := timer_expires_at st + iv'\<rparr>)"
      using idle [OF find] again(4) by (auto simp: async_wait_def entry_def)
    with fires w less others again(3,4) ent [OF find] show ?thesis
      by (auto simp: tracked_def async_wait_def algebra_simps)
  qed simp
qed

lemma tracked_append: "fires i [lab] = [] \<Longrightarrow> tracked (tr @ [lab]) i iv first rep = tracked tr i iv first rep"
  by (simp add: fun_eq_iff tracked_def)

lemma tracked_time: "tracked tr i iv first rep s \<Longrightarrow> tracked tr i iv first rep (s\<lparr>clock := t\<rparr>)"
  by (simp add: tracked_def)

lemma tracked_step:
  assumes "timer_step s lab s'" and "timers_ok s" and "tracked tr i iv first rep s"
  shows "tracked (tr @ [lab]) i iv first rep s'"
  using assms(1)
proof (cases rule: timer_step.cases)
  case (fire before timerId interval due after callback)
  then show ?thesis
    using tracked_fire_other [OF assms(3) fire(2,4)] tracked_fire_same [OF assms(2,3)]
    by (cases "i = timerId") auto
next
  case (ignore before timerId interval due after)
  with tracked_silent [OF assms(3) ignore(2,4)] show ?thesis by (simp add: tracked_append)
next
  case (abort before timerId interval due after)
  with tracked_silent [OF assms(3) abort(2,5)] show ?thesis by (simp add: tracked_append)
qed (use assms(2,3) in \<open>simp_all add: tracked_append tracked_time tracked_create_begin tracked_create_end
  tracked_cancel\<close>)

definition fresh :: "timer_label list \<Rightarrow> timers \<Rightarrow> bool" where
  "fresh tr s \<longleftrightarrow> (\<forall>i\<ge>timerCounter s. fires i tr = [])"

lemma fresh_fire:
  assumes "timers_ok s" and "fresh tr s" and "onTimerFire i iv False (s\<lparr>waits := ws\<rparr>) = (Some cb, s')"
  shows "fresh (tr @ [Fired i due t]) s'"
  using assms(3)
proof (cases rule: onTimerFire_cases)
  case (once st)
  then have "map_find (timerMap s) i = Some st" by simp
  with assms(1) have "i < timerCounter s" by (cases "timerCounter s \<le> i") (auto simp: timers_ok_def)
  with assms(2) once(4) show ?thesis by (simp add: fresh_def cancelTimer_def)
next
  case (again st)
  then have "map_find (timerMap s) i = Some st" by simp
  with assms(1) have "i < timerCounter s" by (cases "timerCounter s \<le> i") (auto simp: timers_ok_def)
  with assms(2) again(4) show ?thesis by (simp add: fresh_def async_wait_def)
qed simp

lemma fresh_silent:
  assumes "fresh tr s" and "onTimerFire i iv e (s\<lparr>waits := ws\<rparr>) = (None, s')"
  shows "fresh (tr @ [Silent]) s'"
  using assms(2,1) by (cases rule: onTimerFire_cases) (simp_all add: fresh_def)

lemma fresh_step:
  assumes "timer_step s lab s'" and "timers_ok s" and "fresh tr s"
  shows "fresh (tr @ [lab]) s'"
  using assms(1)
proof (cases rule: timer_step.cases)
  case (fire before timerId interval due after callback)
  with fresh_fire [OF assms(2,3) fire(4)] show ?thesis by simp
next
  case (ignore before timerId interval due after)
  with fresh_silent [OF assms(3) ignore(4)] show ?thesis by simp
next
  case (abort before timerId interval due after)
  with fresh_silent [OF assms(3) abort(5)] show ?thesis by simp
qed (use assms(3) in \<open>simp_all add: fresh_def create_begin_def create_end_def async_wait_def
  cancelTimer_def Let_def\<close>)

lemma created_step:
  assumes "timer_step s (Created i iv first rep) s'" and "timers_ok s" and "fresh tr s"
  shows "tracked (tr @ [Created i iv first rep]) i iv first rep s'"
  using assms(1)
proof (cases rule: timer_step.cases)
  case (begin_create callback)
  with tracked_new [OF assms(2), of tr iv rep callback] assms(3) show ?thesis
    by (simp add: tracked_append fresh_def)
qed

lemma run_tracked:
  assumes "timer_run s0 tr s" and "s0 = CETimerUtils"
  shows "timers_ok s \<and> fresh tr s \<and>
    (\<forall>i iv first rep. Created i iv first rep \<in> set tr \<longrightarrow> tracked tr i iv first rep s)"
  using assms
proof (induction rule: timer_run.induct)
  case (timer_Nil s)
  then show ?case by (simp add: timers_ok_init fresh_def)
next
  case (timer_snoc s tr s' lab s'')
  then have IH: "timers_ok s'" "fresh tr s'"
    "\<And>i iv first rep. Created i iv first rep \<in> set tr \<Longrightarrow> tracked tr i iv first rep s'" by blast+
  have "tracked (tr @ [lab]) i iv first rep s''" if "Created i iv first rep \<in> set (tr @ [lab])" for i iv first rep
  proof (cases "lab = Created i iv first rep")
    case True
    with created_step [OF _ IH(1,2)] timer_snoc(2) show ?thesis by blast
  next
    case False
    with that have "Created i iv first rep \<in> set tr" by simp
    from tracked_step [OF timer_snoc(2) IH(1) IH(3) [OF this]] show ?thesis .
  qed
  with timers_ok_step [OF timer_snoc(2) IH(1)] fresh_step [OF timer_snoc(2) IH(1,2)] show ?case by blast
qed

inductive_cases timer_run_NilE: "timer_run s [] s'"
inductive_cases timer_run_oneE: "timer_run s [lab] s'"
inductive_cases timer_run_snocE: "timer_run s (tr @ [lab]) s'"

lemma timer_run_split:
  assumes "timer_run s (tr @ tr') s''"
  shows "\<exists>s'. timer_run s tr s' \<and> timer_run s' tr' s''"
  using assms
proof (induction tr' arbitrary: s'' rule: rev_induct)
  case Nil
  then show ?case using timer_Nil by auto
next
  case (snoc lab tr')
  from snoc.prems have "timer_run s ((tr @ tr') @ [lab]) s''" by simp
  then obtain m where m: "timer_run s (tr @ tr') m" "timer_step m lab s''" by (rule timer_run_snocE)
  from snoc.IH [OF m(1)] obtain s' where "timer_run s tr s'" "timer_run s' tr' m" by blast
  with timer_snoc [OF this(2) m(2)] show ?case by blast
qed

lemma fired_on_time: "timer_run s tr s' \<Longrightarrow> Fired i due t \<in> set tr \<Longrightarrow> due \<le> t"
  by (induction rule: timer_run.induct) (auto elim: timer_step.cases)

lemma cancel_gone:
  assumes "timer_step s (Cancelled i) s'" and "i < timerCounter s"
  shows "gone i s'"
  using assms(1) by (cases rule: timer_step.cases) (use assms(2) in \<open>auto simp: gone_def cancelTimer_def\<close>)

lemma timer_run_one: "timer_step s a s' \<Longrightarrow> timer_run s [a] s'"
  using timer_snoc [OF timer_Nil] by simp

lemma timer_run_step: "timer_run s tr s' \<Longrightarrow> timer_step s' a s'' \<Longrightarrow> tr' = tr @ [a] \<Longrightarrow> timer_run s tr' s''"
  using timer_snoc by simp

text \<open>A timer without a wait never fires.\<close>

definition orphan :: "int \<Rightarrow> timers \<Rightarrow> bool" where
  "orphan i s \<longleftrightarrow> i \<notin> fst ` set (waits s) \<and> i < timerCounter s \<and>
     (\<forall>j st. js_pc s = Waiting j st \<longrightarrow> j = timerCounter s)"

lemma orphan_fire:
  assumes "orphan i s" and "waits s = before @ (j, iv, due) # after"
    and "onTimerFire j iv e (s\<lparr>waits := before @ after\<rparr>) = (r, s')"
  shows "orphan i s' \<and> j \<noteq> i"
  using assms(3)
proof (cases rule: onTimerFire_cases)
qed (use assms(1,2) in \<open>auto simp: orphan_def cancelTimer_def async_wait_def\<close>)

lemma orphan_step:
  assumes "timer_step s lab s'" and "orphan i s"
  shows "orphan i s' \<and> fires i [lab] = []"
  using assms(1)
proof (cases rule: timer_step.cases)
  case (fire before timerId interval due after callback)
  with orphan_fire [OF assms(2) fire(2,4)] show ?thesis by auto
next
  case (ignore before timerId interval due after)
  with orphan_fire [OF assms(2) ignore(2,4)] show ?thesis by simp
next
  case (abort before timerId interval due after)
  with orphan_fire [OF assms(2) abort(2,5)] show ?thesis by simp
qed (use assms(2) in \<open>auto simp: orphan_def create_begin_def create_end_def async_wait_def
  cancelTimer_def Let_def\<close>)

lemma orphan_run: "timer_run s tr s' \<Longrightarrow> orphan i s \<Longrightarrow> orphan i s' \<and> fires i tr = []"
  by (induction rule: timer_run.induct) (use orphan_step in fastforce)+

section \<open>Properties\<close>

text \<open>
  C16: in every interleaving of the JS thread and the timer thread, a timer fires exactly at its multiples: the
  expiries of its firings are its first expiry, then one interval more each time, with none skipped or repeated;
  a timer that does not repeat fires at most once; and no callback is called before the expiry.
\<close>

theorem timer_schedule:
  assumes "timer_run CETimerUtils tr s" and "Created i interval first rep \<in> set tr"
  shows "(\<exists>n. fires i tr = schedule_of first interval n \<and> (rep \<or> n \<le> 1)) \<and>
    (\<forall>due t. Fired i due t \<in> set tr \<longrightarrow> due \<le> t)"
proof -
  have "tracked tr i interval first rep s" using run_tracked [OF assms(1) refl] assms(2) by blast
  then have "fires i tr = schedule_of first interval (length (fires i tr)) \<and> (rep \<or> length (fires i tr) \<le> 1)"
    by (auto simp: tracked_def)
  then show ?thesis using fired_on_time [OF assms(1)] by blast
qed


text \<open>
  C18: when \<open>createTimer\<close> completes before its wait is due, the timer does fire: at every later time at which the wait
  is due the timer thread can take it, and posts the callback that was given.
\<close>

theorem created_timer_fires:
  assumes "timers_ok s" and "js_pc s = JsIdle" and "clock s \<le> t" and "clock s + interval \<le> t"
  shows "fst (createTimer interval rep callback s) = timerCounter s \<and>
    (\<exists>s'. onTimerFire (timerCounter s) interval False
        ((snd (createTimer interval rep callback s))\<lparr>clock := t, waits := waits s\<rparr>) = (Some callback, s') \<and>
      timer_run s [Created (timerCounter s) interval (clock s + interval) rep, Silent, Silent,
        Fired (timerCounter s) (clock s + interval) t] s')"
proof -
  let ?i = "timerCounter s" and ?st = "new_TimerStruct (clock s) interval rep callback"
  let ?s1 = "create_begin interval rep callback s"
  let ?s2 = "create_end ?i ?st ?s1"
  let ?s3 = "?s2\<lparr>clock := t\<rparr>"
  have none: "map_find (timerMap s) ?i = None" using assms(1) by (simp add: timers_ok_def)
  then have ex: "\<exists>s'. onTimerFire ?i interval False (?s3\<lparr>waits := waits s\<rparr>) = (Some callback, s')"
    by (simp add: step_simps Let_def)
  then obtain s' where s': "onTimerFire ?i interval False (?s3\<lparr>waits := waits s\<rparr>) = (Some callback, s')" by blast
  have s1: "timer_step s (Created ?i interval (clock s + interval) rep) ?s1"
    by (rule begin_create) (rule assms(2))
  have s2: "timer_step ?s1 Silent ?s2"
    by (rule end_create) (simp add: create_begin_def Let_def)
  have s3: "timer_step ?s2 Silent ?s3"
    by (rule time) (simp add: step_simps Let_def assms(3))
  have s4: "timer_step ?s3 (Fired ?i (clock s + interval) (clock ?s3)) s'"
    by (rule fire [where before = "waits s" and after = "[]"])
      (use assms s' in \<open>simp_all add: step_simps Let_def\<close>)
  from timer_run_step [OF timer_run_step [OF timer_run_step [OF timer_run_one [OF s1] s2 refl] s3 refl] s4 refl] s'
  show ?thesis by (auto simp: createTimer_def)
qed


section \<open>Witnesses\<close>

text \<open>A run of two firings of a repeating timer, and its cancellation while a third wait is due.\<close>

definition example_run :: "timer_label list" where
  "example_run = [Created 0 5 5 True, Silent, Silent, Fired 0 5 20, Fired 0 10 20, Cancelled 0, Silent]"

lemma example_run_exists: "\<exists>s. timer_run CETimerUtils example_run s"
proof -
  let ?st = "new_TimerStruct 0 5 True 7"
  let ?s1 = "create_begin 5 True 7 CETimerUtils"
  let ?s2 = "create_end 0 ?st ?s1"
  let ?s3 = "?s2\<lparr>clock := 20\<rparr>"
  let ?s4 = "snd (onTimerFire 0 5 False (?s3\<lparr>waits := []\<rparr>))"
  let ?s5 = "snd (onTimerFire 0 5 False (?s4\<lparr>waits := []\<rparr>))"
  let ?s6 = "cancelTimer 0 ?s5"
  let ?s7 = "?s6\<lparr>waits := []\<rparr>"
  note defs = step_simps CETimerUtils_def map_find_def map_erase_def Let_def
  have s1: "timer_step CETimerUtils (Created 0 5 5 True) ?s1"
    using begin_create [of CETimerUtils 5 True 7] by (simp add: CETimerUtils_def)
  have s2: "timer_step ?s1 Silent ?s2"
    by (rule end_create) (simp add: create_begin_def CETimerUtils_def Let_def)
  have s3: "timer_step ?s2 Silent ?s3" by (rule time) (simp add: defs)
  have s4: "timer_step ?s3 (Fired 0 5 (clock ?s3)) ?s4"
    by (rule fire [where before = "[]" and after = "[]"]) (simp_all add: defs)
  have s5: "timer_step ?s4 (Fired 0 10 (clock ?s4)) ?s5"
    by (rule fire [where before = "[]" and after = "[]"]) (simp_all add: defs)
  have s6: "timer_step ?s5 (Cancelled 0) ?s6" by (rule cancel) (simp add: defs)
  have s7: "timer_step ?s6 Silent ?s7"
    by (rule ignore [where before = "[]" and after = "[]" and timerId = 0 and interval = 5 and due = 15]) (simp_all add: defs)
  have c: "clock ?s3 = 20" "clock ?s4 = 20" by (simp_all add: defs)
  note run3 = timer_run_step [OF timer_run_step [OF timer_run_one [OF s1] s2 refl] s3 refl]
  note run5 = timer_run_step [OF timer_run_step [OF run3 s4 refl] s5 refl]
  note run7 = timer_run_step [OF timer_run_step [OF run5 s6 refl] s7 refl]
  from run7 c show ?thesis by (auto simp: example_run_def)
qed

theorem timer_schedule_witness:
  "(\<exists>s. timer_run CETimerUtils example_run s) \<and> Created 0 5 5 True \<in> set example_run \<and>
   fires 0 example_run = [5, 10] \<and> (\<exists>n. fires 0 example_run = schedule_of 5 5 n)"
proof -
  obtain s where "timer_run CETimerUtils example_run s" using example_run_exists by blast
  from timer_schedule [OF this, of 0 5 5 True] example_run_exists show ?thesis by (auto simp: example_run_def)
qed


theorem created_timer_fires_witness:
  "timers_ok CETimerUtils \<and>
   (\<exists>s'. timer_run CETimerUtils [Created 0 3 3 False, Silent, Silent, Fired 0 3 4] s')"
  using created_timer_fires [of CETimerUtils 4 3 False 7] timers_ok_init
  by (auto simp: CETimerUtils_def)


end
