(* ===== verification/Ldb_Coding.thy ===== *)
theory Ldb_Coding
  imports Unify_Prelude
begin

text \<open>
  LevelDB's encodings (\<^verbatim>\<open>src/unifyframework/leveldb-master/util/coding.h\<close> and \<^verbatim>\<open>coding.cc\<close>): little-endian
  numbers of fixed length, numbers of variable length, and strings with their length in front.

  A writer is given as the bytes that it puts into the buffer; a \<open>Put\<close> function appends them to a
  string. A reader takes the bytes from the pointer to the limit; it returns the value and
  the bytes after it, \<open>None\<close> for a null pointer. \<open>DecodeFixed32\<close> and \<open>DecodeFixed64\<close> do not check the
  bounds in C++, and are unspecified here when there are too few bytes.
  On a little-endian machine the source copies the bytes of the number, otherwise it shifts; both
  give the same bytes, and the model follows the shifts.
\<close>

unbundle bit_operations_syntax

section \<open>Fixed length\<close>

definition EncodeFixed32 :: "u32 \<Rightarrow> bytes" where
  "EncodeFixed32 v =
     [ucast (v AND 0xff), ucast (drop_bit 8 v AND 0xff), ucast (drop_bit 16 v AND 0xff),
      ucast (drop_bit 24 v AND 0xff)]"

definition EncodeFixed64 :: "u64 \<Rightarrow> bytes" where
  "EncodeFixed64 v =
     [ucast (v AND 0xff), ucast (drop_bit 8 v AND 0xff), ucast (drop_bit 16 v AND 0xff),
      ucast (drop_bit 24 v AND 0xff), ucast (drop_bit 32 v AND 0xff), ucast (drop_bit 40 v AND 0xff),
      ucast (drop_bit 48 v AND 0xff), ucast (drop_bit 56 v AND 0xff)]"

definition PutFixed32 :: "bytes \<Rightarrow> u32 \<Rightarrow> bytes" where
  "PutFixed32 dst v = dst @ EncodeFixed32 v"

definition PutFixed64 :: "bytes \<Rightarrow> u64 \<Rightarrow> bytes" where
  "PutFixed64 dst v = dst @ EncodeFixed64 v"

fun DecodeFixed32 :: "bytes \<Rightarrow> u32" where
  "DecodeFixed32 (b0 # b1 # b2 # b3 # _) =
     ucast b0 OR push_bit 8 (ucast b1) OR push_bit 16 (ucast b2) OR push_bit 24 (ucast b3)"

definition DecodeFixed64 :: "bytes \<Rightarrow> u64" where
  "DecodeFixed64 p =
     (let lo = ucast (DecodeFixed32 p); hi = ucast (DecodeFixed32 (drop 4 p))
      in push_bit 32 hi OR lo)"

section \<open>Variable length\<close>

definition EncodeVarint32 :: "u32 \<Rightarrow> bytes" where
  "EncodeVarint32 v =
     (if v < 2 ^ 7 then [ucast v]
      else if v < 2 ^ 14 then [ucast (v OR 128), ucast (drop_bit 7 v)]
      else if v < 2 ^ 21 then [ucast (v OR 128), ucast (drop_bit 7 v OR 128), ucast (drop_bit 14 v)]
      else if v < 2 ^ 28 then
        [ucast (v OR 128), ucast (drop_bit 7 v OR 128), ucast (drop_bit 14 v OR 128), ucast (drop_bit 21 v)]
      else
        [ucast (v OR 128), ucast (drop_bit 7 v OR 128), ucast (drop_bit 14 v OR 128),
         ucast (drop_bit 21 v OR 128), ucast (drop_bit 28 v)])"

lemma drop_bit_7_less: "128 \<le> (v :: u64) \<Longrightarrow> unat (drop_bit 7 v) < unat v"
proof -
  assume "128 \<le> v"
  then have "128 \<le> unat v" by (simp add: word_le_nat_alt)
  then show ?thesis unfolding unat_drop_bit_eq drop_bit_nat_def by simp
qed

function EncodeVarint64 :: "u64 \<Rightarrow> bytes" where
  "EncodeVarint64 v =
     (if v \<ge> 128 then ucast ((v AND 127) OR 128) # EncodeVarint64 (drop_bit 7 v) else [ucast v])"
  by auto
termination
  by (relation "measure unat") (auto dest: drop_bit_7_less)

declare EncodeVarint64.simps [simp del]

definition PutVarint32 :: "bytes \<Rightarrow> u32 \<Rightarrow> bytes" where
  "PutVarint32 dst v = dst @ EncodeVarint32 v"

definition PutVarint64 :: "bytes \<Rightarrow> u64 \<Rightarrow> bytes" where
  "PutVarint64 dst v = dst @ EncodeVarint64 v"

function varint_length_loop :: "u64 \<Rightarrow> nat \<Rightarrow> nat" where
  "varint_length_loop v len = (if v \<ge> 128 then varint_length_loop (drop_bit 7 v) (len + 1) else len)"
  by auto
termination
  by (relation "measure (unat \<circ> fst)") (auto dest: drop_bit_7_less)

declare varint_length_loop.simps [simp del]

definition VarintLength :: "u64 \<Rightarrow> nat" where
  "VarintLength v = varint_length_loop v 1"

fun varint32_loop :: "nat \<Rightarrow> u32 \<Rightarrow> bytes \<Rightarrow> (u32 \<times> bytes) option" where
  "varint32_loop shift result [] = None"
| "varint32_loop shift result (p # ps) =
     (if shift \<le> 28
      then let byte = ucast p
           in if byte AND 128 \<noteq> 0
              then varint32_loop (shift + 7) (result OR push_bit shift (byte AND 127)) ps
              else Some (result OR push_bit shift byte, ps)
      else None)"

definition GetVarint32PtrFallback :: "bytes \<Rightarrow> (u32 \<times> bytes) option" where
  "GetVarint32PtrFallback p = varint32_loop 0 0 p"

definition GetVarint32Ptr :: "bytes \<Rightarrow> (u32 \<times> bytes) option" where
  "GetVarint32Ptr p =
     (case p of
        b # ps \<Rightarrow> (let result = ucast b
                   in if result AND 128 = 0 then Some (result, ps) else GetVarint32PtrFallback p)
      | [] \<Rightarrow> GetVarint32PtrFallback p)"

definition GetVarint32 :: "bytes \<Rightarrow> (u32 \<times> bytes) option" where
  "GetVarint32 input = GetVarint32Ptr input"

fun varint64_loop :: "nat \<Rightarrow> u64 \<Rightarrow> bytes \<Rightarrow> (u64 \<times> bytes) option" where
  "varint64_loop shift result [] = None"
| "varint64_loop shift result (p # ps) =
     (if shift \<le> 63
      then let byte = ucast p
           in if byte AND 128 \<noteq> 0
              then varint64_loop (shift + 7) (result OR push_bit shift (byte AND 127)) ps
              else Some (result OR push_bit shift byte, ps)
      else None)"

definition GetVarint64Ptr :: "bytes \<Rightarrow> (u64 \<times> bytes) option" where
  "GetVarint64Ptr p = varint64_loop 0 0 p"

definition GetVarint64 :: "bytes \<Rightarrow> (u64 \<times> bytes) option" where
  "GetVarint64 input = GetVarint64Ptr input"

section \<open>Strings\<close>

definition PutLengthPrefixedSlice :: "bytes \<Rightarrow> bytes \<Rightarrow> bytes" where
  "PutLengthPrefixedSlice dst value = PutVarint32 dst (of_nat (length value)) @ value"

definition GetLengthPrefixedSlice :: "bytes \<Rightarrow> (bytes \<times> bytes) option" where
  "GetLengthPrefixedSlice input =
     (case GetVarint32 input of
        Some (len, input') \<Rightarrow>
          if length input' \<ge> unat len then Some (take (unat len) input', drop (unat len) input') else None
      | None \<Rightarrow> None)"

section \<open>The reference encoding\<close>

text \<open>Digits to the base of 128, the lowest first, all but the last with the high bit set.\<close>

fun varint :: "nat \<Rightarrow> bytes" where
  "varint n = (if n < 128 then [of_nat n] else of_nat (n mod 128 + 128) # varint (n div 128))"

declare varint.simps [simp del]

lemma varint_induct [case_names small large]:
  fixes P :: "nat \<Rightarrow> bool"
  assumes "\<And>n. n < 128 \<Longrightarrow> P n" and "\<And>n. n \<ge> 128 \<Longrightarrow> P (n div 128) \<Longrightarrow> P n"
  shows "P n"
  by (induction n rule: varint.induct) (metis assms not_less)

lemma varint_simps:
  "n < 128 \<Longrightarrow> varint n = [of_nat n]"
  "n \<ge> 128 \<Longrightarrow> varint n = of_nat (n mod 128 + 128) # varint (n div 128)"
  by (simp_all add: varint.simps)

lemma bit_128: "bit (128 :: int) k \<longleftrightarrow> k = 7" "bit (128 :: nat) k \<longleftrightarrow> k = 7"
  using bit_exp_iff [of 7 k, where ?'a = int] bit_exp_iff [of 7 k, where ?'a = nat] by auto

lemma bit_127: "bit (127 :: int) k \<longleftrightarrow> k < 7"
  using bit_mask_iff [of 7 k, where ?'a = int] by (simp add: mask_eq_exp_minus_1)

lemma not_bit_digit:
  assumes "n < (128 :: nat)" and "7 \<le> k"
  shows "\<not> bit n k"
proof -
  have "take_bit 7 n = n" using assms(1) by (simp add: take_bit_nat_eq_self)
  then show ?thesis using assms(2) by (metis bit_take_bit_iff not_less)
qed

lemma high_bit_or: "n < 128 \<Longrightarrow> n + 128 = n OR (128 :: nat)"
  by (rule disjunctive_add) (auto simp: bit_128 not_bit_digit)

lemma ucast_high_byte:
  "(ucast (of_nat (n mod 128 + 128) :: byte) :: 'a::len word) = take_bit 7 (of_nat n) OR 128"
proof -
  have "unat (of_nat (n mod 128 + 128) :: byte) = n mod 128 + 128"
    unfolding unat_of_nat by (simp add: mod_less)
  then have "(ucast (of_nat (n mod 128 + 128) :: byte) :: 'a word) = of_nat (n mod 128 + 128)"
    using of_nat_unat [of "of_nat (n mod 128 + 128) :: byte", where ?'a = "'a word"] by simp
  also have "\<dots> = of_nat (take_bit 7 n OR 128)" using high_bit_or [of "n mod 128"] by (simp add: take_bit_eq_mod)
  finally show ?thesis by (simp add: of_nat_or_eq of_nat_take_bit)
qed

lemma ucast_low_byte: "n < 128 \<Longrightarrow> (ucast (of_nat n :: byte) :: 'a::len word) = of_nat n"
  using of_nat_unat [of "of_nat n :: byte", where ?'a = "'a word"] by (simp add: unat_of_nat)

lemma high_byte_and:
  fixes x :: "'a::len word"
  shows "(take_bit 7 x OR 128) AND 127 = take_bit 7 x"
    and "7 < LENGTH('a) \<Longrightarrow> (take_bit 7 x OR 128) AND 128 \<noteq> 0"
proof -
  show "(take_bit 7 x OR 128) AND 127 = take_bit 7 x"
    by (rule bit_word_eqI) (auto simp: bit_simps bit_128 bit_127)
  assume "7 < LENGTH('a)"
  then have "bit ((take_bit 7 x OR 128) AND 128) 7" by (simp add: bit_simps bit_128)
  then show "(take_bit 7 x OR 128) AND 128 \<noteq> 0" by (metis bit_0_eq bot_apply bot_bool_def)
qed

lemma low_byte_and:
  assumes "n < 128"
  shows "(of_nat n :: 'a::len word) AND 128 = 0"
proof (rule bit_word_eqI)
  fix k
  show "bit ((of_nat n :: 'a word) AND 128) k = bit 0 k"
    using not_bit_digit [OF assms] by (auto simp: bit_simps bit_128)
qed

lemma join_digits:
  fixes r :: "'a::len word"
  shows "(r OR push_bit s (take_bit 7 (of_nat n))) OR push_bit (s + 7) (of_nat (n div 128)) =
    r OR push_bit s (of_nat n)"
proof -
  have "n = take_bit 7 n OR push_bit 7 (drop_bit 7 n)"
    using bits_ident [of 7 n] disjunctive_add [of "push_bit 7 (drop_bit 7 n)" "take_bit 7 n"]
    by (simp add: bit_simps or.commute)
  then have "(of_nat n :: 'a word) = take_bit 7 (of_nat n) OR push_bit 7 (of_nat (drop_bit 7 n))"
    by (metis of_nat_or_eq of_nat_push_bit of_nat_take_bit)
  from arg_cong [OF this, of "push_bit s"]
  have "push_bit s (of_nat n :: 'a word) =
      push_bit s (take_bit 7 (of_nat n)) OR push_bit (s + 7) (of_nat (n div 128))"
    by (simp only: push_bit_or push_bit_push_bit drop_bit_nat_def) simp
  then show ?thesis by (simp add: or.assoc)
qed

section \<open>Writers and readers follow the reference\<close>

lemma ucast_of_nat_unat: "ucast (w :: 'a::len word) = (of_nat (unat w) :: 'b::len word)"
  by (simp add: of_nat_unat)

lemma unat_drop_7: "unat (drop_bit 7 w) = unat (w :: 'a::len word) div 128"
  unfolding unat_drop_bit_eq drop_bit_nat_def by simp

lemma high_byte_eq:
  fixes w :: "'a::len word"
  assumes "8 \<le> LENGTH('a)"
  shows "(ucast ((w AND 127) OR 128) :: byte) = of_nat (unat w mod 128 + 128)"
    and "(ucast (w OR 128) :: byte) = of_nat (unat w mod 128 + 128)"
proof -
  have "(of_nat (unat w mod 128 + 128) :: byte) = take_bit 7 (ucast w) OR 128"
    using ucast_high_byte [of "unat w", where ?'a = 8] by (simp add: of_nat_unat)
  moreover have "(ucast ((w AND 127) OR 128) :: byte) = take_bit 7 (ucast w) OR 128"
    using assms by (intro bit_word_eqI) (auto simp: bit_simps bit_128 bit_127)
  moreover have "(ucast (w OR 128) :: byte) = take_bit 7 (ucast w) OR 128"
    using assms by (intro bit_word_eqI) (auto simp: bit_simps bit_128)
  ultimately show "(ucast ((w AND 127) OR 128) :: byte) = of_nat (unat w mod 128 + 128)"
    and "(ucast (w OR 128) :: byte) = of_nat (unat w mod 128 + 128)" by simp_all
qed

lemma EncodeVarint64_varint: "EncodeVarint64 v = varint (unat v)"
proof (induction v rule: EncodeVarint64.induct)
  case (1 v)
  show ?case
  proof (cases "v \<ge> 128")
    case True
    then have "unat v \<ge> 128" by (simp add: word_le_nat_alt)
    with True 1 show ?thesis
      by (subst EncodeVarint64.simps) (simp add: varint_simps high_byte_eq(1) unat_drop_7)
  next
    case False
    then have "unat v < 128" by (simp add: word_le_nat_alt)
    with False show ?thesis
      by (subst EncodeVarint64.simps) (simp add: varint_simps of_nat_unat)
  qed
qed

lemma EncodeVarint32_varint: "EncodeVarint32 v = varint (unat v)"
proof -
  have drop: "drop_bit 14 v = drop_bit 7 (drop_bit 7 v)" "drop_bit 21 v = drop_bit 7 (drop_bit 14 v)"
    "drop_bit 28 v = drop_bit 7 (drop_bit 21 v)"
    by (simp_all only: drop_bit_drop_bit) simp_all
  have unat: "unat (drop_bit 14 v) = unat v div 128 div 128" "unat (drop_bit 21 v) = unat v div 128 div 128 div 128"
    "unat (drop_bit 28 v) = unat v div 128 div 128 div 128 div 128"
    by (simp_all add: drop unat_drop_7 del: drop_bit_drop_bit)
  have less: "unat v < 2 ^ 32" using unsigned_less [of v, where ?'a = nat] by simp
  have bytes: "(ucast (drop_bit 7 v OR 128) :: byte) = of_nat (unat v div 128 mod 128 + 128)"
    "(ucast (drop_bit 14 v OR 128) :: byte) = of_nat (unat v div 128 div 128 mod 128 + 128)"
    "(ucast (drop_bit 21 v OR 128) :: byte) = of_nat (unat v div 128 div 128 div 128 mod 128 + 128)"
    "(ucast (v OR 128) :: byte) = of_nat (unat v mod 128 + 128)"
    using high_byte_eq(2) [of "drop_bit 7 v"] high_byte_eq(2) [of "drop_bit 14 v"]
      high_byte_eq(2) [of "drop_bit 21 v"] high_byte_eq(2) [of v] by (simp_all add: unat unat_drop_7)
  have low: "(ucast (drop_bit 7 v) :: byte) = of_nat (unat v div 128)"
    "(ucast (drop_bit 14 v) :: byte) = of_nat (unat v div 128 div 128)"
    "(ucast (drop_bit 21 v) :: byte) = of_nat (unat v div 128 div 128 div 128)"
    "(ucast (drop_bit 28 v) :: byte) = of_nat (unat v div 128 div 128 div 128 div 128)"
    by (simp_all only: ucast_of_nat_unat [where ?'b = 8] unat unat_drop_7)
  show ?thesis
    unfolding EncodeVarint32_def word_less_nat_alt
    using less by (auto simp: varint_simps bytes low)
qed

lemma varint32_loop_varint:
  "n < 2 ^ (32 - s) \<Longrightarrow> s \<le> 28 \<Longrightarrow> 7 dvd s \<Longrightarrow>
    varint32_loop s r (varint n @ t) = Some (r OR push_bit s (of_nat n), t)"
proof (induction n arbitrary: s r rule: varint_induct)
  case (small n)
  then show ?case by (simp add: varint_simps ucast_low_byte low_byte_and Let_def)
next
  case (large n)
  have "(2::nat) ^ 7 < 2 ^ (32 - s)" using large.hyps large.prems(1) by simp
  then have "7 < 32 - s" by (rule power_less_imp_less_exp [rotated]) simp
  with large.prems(3) have s: "s + 7 \<le> 28" by (auto elim: dvdE)
  have "2 ^ (32 - s) = 2 ^ (32 - (s + 7)) * (128::nat)"
    using s power_add [of "2::nat" "32 - (s + 7)" 7] by simp
  then have "n div 128 < 2 ^ (32 - (s + 7))" using large.prems(1) by (simp add: less_mult_imp_div_less)
  from large.IH [OF this s, of "r OR push_bit s (take_bit 7 (of_nat n))"] large.hyps large.prems(2,3) show ?case
    unfolding varint_simps(2) [OF large.hyps] append_Cons varint32_loop.simps ucast_high_byte
    by (simp add: high_byte_and join_digits Let_def)
qed

lemma varint64_loop_varint:
  "n < 2 ^ (64 - s) \<Longrightarrow> s \<le> 63 \<Longrightarrow> 7 dvd s \<Longrightarrow>
    varint64_loop s r (varint n @ t) = Some (r OR push_bit s (of_nat n), t)"
proof (induction n arbitrary: s r rule: varint_induct)
  case (small n)
  then show ?case by (simp add: varint_simps ucast_low_byte low_byte_and Let_def)
next
  case (large n)
  have "(2::nat) ^ 7 < 2 ^ (64 - s)" using large.hyps large.prems(1) by simp
  then have "7 < 64 - s" by (rule power_less_imp_less_exp [rotated]) simp
  with large.prems(3) have s: "s + 7 \<le> 63" by (auto elim: dvdE)
  have "2 ^ (64 - s) = 2 ^ (64 - (s + 7)) * (128::nat)"
    using s power_add [of "2::nat" "64 - (s + 7)" 7] by simp
  then have "n div 128 < 2 ^ (64 - (s + 7))" using large.prems(1) by (simp add: less_mult_imp_div_less)
  from large.IH [OF this s, of "r OR push_bit s (take_bit 7 (of_nat n))"] large.hyps large.prems(2,3) show ?case
    unfolding varint_simps(2) [OF large.hyps] append_Cons varint64_loop.simps ucast_high_byte
    by (simp add: high_byte_and join_digits Let_def)
qed

text \<open>The fast path for one byte agrees with the loop.\<close>

lemma GetVarint32Ptr_loop: "GetVarint32Ptr p = varint32_loop 0 0 p"
  by (cases p) (simp_all add: GetVarint32Ptr_def GetVarint32PtrFallback_def Let_def)

lemma varint_not_empty [simp]: "varint n \<noteq> []"
  by (cases "n < 128") (simp_all add: varint_simps)

lemma GetVarint32_varint: "n < 2 ^ 32 \<Longrightarrow> GetVarint32 (varint n @ t) = Some (of_nat n, t)"
  by (simp add: GetVarint32_def GetVarint32Ptr_loop varint32_loop_varint)

lemma varint32_loop_truncated:
  "k < length (varint n) \<Longrightarrow> varint32_loop s r (take k (varint n)) = None"
proof (induction n arbitrary: k s r rule: varint_induct)
  case (small n)
  then show ?case by (simp add: varint_simps)
next
  case (large n)
  then show ?case
    unfolding varint_simps(2) [OF large.hyps]
    by (cases k) (simp_all add: ucast_high_byte high_byte_and Let_def del: of_nat_add)
qed

lemma varint_length_loop_varint: "varint_length_loop v len + 1 = len + length (varint (unat v))"
proof (induction v len rule: varint_length_loop.induct)
  case (1 v len)
  show ?case
  proof (cases "v \<ge> 128")
    case True
    then have "unat v \<ge> 128" by (simp add: word_le_nat_alt)
    with True 1 show ?thesis by (subst varint_length_loop.simps) (simp add: varint_simps unat_drop_7)
  next
    case False
    then have "unat v < 128" by (simp add: word_le_nat_alt)
    with False show ?thesis by (subst varint_length_loop.simps) (simp add: varint_simps)
  qed
qed

lemma VarintLength_varint: "VarintLength v = length (varint (unat v))"
  using varint_length_loop_varint [of v 1] by (simp add: VarintLength_def)

lemma DecodeFixed32_Encode [simp]: "DecodeFixed32 (EncodeFixed32 v @ t) = v"
proof -
  have "ucast (ucast v :: byte) OR push_bit 8 (ucast (ucast (drop_bit 8 v) :: byte)) OR
      push_bit 16 (ucast (ucast (drop_bit 16 v) :: byte)) OR
      push_bit 24 (ucast (ucast (drop_bit 24 v) :: byte)) = v"
    using be32_join [of v] by (simp add: ac_simps)
  then show ?thesis by (simp add: EncodeFixed32_def)
qed

lemma length_EncodeFixed [simp]: "length (EncodeFixed32 v) = 4" "length (EncodeFixed64 w) = 8"
  by (simp_all add: EncodeFixed32_def EncodeFixed64_def)

lemma and_255_u64: "(y :: u64) AND 0xff = take_bit 8 y"
  by (simp add: take_bit_eq_mask mask_eq_exp_minus_1)

lemma EncodeFixed64_split:
  "EncodeFixed64 v = EncodeFixed32 (ucast v) @ EncodeFixed32 (ucast (drop_bit 32 v))"
proof -
  have lo: "(ucast (drop_bit k v AND 0xff) :: byte) = ucast (drop_bit k (ucast v :: u32) AND 0xff)" if "k \<le> 24" for k
    using that unfolding and_255_u64 and_255 by (intro bit_word_eqI) (auto simp: bit_simps)
  have hi: "(ucast (drop_bit (32 + k) v AND 0xff) :: byte) =
      ucast (drop_bit k (ucast (drop_bit 32 v) :: u32) AND 0xff)" if "k \<le> 24" for k
    using that unfolding and_255_u64 and_255 by (intro bit_word_eqI) (auto simp: bit_simps ac_simps)
  show ?thesis
    using lo [of 0] hi [of 0] lo [of 8] hi [of 8] lo [of 16] hi [of 16] lo [of 24] hi [of 24]
    by (simp add: EncodeFixed64_def EncodeFixed32_def del: ucast_and_255)
qed

lemma DecodeFixed64_Encode [simp]: "DecodeFixed64 (EncodeFixed64 v @ t) = v"
proof -
  have "push_bit 32 (ucast (ucast (drop_bit 32 v) :: u32)) OR (ucast (ucast v :: u32)) = v"
    by (rule bit_word_eqI) (auto simp: bit_simps)
  then show ?thesis by (simp add: DecodeFixed64_def EncodeFixed64_split Let_def)
qed

lemmas Put_defs [wire_simps] = PutFixed32_def PutFixed64_def PutVarint32_def PutVarint64_def PutLengthPrefixedSlice_def

text \<open>What \<open>PutLengthPrefixedSlice\<close> appends.\<close>

definition slice_bytes :: "bytes \<Rightarrow> bytes" where
  "slice_bytes value = varint (length value) @ value"

lemma PutLengthPrefixedSlice_bytes:
  "length value < 2 ^ 32 \<Longrightarrow> PutLengthPrefixedSlice dst value = dst @ slice_bytes value"
  by (simp add: wire_simps slice_bytes_def EncodeVarint32_varint unat_of_nat)

lemma GetLengthPrefixedSlice_bytes:
  "length value < 2 ^ 32 \<Longrightarrow> GetLengthPrefixedSlice (slice_bytes value @ t) = Some (value, t)"
  by (simp add: GetLengthPrefixedSlice_def slice_bytes_def GetVarint32_varint unat_of_nat)

lemma GetLengthPrefixedSlice_truncated:
  assumes "length value < 2 ^ 32" and "k < length (slice_bytes value)"
  shows "GetLengthPrefixedSlice (take k (slice_bytes value)) = None"
proof (cases "k < length (varint (length value))")
  case True
  then show ?thesis
    by (simp add: GetLengthPrefixedSlice_def slice_bytes_def GetVarint32_def GetVarint32Ptr_loop
        varint32_loop_truncated)
next
  case False
  then show ?thesis using assms
    by (simp add: GetLengthPrefixedSlice_def slice_bytes_def GetVarint32_varint unat_of_nat)
qed

section \<open>Properties\<close>

text \<open>
  C31: reading a number of variable length gives back the number that was written and stops right
  after it; the unrolled 32-bit writer writes the same bytes as the 64-bit loop; and
  \<open>VarintLength\<close> is the number of bytes written.
\<close>

theorem varint_roundtrip:
  "GetVarint32 (PutVarint32 [] v @ rest) = Some (v, rest) \<and>
   GetVarint64 (PutVarint64 [] w @ rest) = Some (w, rest) \<and>
   PutVarint32 dst v = PutVarint64 dst (ucast v) \<and>
   VarintLength w = length (PutVarint64 [] w)"
proof -
  have "unat v < 2 ^ 32" "unat w < 2 ^ 64"
    using unsigned_less [of v, where ?'a = nat] unsigned_less [of w, where ?'a = nat] by simp_all
  moreover from this have "unat (ucast v :: u64) = unat v"
    by (simp add: unsigned_ucast_eq take_bit_nat_eq_self_iff)
  ultimately show ?thesis
    by (simp add: wire_simps EncodeVarint32_varint EncodeVarint64_varint VarintLength_varint
        GetVarint32_varint GetVarint64_def GetVarint64Ptr_def varint64_loop_varint of_nat_unat)
qed

text \<open>
  A string written with its length in front is read back unchanged, with the input left right
  after it; when the input ends anywhere inside of it, the reader reports failure.
\<close>

theorem slice_roundtrip:
  assumes "length value < 2 ^ 32"
  shows "GetLengthPrefixedSlice (PutLengthPrefixedSlice [] value @ rest) = Some (value, rest) \<and>
    (\<forall>k < length (PutLengthPrefixedSlice [] value).
      GetLengthPrefixedSlice (take k (PutLengthPrefixedSlice [] value)) = None)"
  using assms by (simp add: PutLengthPrefixedSlice_bytes GetLengthPrefixedSlice_bytes
      GetLengthPrefixedSlice_truncated)

theorem slice_roundtrip_witness:
  "GetLengthPrefixedSlice (PutLengthPrefixedSlice [] [7, 8, 9] @ [1]) = Some ([7, 8, 9], [1]) \<and>
   GetLengthPrefixedSlice (take 3 (PutLengthPrefixedSlice [] [7, 8, 9])) = None"
proof -
  have "PutLengthPrefixedSlice [] [7, 8, 9] = [3, 7, 8, 9]" by code_simp
  moreover have "GetLengthPrefixedSlice (take 3 (PutLengthPrefixedSlice [] [7, 8, 9])) = None"
    using slice_roundtrip [of "[7, 8, 9]" "[1]"] calculation by (auto dest: spec [where x = 3])
  ultimately show ?thesis using slice_roundtrip [of "[7, 8, 9]" "[1]"] by simp
qed

end
