(* ===== verification/Ldb_Format.thy ===== *)
theory Ldb_Format
  imports Ldb_Coding "HOL-Library.List_Lexorder"
begin

text \<open>
  LevelDB's keys: slices and the bytewise comparator (\<^verbatim>\<open>include/leveldb/slice.h\<close>, \<^verbatim>\<open>util/comparator.cc\<close>) and the
  internal keys that carry a sequence number and a type (\<^verbatim>\<open>db/dbformat.h\<close>, \<^verbatim>\<open>db/dbformat.cc\<close>), all below
  \<^verbatim>\<open>src/unifyframework/leveldb-master\<close>.

  A comparator is a record of its virtual methods; the contract that \<^verbatim>\<open>include/leveldb/comparator.h\<close>
  documents is the locale \<open>comparator_laws\<close>. It is shown for the bytewise comparator, and for the internal
  key comparator over every comparator that keeps it.
  Of the result of \<open>memcmp\<close> only the sign is specified; the model returns \<open>-1\<close>, \<open>0\<close> or \<open>1\<close>. Assertions are
  not compiled into release builds and are left out.
\<close>

section \<open>Slices\<close>

fun memcmp :: "bytes \<Rightarrow> bytes \<Rightarrow> nat \<Rightarrow> int" where
  "memcmp (x # xs) (y # ys) (Suc n) = (if x < y then -1 else if x > y then 1 else memcmp xs ys n)"
| "memcmp _ _ _ = 0"

definition compare :: "bytes \<Rightarrow> bytes \<Rightarrow> int" where
  "compare a b =
     (let min_len = (if length a < length b then length a else length b); r = memcmp a b min_len
      in if r = 0 then (if length a < length b then -1 else if length a > length b then 1 else r) else r)"

section \<open>Comparators\<close>

record comparator =
  Compare :: "bytes \<Rightarrow> bytes \<Rightarrow> int"
  FindShortestSeparator :: "bytes \<Rightarrow> bytes \<Rightarrow> bytes"
  FindShortSuccessor :: "bytes \<Rightarrow> bytes"

text \<open>The length of the common prefix.\<close>

fun common_prefix :: "bytes \<Rightarrow> bytes \<Rightarrow> nat" where
  "common_prefix (x # xs) (y # ys) = (if x = y then Suc (common_prefix xs ys) else 0)"
| "common_prefix _ _ = 0"

definition bytewise_separator :: "bytes \<Rightarrow> bytes \<Rightarrow> bytes" where
  "bytewise_separator start limit =
     (let min_length = min (length start) (length limit);
          diff_index = common_prefix start limit
      in if diff_index \<ge> min_length then start
         else let diff_byte = start ! diff_index
              in if diff_byte < 0xff \<and> uint diff_byte + 1 < uint (limit ! diff_index)
                 then take (diff_index + 1) (start[diff_index := diff_byte + 1])
                 else start)"

fun bytewise_successor :: "bytes \<Rightarrow> bytes" where
  "bytewise_successor [] = []"
| "bytewise_successor (b # key) = (if b \<noteq> 0xff then [b + 1] else b # bytewise_successor key)"

definition BytewiseComparator :: comparator where
  "BytewiseComparator =
     \<lparr>Compare = compare, FindShortestSeparator = bytewise_separator, FindShortSuccessor = bytewise_successor\<rparr>"

section \<open>Internal keys\<close>

datatype ValueType = kTypeDeletion | kTypeValue

fun type_code :: "ValueType \<Rightarrow> u64" where
  "type_code kTypeDeletion = 0"
| "type_code kTypeValue = 1"

definition kValueTypeForSeek :: ValueType where
  "kValueTypeForSeek = kTypeValue"

definition kMaxSequenceNumber :: u64 where
  "kMaxSequenceNumber = 2 ^ 56 - 1"

record ParsedInternalKey =
  user_key :: bytes
  seq_no :: u64
  key_type :: ValueType

definition PackSequenceAndType :: "u64 \<Rightarrow> ValueType \<Rightarrow> u64" where
  "PackSequenceAndType seq t = push_bit 8 seq OR type_code t"

definition AppendInternalKey :: "bytes \<Rightarrow> ParsedInternalKey \<Rightarrow> bytes" where
  "AppendInternalKey result key =
     PutFixed64 (result @ user_key key) (PackSequenceAndType (seq_no key) (key_type key))"

definition InternalKeyEncodingLength :: "ParsedInternalKey \<Rightarrow> nat" where
  "InternalKeyEncodingLength key = length (user_key key) + 8"

definition ExtractUserKey :: "bytes \<Rightarrow> bytes" where
  "ExtractUserKey internal_key = take (length internal_key - 8) internal_key"

text \<open>The number packed into the last eight bytes.\<close>

definition packed_tag :: "bytes \<Rightarrow> u64" where
  "packed_tag internal_key = DecodeFixed64 (drop (length internal_key - 8) internal_key)"

definition ExtractValueType :: "bytes \<Rightarrow> byte" where
  "ExtractValueType internal_key = ucast (packed_tag internal_key AND 0xff)"

definition ParseInternalKey :: "bytes \<Rightarrow> ParsedInternalKey option" where
  "ParseInternalKey internal_key =
     (let n = length internal_key
      in if n < 8 then None
         else let num = packed_tag internal_key; c = ucast (num AND 0xff) :: byte
              in if c \<le> 1
                 then Some \<lparr>user_key = take (n - 8) internal_key, seq_no = drop_bit 8 num,
                        key_type = (if c = 0 then kTypeDeletion else kTypeValue)\<rparr>
                 else None)"

definition internal_compare :: "comparator \<Rightarrow> bytes \<Rightarrow> bytes \<Rightarrow> int" where
  "internal_compare user_comparator akey bkey =
     (let r = Compare user_comparator (ExtractUserKey akey) (ExtractUserKey bkey)
      in if r = 0
         then let anum = packed_tag akey; bnum = packed_tag bkey
              in if anum > bnum then -1 else if anum < bnum then 1 else r
         else r)"

definition internal_separator :: "comparator \<Rightarrow> bytes \<Rightarrow> bytes \<Rightarrow> bytes" where
  "internal_separator user_comparator start limit =
     (let user_start = ExtractUserKey start;
          tmp = FindShortestSeparator user_comparator user_start (ExtractUserKey limit)
      in if length tmp < length user_start \<and> Compare user_comparator user_start tmp < 0
         then PutFixed64 tmp (PackSequenceAndType kMaxSequenceNumber kValueTypeForSeek)
         else start)"

definition internal_successor :: "comparator \<Rightarrow> bytes \<Rightarrow> bytes" where
  "internal_successor user_comparator key =
     (let ukey = ExtractUserKey key; tmp = FindShortSuccessor user_comparator ukey
      in if length tmp < length ukey \<and> Compare user_comparator ukey tmp < 0
         then PutFixed64 tmp (PackSequenceAndType kMaxSequenceNumber kValueTypeForSeek)
         else key)"

definition InternalKeyComparator :: "comparator \<Rightarrow> comparator" where
  "InternalKeyComparator user_comparator =
     \<lparr>Compare = internal_compare user_comparator,
      FindShortestSeparator = internal_separator user_comparator,
      FindShortSuccessor = internal_successor user_comparator\<rparr>"

section \<open>Lookup keys\<close>

definition memtable_key :: "bytes \<Rightarrow> u64 \<Rightarrow> bytes" where
  "memtable_key ukey s =
     EncodeVarint32 (of_nat (length ukey + 8)) @ ukey @
     EncodeFixed64 (PackSequenceAndType s kValueTypeForSeek)"

definition lookup_internal_key :: "bytes \<Rightarrow> u64 \<Rightarrow> bytes" where
  "lookup_internal_key ukey s = ukey @ EncodeFixed64 (PackSequenceAndType s kValueTypeForSeek)"

section \<open>The bytewise order\<close>

lemma compare_Cons: "compare (x # a) (y # b) = (if x < y then -1 else if x > y then 1 else compare a b)"
  by (auto simp: compare_def Let_def)

lemma compare_Nil: "compare [] [] = 0" "compare [] (y # b) = -1" "compare (x # a) [] = 1"
  by (simp_all add: compare_def)

lemma compare_cases: "compare a b = (if a < b then -1 else if b < a then 1 else 0)"
proof (induction a arbitrary: b)
  case Nil
  then show ?case by (cases b) (simp_all add: compare_Nil)
next
  case (Cons x a)
  then show ?case by (cases b) (auto simp: compare_Nil compare_Cons)
qed

lemma compare_simps [simp]:
  "compare a b < 0 \<longleftrightarrow> a < b" "compare a b > 0 \<longleftrightarrow> b < a" "compare a b = 0 \<longleftrightarrow> a = b"
  "compare a b \<le> 0 \<longleftrightarrow> a \<le> b" "compare a b \<ge> 0 \<longleftrightarrow> b \<le> a"
  by (auto simp: compare_cases)

text \<open>The contract of a comparator on the keys that satisfy \<open>valid\<close>.\<close>

locale comparator_laws =
  fixes cmp :: comparator and valid :: "bytes \<Rightarrow> bool"
  assumes equal_iff: "valid a \<Longrightarrow> valid b \<Longrightarrow> Compare cmp a b = 0 \<longleftrightarrow> a = b"
    and swap: "valid a \<Longrightarrow> valid b \<Longrightarrow> Compare cmp a b < 0 \<longleftrightarrow> Compare cmp b a > 0"
    and less_trans: "valid a \<Longrightarrow> valid b \<Longrightarrow> valid c \<Longrightarrow>
      Compare cmp a b < 0 \<Longrightarrow> Compare cmp b c < 0 \<Longrightarrow> Compare cmp a c < 0"
    and separator: "valid start \<Longrightarrow> valid limit \<Longrightarrow> Compare cmp start limit < 0 \<Longrightarrow>
      valid (FindShortestSeparator cmp start limit) \<and>
      Compare cmp start (FindShortestSeparator cmp start limit) \<le> 0 \<and>
      Compare cmp (FindShortestSeparator cmp start limit) limit < 0"
    and separator_unchanged: "valid start \<Longrightarrow> valid limit \<Longrightarrow> Compare cmp start limit \<ge> 0 \<Longrightarrow>
      FindShortestSeparator cmp start limit = start"
    and successor: "valid key \<Longrightarrow>
      valid (FindShortSuccessor cmp key) \<and> Compare cmp key (FindShortSuccessor cmp key) \<le> 0"
begin

definition precedes :: "bytes \<Rightarrow> bytes \<Rightarrow> bool" where
  "precedes a b \<longleftrightarrow> Compare cmp a b < 0"

lemma precedes_irrefl: "valid a \<Longrightarrow> \<not> precedes a a"
  using equal_iff [of a a] by (simp add: precedes_def)

lemma precedes_trans: "valid a \<Longrightarrow> valid b \<Longrightarrow> valid c \<Longrightarrow> precedes a b \<Longrightarrow> precedes b c \<Longrightarrow> precedes a c"
  unfolding precedes_def by (rule less_trans)

lemma precedes_linear: "valid a \<Longrightarrow> valid b \<Longrightarrow> precedes a b \<or> a = b \<or> precedes b a"
  using equal_iff [of a b] swap [of b a] by (auto simp: precedes_def)

lemma not_precedes: "valid a \<Longrightarrow> valid b \<Longrightarrow> \<not> precedes a b \<longleftrightarrow> b = a \<or> precedes b a"
  using precedes_linear precedes_irrefl precedes_trans by blast

lemma compare_sign: "valid a \<Longrightarrow> valid b \<Longrightarrow>
  Compare cmp a b < 0 \<longleftrightarrow> precedes a b" "valid a \<Longrightarrow> valid b \<Longrightarrow> Compare cmp a b > 0 \<longleftrightarrow> precedes b a"
  using swap [of b a] by (simp_all add: precedes_def)

end

subsection \<open>The bytewise comparator keeps the contract\<close>

lemma common_prefix_le: "common_prefix a b \<le> length a" "common_prefix a b \<le> length b"
  by (induction a b rule: common_prefix.induct) auto

lemma common_prefix_split:
  assumes "common_prefix a b < min (length a) (length b)"
  shows "\<exists>p x as y bs. a = p @ x # as \<and> b = p @ y # bs \<and> x \<noteq> y \<and> length p = common_prefix a b"
  using assms
proof (induction a b rule: common_prefix.induct)
  case (1 x xs y ys)
  show ?case
  proof (cases "x = y")
    case True
    with 1 obtain p x' as y' bs where "xs = p @ x' # as" "ys = p @ y' # bs" "x' \<noteq> y'"
      "length p = common_prefix xs ys" by auto
    with True show ?thesis by (intro exI [of _ "x # p"]) auto
  next
    case False
    then show ?thesis by (intro exI [of _ "[]"]) auto
  qed
qed auto

lemma list_less_append: "(p @ a < p @ b) \<longleftrightarrow> (a < (b :: 'a::linorder list))" 
  by (induction p) auto

lemma byte_plus_1: "b < 0xff \<Longrightarrow> uint (b + 1) = uint (b :: byte) + 1"
  by (simp add: uint_word_ariths word_less_def)

lemma bytewise_separator_cases:
  obtains (same) "bytewise_separator start limit = start"
  | (shorter) p x as y bs where "start = p @ x # as" "limit = p @ y # bs" "x < x + 1" "x + 1 < y"
      "bytewise_separator start limit = p @ [x + 1]"
proof (cases "common_prefix start limit < min (length start) (length limit)")
  case True
  from common_prefix_split [OF this] obtain p x as y bs where
    p: "start = p @ x # as" "limit = p @ y # bs" "length p = common_prefix start limit" by blast
  show thesis
  proof (cases "x < 0xff \<and> uint x + 1 < uint y")
    case True
    then have "x < x + 1" "x + 1 < y" using byte_plus_1 [of x] by (auto simp: word_less_def)
    moreover have "bytewise_separator start limit = p @ [x + 1]"
      using p \<open>common_prefix start limit < _\<close> True
      by (simp add: bytewise_separator_def Let_def nth_append list_update_append flip: p(3))
    ultimately show thesis using shorter p by blast
  next
    case False
    with p have "bytewise_separator start limit = start"
      by (auto simp: bytewise_separator_def Let_def nth_append simp flip: p(3))
    then show thesis by (rule same)
  qed
next
  case False
  then show thesis by (intro same) (auto simp: bytewise_separator_def Let_def min_def split: if_splits)
qed

lemma bytewise_separator_between:
  "start < limit \<Longrightarrow> start \<le> bytewise_separator start limit \<and> bytewise_separator start limit < limit"
proof (cases rule: bytewise_separator_cases [of start limit])
  case (shorter p x as y bs)
  then show ?thesis by (auto simp: list_less_append less_le_not_le [of start] less_imp_le)
qed auto

lemma bytewise_separator_unchanged: "limit \<le> start \<Longrightarrow> bytewise_separator start limit = start"
proof (cases rule: bytewise_separator_cases [of start limit])
  case (shorter p x as y bs)
  then have "start < limit" by (auto simp: list_less_append dest: less_trans)
  then show "limit \<le> start \<Longrightarrow> ?thesis" by simp
qed auto

lemma bytewise_successor_ge: "key \<le> bytewise_successor key"
proof (induction key)
  case (Cons b key)
  have "b < b + 1" if "b \<noteq> 0xff"
    using that byte_plus_1 [of b] word_le_less_eq [of b "0xff"] byte_uint_range [of b]
    by (auto simp: word_less_def word_uint_eq_iff)
  with Cons show ?case by (auto simp: less_imp_le)
qed simp

lemma bytewise_laws: "comparator_laws BytewiseComparator (\<lambda>_. True)"
  by unfold_locales
    (auto simp: BytewiseComparator_def bytewise_separator_between bytewise_separator_unchanged
      bytewise_successor_ge)

interpretation bytewise: comparator_laws BytewiseComparator "\<lambda>_. True"
  by (rule bytewise_laws)

subsection \<open>Internal keys\<close>

lemma EncodeFixed32_Decode: "EncodeFixed32 (DecodeFixed32 [b0, b1, b2, b3]) = [b0, b1, b2, b3]"
proof -
  let ?v = "ucast b0 OR push_bit 8 (ucast b1) OR push_bit 16 (ucast b2) OR push_bit 24 (ucast b3) :: u32"
  have "(ucast ?v :: byte) = b0" "(ucast (drop_bit 8 ?v) :: byte) = b1" "(ucast (drop_bit 16 ?v) :: byte) = b2"
    "(ucast (drop_bit 24 ?v) :: byte) = b3"
    by (rule bit_word_eqI, auto simp: bit_simps dest: bit_imp_le_length)+
  then show ?thesis by (simp add: EncodeFixed32_def)
qed

lemma EncodeFixed64_Decode:
  assumes "length p = 8"
  shows "EncodeFixed64 (DecodeFixed64 p) = p"
proof -
  obtain b0 b1 b2 b3 b4 b5 b6 b7 where p: "p = [b0, b1, b2, b3, b4, b5, b6, b7]"
    using assms by (auto simp: numeral_eq_Suc length_Suc_conv)
  let ?lo = "DecodeFixed32 [b0, b1, b2, b3]" and ?hi = "DecodeFixed32 [b4, b5, b6, b7]"
  have dec: "DecodeFixed64 p = push_bit 32 (ucast ?hi) OR ucast ?lo"
    by (simp add: DecodeFixed64_def p Let_def)
  have "(ucast (DecodeFixed64 p) :: u32) = ?lo" "(ucast (drop_bit 32 (DecodeFixed64 p)) :: u32) = ?hi"
    unfolding dec by (rule bit_word_eqI, auto simp: bit_simps dest: bit_imp_le_length)+
  then show ?thesis using EncodeFixed32_Decode by (simp add: EncodeFixed64_split p del: DecodeFixed32.simps)
qed

lemma internal_key_split:
  "8 \<le> length k \<Longrightarrow> k = ExtractUserKey k @ EncodeFixed64 (packed_tag k)"
  using EncodeFixed64_Decode [of "drop (length k - 8) k"]
  by (simp add: ExtractUserKey_def packed_tag_def)

lemma internal_key_eqI:
  "8 \<le> length a \<Longrightarrow> 8 \<le> length b \<Longrightarrow> ExtractUserKey a = ExtractUserKey b \<Longrightarrow> packed_tag a = packed_tag b \<Longrightarrow> a = b"
  using internal_key_split by metis

lemma internal_parts [simp]:
  "ExtractUserKey (u @ EncodeFixed64 v) = u" "packed_tag (u @ EncodeFixed64 v) = v"
  using DecodeFixed64_Encode [of v "[]"] by (simp_all add: ExtractUserKey_def packed_tag_def)

lemma pack_eq: "PackSequenceAndType s t = push_bit 8 s + type_code t"
proof -
  have "push_bit 8 s AND type_code t = 0"
    by (cases t) (auto intro!: bit_word_eqI simp: bit_simps)
  then show ?thesis by (simp add: PackSequenceAndType_def disjunctive_add_eq_or)
qed

lemma unat_pack:
  assumes "s \<le> kMaxSequenceNumber"
  shows "unat (PackSequenceAndType s t) = 256 * unat s + unat (type_code t)"
proof -
  have s: "unat s < 2 ^ 56" using assms by (simp add: kMaxSequenceNumber_def word_le_nat_alt)
  have t: "unat (type_code t) \<le> 1" by (cases t) simp_all
  have "unat (push_bit 8 s) = 256 * unat s"
    using s unfolding unsigned_push_bit_eq by (simp add: push_bit_nat_def take_bit_nat_eq_self)
  with s t show ?thesis by (simp add: pack_eq unat_word_ariths)
qed

lemma max_pack_greatest:
  "s \<le> kMaxSequenceNumber \<Longrightarrow>
    PackSequenceAndType s t \<le> PackSequenceAndType kMaxSequenceNumber kValueTypeForSeek"
  by (cases t) (auto simp: word_le_nat_alt unat_pack kValueTypeForSeek_def)

context comparator_laws
begin

definition internal_valid :: "bytes \<Rightarrow> bool" where
  "internal_valid k \<longleftrightarrow> 8 \<le> length k \<and> valid (ExtractUserKey k)"

lemma internal_less:
  assumes "internal_valid a" and "internal_valid b"
  shows "internal_compare cmp a b < 0 \<longleftrightarrow>
      precedes (ExtractUserKey a) (ExtractUserKey b) \<or>
      ExtractUserKey a = ExtractUserKey b \<and> packed_tag a > packed_tag b"
    and "internal_compare cmp a b = 0 \<longleftrightarrow> a = b"
    and "internal_compare cmp a b > 0 \<longleftrightarrow> internal_compare cmp b a < 0"
proof -
  note v = assms [unfolded internal_valid_def]
  let ?a = "ExtractUserKey a" and ?b = "ExtractUserKey b"
  have eq: "Compare cmp ?a ?b = 0 \<longleftrightarrow> ?a = ?b" and eq': "Compare cmp ?b ?a = 0 \<longleftrightarrow> ?a = ?b"
    using v equal_iff [of ?a ?b] equal_iff [of ?b ?a] by auto
  have sw: "Compare cmp ?a ?b > 0 \<longleftrightarrow> Compare cmp ?b ?a < 0" using v swap [of ?b ?a] by simp
  show "internal_compare cmp a b < 0 \<longleftrightarrow> precedes ?a ?b \<or> ?a = ?b \<and> packed_tag a > packed_tag b"
    using eq by (cases "?a = ?b") (simp_all add: internal_compare_def precedes_def Let_def)
  show "internal_compare cmp a b = 0 \<longleftrightarrow> a = b"
  proof (cases "?a = ?b")
    case True
    have "packed_tag a = packed_tag b \<longleftrightarrow> a = b" using v internal_key_eqI [of a b] True by blast
    with True eq show ?thesis by (auto simp: internal_compare_def Let_def)
  next
    case False
    with eq show ?thesis by (auto simp: internal_compare_def Let_def)
  qed
  show "internal_compare cmp a b > 0 \<longleftrightarrow> internal_compare cmp b a < 0"
    using eq eq' sw by (cases "?a = ?b") (auto simp: internal_compare_def Let_def)
qed

lemma internal_valid_append: "internal_valid (u @ EncodeFixed64 v) \<longleftrightarrow> valid u"
  by (simp add: internal_valid_def)

lemma internal_trans:
  assumes "internal_valid a" and "internal_valid b" and "internal_valid c"
    and "internal_compare cmp a b < 0" and "internal_compare cmp b c < 0"
  shows "internal_compare cmp a c < 0"
proof -
  note v = assms(1-3) [unfolded internal_valid_def]
  have "precedes (ExtractUserKey a) (ExtractUserKey b) \<Longrightarrow> precedes (ExtractUserKey b) (ExtractUserKey c) \<Longrightarrow>
      precedes (ExtractUserKey a) (ExtractUserKey c)"
    using precedes_trans [of "ExtractUserKey a" "ExtractUserKey b" "ExtractUserKey c"] v by simp
  with assms(4,5) show ?thesis
    unfolding internal_less(1) [OF assms(1,2)] internal_less(1) [OF assms(2,3)] internal_less(1) [OF assms(1,3)]
    by (elim disjE) auto
qed

lemma internal_separator_between:
  assumes "internal_valid start" and "internal_valid limit" and "internal_compare cmp start limit < 0"
  shows "internal_valid (internal_separator cmp start limit) \<and>
    internal_compare cmp start (internal_separator cmp start limit) \<le> 0 \<and>
    internal_compare cmp (internal_separator cmp start limit) limit < 0"
proof -
  let ?s = "ExtractUserKey start" and ?l = "ExtractUserKey limit"
  let ?tmp = "FindShortestSeparator cmp ?s ?l"
  let ?tag = "PackSequenceAndType kMaxSequenceNumber kValueTypeForSeek"
  have v: "valid ?s" "valid ?l" using assms by (simp_all add: internal_valid_def)
  show ?thesis
  proof (cases "length ?tmp < length ?s \<and> Compare cmp ?s ?tmp < 0")
    case True
    then have sep: "internal_separator cmp start limit = ?tmp @ EncodeFixed64 ?tag"
      by (simp add: internal_separator_def Let_def PutFixed64_def)
    have "?tmp \<noteq> ?s" using True by auto
    with separator_unchanged [OF v] have "Compare cmp ?s ?l < 0" by fastforce
    from separator [OF v this] have tmp: "valid ?tmp" "Compare cmp ?tmp ?l < 0" by simp_all
    then have valid: "internal_valid (?tmp @ EncodeFixed64 ?tag)" by (simp add: internal_valid_append)
    with True tmp have "internal_compare cmp start (?tmp @ EncodeFixed64 ?tag) < 0"
      "internal_compare cmp (?tmp @ EncodeFixed64 ?tag) limit < 0"
      using internal_less(1) [OF assms(1) valid] internal_less(1) [OF valid assms(2)] by (simp_all add: precedes_def)
    with sep valid show ?thesis by simp
  next
    case False
    then have "internal_separator cmp start limit = start" by (auto simp: internal_separator_def Let_def)
    with assms internal_less(2) [OF assms(1) assms(1)] show ?thesis by simp
  qed
qed

lemma internal_separator_unchanged:
  assumes "internal_valid start" and "internal_valid limit" and "internal_compare cmp start limit \<ge> 0"
  shows "internal_separator cmp start limit = start"
proof -
  let ?s = "ExtractUserKey start" and ?l = "ExtractUserKey limit"
  have v: "valid ?s" "valid ?l" using assms by (simp_all add: internal_valid_def)
  have "\<not> precedes ?s ?l" using assms internal_less(1) [OF assms(1,2)] by auto
  then have "FindShortestSeparator cmp ?s ?l = ?s" using separator_unchanged [OF v] by (simp add: precedes_def)
  then show ?thesis by (simp add: internal_separator_def Let_def)
qed

lemma internal_successor_ge:
  assumes "internal_valid key"
  shows "internal_valid (internal_successor cmp key) \<and> internal_compare cmp key (internal_successor cmp key) \<le> 0"
proof -
  let ?u = "ExtractUserKey key"
  let ?tmp = "FindShortSuccessor cmp ?u" and ?tag = "PackSequenceAndType kMaxSequenceNumber kValueTypeForSeek"
  have v: "valid ?u" using assms by (simp add: internal_valid_def)
  show ?thesis
  proof (cases "length ?tmp < length ?u \<and> Compare cmp ?u ?tmp < 0")
    case True
    then have succ: "internal_successor cmp key = ?tmp @ EncodeFixed64 ?tag"
      by (simp add: internal_successor_def Let_def PutFixed64_def)
    have valid: "internal_valid (?tmp @ EncodeFixed64 ?tag)"
      using successor [OF v] by (simp add: internal_valid_append)
    with True succ internal_less(1) [OF assms valid] show ?thesis by (simp add: precedes_def)
  next
    case False
    then have "internal_successor cmp key = key" by (auto simp: internal_successor_def Let_def)
    with assms internal_less(2) [OF assms assms] show ?thesis by simp
  qed
qed

lemma internal_laws: "comparator_laws (InternalKeyComparator cmp) internal_valid"
proof unfold_locales
  fix a b c
  assume v: "internal_valid a" "internal_valid b" "internal_valid c"
  show "Compare (InternalKeyComparator cmp) a b < 0 \<Longrightarrow> Compare (InternalKeyComparator cmp) b c < 0 \<Longrightarrow>
      Compare (InternalKeyComparator cmp) a c < 0"
    using internal_trans [OF v] by (simp add: InternalKeyComparator_def)
qed (simp_all add: InternalKeyComparator_def internal_less(2) internal_less(3) internal_separator_between
    internal_separator_unchanged internal_successor_ge)

end

lemma bytewise_precedes: "bytewise.precedes a b \<longleftrightarrow> a < b"
  unfolding bytewise.precedes_def by (simp add: BytewiseComparator_def)

text \<open>The comparator of a database with the default options.\<close>

definition internal_key_ok :: "bytes \<Rightarrow> bool" where
  "internal_key_ok k \<longleftrightarrow> 8 \<le> length k"

lemma internal_valid_bytewise: "bytewise.internal_valid = internal_key_ok"
  by (simp add: fun_eq_iff bytewise.internal_valid_def internal_key_ok_def)

interpretation internal: comparator_laws "InternalKeyComparator BytewiseComparator" internal_key_ok
  using bytewise.internal_laws by (simp add: internal_valid_bytewise)

section \<open>Properties\<close>

lemma type_code_less: "unat (type_code t) < 256"
  by (cases t) simp_all

lemma pack_parts:
  assumes "s \<le> kMaxSequenceNumber"
  shows "drop_bit 8 (PackSequenceAndType s t) = s"
    and "(ucast (PackSequenceAndType s t AND 0xff) :: byte) = ucast (type_code t)"
proof -
  show "drop_bit 8 (PackSequenceAndType s t) = s"
    using unat_pack [OF assms, of t] type_code_less [of t]
    by (simp add: word_unat_eq_iff unat_drop_bit_eq drop_bit_nat_def)
  have "unat (ucast (PackSequenceAndType s t) :: byte) = unat (ucast (type_code t) :: byte)"
    using unat_pack [OF assms, of t] by (simp add: unsigned_ucast_eq take_bit_eq_mod)
  then show "(ucast (PackSequenceAndType s t AND 0xff) :: byte) = ucast (type_code t)"
    unfolding and_255_u64 by (simp add: word_unat_eq_iff unsigned_ucast_eq unsigned_take_bit_eq)
qed

lemma AppendInternalKey_Nil:
  "AppendInternalKey [] k = user_key k @ EncodeFixed64 (PackSequenceAndType (seq_no k) (key_type k))"
  by (simp add: AppendInternalKey_def PutFixed64_def)

lemma ParseInternalKey_Append:
  assumes "seq_no k \<le> kMaxSequenceNumber"
  shows "ParseInternalKey (AppendInternalKey [] k) = Some k"
  using pack_parts [OF assms, of "key_type k"]
  by (cases "key_type k") (simp_all add: ParseInternalKey_def AppendInternalKey_Nil Let_def)

lemma pack_less_iff:
  assumes "s \<le> kMaxSequenceNumber" and "s' \<le> kMaxSequenceNumber"
  shows "PackSequenceAndType s t > PackSequenceAndType s' t' \<longleftrightarrow>
    s > s' \<or> s = s' \<and> t = kTypeValue \<and> t' = kTypeDeletion"
  using unat_pack [OF assms(1), of t] unat_pack [OF assms(2), of t']
  by (cases t; cases t') (auto simp: word_less_nat_alt word_unat_eq_iff)

text \<open>
  C29: parsing an internal key gives back the user key, the sequence number and the type it was made
  from, and the comparator of a database orders such keys by user key, then newest sequence number
  first, then values before deletions.
\<close>

theorem internal_key_order:
  assumes "seq_no a \<le> kMaxSequenceNumber" and "seq_no b \<le> kMaxSequenceNumber"
  shows "ParseInternalKey (AppendInternalKey [] a) = Some a \<and>
    (Compare (InternalKeyComparator BytewiseComparator) (AppendInternalKey [] a) (AppendInternalKey [] b) < 0 \<longleftrightarrow>
      user_key a < user_key b \<or>
      user_key a = user_key b \<and>
        (seq_no a > seq_no b \<or> seq_no a = seq_no b \<and> key_type a = kTypeValue \<and> key_type b = kTypeDeletion))"
proof -
  have "internal_compare BytewiseComparator (AppendInternalKey [] a) (AppendInternalKey [] b) < 0 \<longleftrightarrow>
      user_key a < user_key b \<or> user_key a = user_key b \<and>
      PackSequenceAndType (seq_no a) (key_type a) > PackSequenceAndType (seq_no b) (key_type b)"
    using bytewise.internal_less(1) [of "AppendInternalKey [] a" "AppendInternalKey [] b"]
    by (simp add: AppendInternalKey_Nil internal_valid_bytewise internal_key_ok_def bytewise_precedes)
  with pack_less_iff [OF assms] ParseInternalKey_Append [OF assms(1)] show ?thesis
    by (simp add: InternalKeyComparator_def)
qed

text \<open>
  C30: the key that an index block stores between two adjacent keys is at least the first and below
  the second, and it is not longer than the first; the key stored after the last one is at least that key.
\<close>

theorem index_keys_separate:
  assumes "8 \<le> length start" and "8 \<le> length limit"
    and "Compare (InternalKeyComparator BytewiseComparator) start limit < 0"
    and "sep = FindShortestSeparator (InternalKeyComparator BytewiseComparator) start limit"
    and "succ = FindShortSuccessor (InternalKeyComparator BytewiseComparator) start"
  shows "Compare (InternalKeyComparator BytewiseComparator) start sep \<le> 0 \<and>
    Compare (InternalKeyComparator BytewiseComparator) sep limit < 0 \<and> length sep \<le> length start \<and>
    Compare (InternalKeyComparator BytewiseComparator) start succ \<le> 0 \<and> length succ \<le> length start"
proof -
  have "length sep \<le> length start" "length succ \<le> length start" using assms(1)
    by (auto simp: assms(4,5) InternalKeyComparator_def internal_separator_def internal_successor_def
        Let_def PutFixed64_def ExtractUserKey_def)
  with internal.separator [of start limit] internal.successor [of start] assms show ?thesis
    by (simp add: internal_key_ok_def)
qed

theorem internal_key_order_witness:
  "(5 :: u64) \<le> kMaxSequenceNumber \<and> (4 :: u64) \<le> kMaxSequenceNumber \<and>
   Compare (InternalKeyComparator BytewiseComparator)
     (AppendInternalKey [] \<lparr>user_key = str ''k'', seq_no = 5, key_type = kTypeDeletion\<rparr>)
     (AppendInternalKey [] \<lparr>user_key = str ''k'', seq_no = 4, key_type = kTypeValue\<rparr>) < 0"
  using internal_key_order [of "\<lparr>user_key = str ''k'', seq_no = 5, key_type = kTypeDeletion\<rparr>"
      "\<lparr>user_key = str ''k'', seq_no = 4, key_type = kTypeValue\<rparr>"]
  by (simp add: kMaxSequenceNumber_def)

theorem index_keys_separate_witness:
  "Compare (InternalKeyComparator BytewiseComparator)
     (FindShortestSeparator (InternalKeyComparator BytewiseComparator)
       (str ''abcd'' @ EncodeFixed64 257) (str ''az'' @ EncodeFixed64 257)) (str ''az'' @ EncodeFixed64 257) < 0 \<and>
   FindShortestSeparator (InternalKeyComparator BytewiseComparator)
       (str ''abcd'' @ EncodeFixed64 257) (str ''az'' @ EncodeFixed64 257) =
     str ''ac'' @ EncodeFixed64 (2 ^ 64 - 255)"
proof -
  have "Compare (InternalKeyComparator BytewiseComparator)
      (str ''abcd'' @ EncodeFixed64 257) (str ''az'' @ EncodeFixed64 257) < 0" by code_simp
  from index_keys_separate [OF _ _ this refl refl]
  have "Compare (InternalKeyComparator BytewiseComparator)
     (FindShortestSeparator (InternalKeyComparator BytewiseComparator)
       (str ''abcd'' @ EncodeFixed64 257) (str ''az'' @ EncodeFixed64 257)) (str ''az'' @ EncodeFixed64 257) < 0" by simp
  moreover have "FindShortestSeparator (InternalKeyComparator BytewiseComparator)
       (str ''abcd'' @ EncodeFixed64 257) (str ''az'' @ EncodeFixed64 257) =
     str ''ac'' @ EncodeFixed64 (2 ^ 64 - 255)" by code_simp
  ultimately show ?thesis ..
qed

end
