(* ===== verification/Ldb_Skiplist.thy ===== *)
theory Ldb_Skiplist
  imports Ldb_Format
begin

text \<open>
  LevelDB's skip list (\<^verbatim>\<open>src/unifyframework/leveldb-master/db/skiplist.h\<close>) and its random numbers
  (\<^verbatim>\<open>util/random.h\<close>).

  The nodes live in a store: a list, and a pointer is an index into it. The node \<open>0\<close> is \<open>head_\<close>; a node has
  one next pointer per level of its height. Nodes are never freed, so that allocating is
  appending. The loops of \<open>FindGreaterOrEqual\<close>, \<open>FindLessThan\<close> and \<open>FindLast\<close> differ only in the
  condition for staying on a level, which \<open>descend\<close> takes as an argument; on an arbitrary store it
  need not return (\<open>None\<close>), and it is shown to return on every list that \<open>Insert\<close> builds.
\<close>

section \<open>Random numbers\<close>

definition Random :: "u32 \<Rightarrow> u32" where
  "Random s = (let seed = s AND 0x7fffffff in if seed = 0 \<or> seed = 2147483647 then 1 else seed)"

definition Random_Next :: "u32 \<Rightarrow> u32" where
  "Random_Next seed =
     (let M = 2147483647; product = (ucast seed :: u64) * 16807;
          seed' = ucast (drop_bit 31 product + (product AND M)) :: u32
      in if seed' > 2147483647 then seed' - 2147483647 else seed')"

section \<open>Lists\<close>

record 'k node =
  node_key :: 'k
  node_next :: "nat option list"

record 'k skip_list =
  arena :: "'k node list"
  max_height :: nat
  rnd :: u32

definition kMaxHeight :: nat where
  "kMaxHeight = 12"

definition SkipList :: "'k \<Rightarrow> 'k skip_list" where
  "SkipList zero =
     \<lparr>arena = [\<lparr>node_key = zero, node_next = replicate kMaxHeight None\<rparr>], max_height = 1, rnd = Random 0xdeadbeef\<rparr>"

definition Next :: "'k node list \<Rightarrow> nat \<Rightarrow> nat \<Rightarrow> nat option" where
  "Next ns x level = node_next (ns ! x) ! level"

definition SetNext :: "nat \<Rightarrow> nat \<Rightarrow> nat option \<Rightarrow> 'k node list \<Rightarrow> 'k node list" where
  "SetNext x level p ns = ns[x := (ns ! x)\<lparr>node_next := (node_next (ns ! x))[level := p]\<rparr>]"

function random_height_loop :: "nat \<Rightarrow> u32 \<Rightarrow> nat \<times> u32" where
  "random_height_loop height seed =
     (if height < kMaxHeight
      then let seed' = Random_Next seed
           in if seed' mod 4 = 0 then random_height_loop (height + 1) seed' else (height, seed')
      else (height, seed))"
  by auto
termination
  by (relation "measure (\<lambda>(height, _). kMaxHeight - height)") auto

declare random_height_loop.simps [simp del]

definition RandomHeight :: "u32 \<Rightarrow> nat \<times> u32" where
  "RandomHeight seed = random_height_loop 1 seed"

definition KeyIsAfterNode :: "('k \<Rightarrow> 'k \<Rightarrow> int) \<Rightarrow> 'k node list \<Rightarrow> 'k \<Rightarrow> nat \<Rightarrow> bool" where
  "KeyIsAfterNode cmp ns key n \<longleftrightarrow> cmp (node_key (ns ! n)) key < 0"

text \<open>
  The node where the search ends, its next node on the lowest level, and the array \<open>prev\<close>, which a caller
  may ignore; C++ leaves the entries that the search does not reach uninitialised.
\<close>

partial_function (option) descend ::
  "(nat \<Rightarrow> bool) \<Rightarrow> 'k node list \<Rightarrow> nat \<Rightarrow> nat \<Rightarrow> nat list \<Rightarrow> (nat \<times> nat option \<times> nat list) option" where
  "descend stay ns x level prev =
     (let nxt = Next ns x level
      in if nxt \<noteq> None \<and> stay (the nxt) then descend stay ns (the nxt) level prev
         else if level = 0 then Some (x, nxt, prev[level := x])
         else descend stay ns x (level - 1) (prev[level := x]))"

definition FindGreaterOrEqual ::
  "('k \<Rightarrow> 'k \<Rightarrow> int) \<Rightarrow> 'k \<Rightarrow> 'k skip_list \<Rightarrow> (nat option \<times> nat list) option" where
  "FindGreaterOrEqual cmp key s =
     map_option snd (descend (KeyIsAfterNode cmp (arena s) key) (arena s) 0 (max_height s - 1)
       (replicate kMaxHeight 0))"

definition FindLessThan :: "('k \<Rightarrow> 'k \<Rightarrow> int) \<Rightarrow> 'k \<Rightarrow> 'k skip_list \<Rightarrow> nat option" where
  "FindLessThan cmp key s =
     map_option fst (descend (\<lambda>n. \<not> cmp (node_key (arena s ! n)) key \<ge> 0) (arena s) 0
       (max_height s - 1) (replicate kMaxHeight 0))"

definition FindLast :: "'k skip_list \<Rightarrow> nat option" where
  "FindLast s =
     map_option fst (descend (\<lambda>_. True) (arena s) 0 (max_height s - 1) (replicate kMaxHeight 0))"

text \<open>The loop that links the new node \<open>x\<close> on the levels below its height.\<close>

fun link_levels :: "nat \<Rightarrow> nat list \<Rightarrow> nat list \<Rightarrow> 'k node list \<Rightarrow> 'k node list" where
  "link_levels x prev [] ns = ns"
| "link_levels x prev (i # is) ns =
     link_levels x prev is (SetNext (prev ! i) i (Some x) (SetNext x i (Next ns (prev ! i) i) ns))"

definition Insert :: "('k \<Rightarrow> 'k \<Rightarrow> int) \<Rightarrow> 'k \<Rightarrow> 'k skip_list \<Rightarrow> 'k skip_list option" where
  "Insert cmp key s =
     (case FindGreaterOrEqual cmp key s of
        None \<Rightarrow> None
      | Some (_, prev) \<Rightarrow>
          (let (height, seed') = RandomHeight (rnd s);
               prev' = (if height > max_height s
                        then fold (\<lambda>i p. p[i := 0]) [max_height s..<height] prev else prev);
               x = length (arena s);
               ns = arena s @ [\<lparr>node_key = key, node_next = replicate height None\<rparr>]
           in Some \<lparr>arena = link_levels x prev' [0..<height] ns,
                    max_height = (if height > max_height s then height else max_height s), rnd = seed'\<rparr>))"

definition Contains :: "('k \<Rightarrow> 'k \<Rightarrow> int) \<Rightarrow> 'k \<Rightarrow> 'k skip_list \<Rightarrow> bool option" where
  "Contains cmp key s =
     (case FindGreaterOrEqual cmp key s of
        None \<Rightarrow> None
      | Some (x, _) \<Rightarrow> Some (case x of None \<Rightarrow> False | Some n \<Rightarrow> cmp key (node_key (arena s ! n)) = 0))"

section \<open>Iterators\<close>

text \<open>An iterator is its node, \<open>None\<close> when it is not valid.\<close>

definition iter_key :: "'k skip_list \<Rightarrow> nat \<Rightarrow> 'k" where
  "iter_key s n = node_key (arena s ! n)"

definition iter_Next :: "'k skip_list \<Rightarrow> nat \<Rightarrow> nat option" where
  "iter_Next s n = Next (arena s) n 0"

definition iter_Prev :: "('k \<Rightarrow> 'k \<Rightarrow> int) \<Rightarrow> 'k skip_list \<Rightarrow> nat \<Rightarrow> nat option option" where
  "iter_Prev cmp s n =
     map_option (\<lambda>p. if p = 0 then None else Some p) (FindLessThan cmp (iter_key s n) s)"

definition iter_Seek :: "('k \<Rightarrow> 'k \<Rightarrow> int) \<Rightarrow> 'k \<Rightarrow> 'k skip_list \<Rightarrow> nat option option" where
  "iter_Seek cmp target s = map_option fst (FindGreaterOrEqual cmp target s)"

definition iter_SeekToFirst :: "'k skip_list \<Rightarrow> nat option" where
  "iter_SeekToFirst s = Next (arena s) 0 0"

definition iter_SeekToLast :: "'k skip_list \<Rightarrow> nat option option" where
  "iter_SeekToLast s = map_option (\<lambda>p. if p = 0 then None else Some p) (FindLast s)"

section \<open>Random numbers stay in range\<close>

lemma random_height_bounds:
  "1 \<le> h \<Longrightarrow> h \<le> kMaxHeight \<Longrightarrow> random_height_loop h seed = (h', seed') \<Longrightarrow> 1 \<le> h' \<and> h' \<le> kMaxHeight"
proof (induction h seed rule: random_height_loop.induct)
  case (1 height seed)
  then show ?case
    by (subst (asm) (2) random_height_loop.simps) (auto simp: Let_def split: if_splits)
qed

lemma RandomHeight_bounds: "RandomHeight seed = (h, seed') \<Longrightarrow> 1 \<le> h \<and> h \<le> 12"
  using random_height_bounds [of 1 seed] by (simp add: RandomHeight_def kMaxHeight_def)

section \<open>Paths\<close>

definition height :: "'k node list \<Rightarrow> nat \<Rightarrow> nat" where
  "height ns a = length (node_next (ns ! a))"

text \<open>The nodes after \<open>x\<close> on a level.\<close>

fun path :: "'k node list \<Rightarrow> nat \<Rightarrow> nat \<Rightarrow> nat list \<Rightarrow> bool" where
  "path ns l x [] \<longleftrightarrow> Next ns x l = None"
| "path ns l x (p # ps) \<longleftrightarrow> Next ns x l = Some p \<and> path ns l p ps"

lemma path_append: "path ns l x (ps @ q # qs) \<Longrightarrow> path ns l q qs"
  by (induction ps arbitrary: x) auto

lemma path_suffix: "path ns l x (ps @ qs) \<Longrightarrow> path ns l (last (x # ps)) qs"
  by (induction ps arbitrary: x) auto

definition linked :: "'k node list \<Rightarrow> nat list \<Rightarrow> bool" where
  "linked ns as \<longleftrightarrow> height ns 0 = kMaxHeight \<and> (\<forall>a\<in>set as. 1 \<le> height ns a) \<and>
     (\<forall>l<kMaxHeight. path ns l 0 (filter (\<lambda>a. l < height ns a) as))"

lemma linked_path_from:
  assumes "linked ns (A @ B)" and "0 # A = U @ x # V" and "l < height ns x" and "l < kMaxHeight"
  shows "path ns l x (filter (\<lambda>a. l < height ns a) (V @ B))"
proof (cases U)
  case Nil
  with assms show ?thesis by (simp add: linked_def)
next
  case (Cons u U')
  with assms(2) have A: "A = U' @ x # V" by simp
  have "path ns l 0 (filter (\<lambda>a. l < height ns a) (A @ B))" using assms(1,4) by (simp add: linked_def)
  with A assms(3) show ?thesis
    using path_append [of ns l 0 "filter (\<lambda>a. l < height ns a) U'"] by simp
qed

definition first_of :: "nat list \<Rightarrow> nat option" where
  "first_of B = (case B of [] \<Rightarrow> None | b # _ \<Rightarrow> Some b)"

lemma first_of_filter_Some:
  "first_of (filter P xs) = Some y \<Longrightarrow> \<exists>us vs. xs = us @ y # vs \<and> P y \<and> (\<forall>u\<in>set us. \<not> P u)"
  by (induction xs) (auto simp: first_of_def Cons_eq_append_conv split: if_splits, metis append_Cons set_ConsD)

lemma path_first: "path ns l x ps \<Longrightarrow> Next ns x l = first_of ps"
  by (cases ps) (auto simp: first_of_def)

lemma descend_split:
  assumes linked: "linked ns (A @ B)" and stay: "\<forall>a\<in>set A. stay a" "\<forall>b\<in>set B. \<not> stay b"
  shows "0 # A = U @ x # V \<Longrightarrow> l < height ns x \<Longrightarrow> l < kMaxHeight \<Longrightarrow> length prev = kMaxHeight \<Longrightarrow>
    \<exists>prev'. descend stay ns x l prev = Some (last (0 # A), first_of B, prev') \<and> length prev' = kMaxHeight \<and>
      (\<forall>i\<le>l. prev' ! i = last (filter (\<lambda>a. i < height ns a) (0 # A))) \<and> (\<forall>i>l. prev' ! i = prev ! i)"
proof (induction "length V + l" arbitrary: U x V l prev rule: less_induct)
  case less
  let ?P = "\<lambda>a. l < height ns a"
  have path: "path ns l x (filter ?P (V @ B))"
    by (rule linked_path_from [OF linked less.prems(1-3)])
  show ?case
  proof (cases "filter ?P V")
    case (Cons v vs)
    then have nxt: "Next ns x l = Some v" using path_first [OF path] by (simp add: first_of_def)
    obtain V1 V2 where V: "V = V1 @ v # V2" "?P v"
      using first_of_filter_Some [of ?P V v] Cons by (auto simp: first_of_def)
    have split: "0 # A = (U @ x # V1) @ v # V2" using less.prems(1) V by simp
    then have "v \<in> set A" using less.prems(1) V by (cases U) auto
    with stay nxt have "descend stay ns x l prev = descend stay ns v l prev"
      by (subst descend.simps) simp
    moreover have "length V2 + l < length V + l" using V by simp
    ultimately show ?thesis using less.hyps [OF _ split V(2) less.prems(3,4)] by simp
  next
    case Nil
    have last: "last (filter ?P (0 # A)) = x"
      using less.prems(1,2) Nil by (cases U) (auto simp: linked_def)
    have nxt: "Next ns x l = first_of (filter ?P B)" using path_first [OF path] Nil by simp
    have leave: "\<not> (Next ns x l \<noteq> None \<and> stay (the (Next ns x l)))"
    proof (cases "Next ns x l")
      case (Some y)
      with nxt first_of_filter_Some [of ?P B y] stay(2) show ?thesis by auto
    qed simp
    show ?thesis
    proof (cases l)
      case 0
      have pos: "\<forall>a\<in>set (A @ B). ?P a" using linked 0 by (auto simp: linked_def Suc_le_eq)
      have "set V \<subseteq> set A" using less.prems(1) by (cases U) auto
      with pos have "filter ?P V = V" "filter ?P B = B" by (auto simp: filter_id_conv)
      with Nil have "V = []" by simp
      then have "last (0 # A) = x" using less.prems(1) by simp
      moreover have "descend stay ns x l prev = Some (x, first_of B, prev[0 := x])"
        using leave 0 nxt \<open>filter ?P B = B\<close> by (subst descend.simps) (auto simp: Let_def)
      ultimately show ?thesis using last 0 less.prems(4)
        by (intro exI [of _ "prev[0 := x]"]) (simp add: kMaxHeight_def)
    next
      case (Suc k)
      have "descend stay ns x l prev = descend stay ns x k (prev[l := x])"
        using leave Suc by (subst descend.simps) (auto simp: Let_def)
      moreover obtain prev' where "descend stay ns x k (prev[l := x]) = Some (last (0 # A), first_of B, prev')"
        "length prev' = kMaxHeight" "\<forall>i\<le>k. prev' ! i = last (filter (\<lambda>a. i < height ns a) (0 # A))"
        "\<forall>i>k. prev' ! i = prev[l := x] ! i"
        using less.hyps [of V k U x "prev[l := x]"] less.prems Suc by auto
      ultimately show ?thesis using Suc last less.prems(3,4)
        by (intro exI [of _ prev']) (auto simp: le_Suc_eq nth_list_update)
    qed
  qed
qed

section \<open>Linking a node\<close>

lemma length_SetNext [simp]: "length (SetNext x l p ns) = length ns"
  by (simp add: SetNext_def)

lemma node_key_SetNext [simp]: "node_key (SetNext x l p ns ! a) = node_key (ns ! a)"
  by (cases "x < length ns") (auto simp: SetNext_def nth_list_update list_update_beyond)

lemma height_SetNext [simp]: "height (SetNext x l p ns) a = height ns a"
  by (cases "x < length ns") (auto simp: SetNext_def height_def nth_list_update list_update_beyond)

lemma Next_SetNext:
  "x < length ns \<Longrightarrow> l < height ns x \<Longrightarrow>
    Next (SetNext x l p ns) a i = (if a = x \<and> i = l then p else Next ns a i)"
  by (auto simp: SetNext_def Next_def height_def nth_list_update)

lemma path_cong: "(\<And>a. a \<in> set (x # ps) \<Longrightarrow> Next ns' a l = Next ns a l) \<Longrightarrow> path ns' l x ps = path ns l x ps"
  by (induction ps arbitrary: x) auto

text \<open>Inserting \<open>n\<close> after the last node of \<open>X\<close>.\<close>

lemma path_insert:
  assumes "path ns l x (X @ Y)" and "Next ns' (last (x # X)) l = Some n" and "Next ns' n l = first_of Y"
    and "\<And>a. a \<in> set (x # X @ Y) \<Longrightarrow> a \<noteq> last (x # X) \<Longrightarrow> Next ns' a l = Next ns a l"
    and "distinct (x # X @ Y)" and "n \<notin> set (x # X @ Y)"
  shows "path ns' l x (X @ n # Y)"
  using assms
proof (induction X arbitrary: x)
  case Nil
  have "path ns' l n Y"
  proof (cases Y)
    case (Cons y Y')
    have "Next ns' a l = Next ns a l" if "a \<in> set (y # Y')" for a
      using Nil.prems(4) [of a] Nil.prems(5,6) Cons that by auto
    then have "path ns' l y Y' = path ns l y Y'" by (rule path_cong)
    with Nil Cons show ?thesis by (simp add: first_of_def)
  qed (use Nil in \<open>simp add: first_of_def\<close>)
  with Nil show ?case by simp
next
  case (Cons a X)
  have "last (a # X) \<noteq> x" using Cons.prems(5) last_in_set [of "a # X"] by auto
  with Cons.prems have "Next ns' x l = Some a" by simp
  moreover have "path ns' l a (X @ n # Y)" using Cons.prems by (intro Cons.IH) auto
  ultimately show ?case by simp
qed

lemma link_levels_other:
  "i \<notin> set is \<Longrightarrow> \<forall>j\<in>set is. j < height ns x \<and> j < height ns (prev ! j) \<and> prev ! j < length ns \<Longrightarrow>
    x < length ns \<Longrightarrow> Next (link_levels x prev is ns) a i = Next ns a i"
  by (induction "is" arbitrary: ns) (auto simp: Next_SetNext)

lemma link_levels_Next:
  assumes "distinct is" and "i \<in> set is" and "x < length ns" and "prev ! i \<noteq> x"
    and "\<forall>j\<in>set is. j < height ns x \<and> j < height ns (prev ! j) \<and> prev ! j < length ns"
  shows "Next (link_levels x prev is ns) a i =
    (if a = prev ! i then Some x else if a = x then Next ns (prev ! i) i else Next ns a i)"
  using assms
proof (induction "is" arbitrary: ns)
  case (Cons j js)
  let ?ns = "SetNext (prev ! j) j (Some x) (SetNext x j (Next ns (prev ! j) j) ns)"
  show ?case
  proof (cases "i = j")
    case True
    with Cons.prems have "Next (link_levels x prev js ?ns) a i = Next ?ns a i"
      by (intro link_levels_other) auto
    with True Cons.prems show ?thesis by (simp add: Next_SetNext)
  next
    case False
    with Cons.prems have "Next (link_levels x prev js ?ns) a i =
      (if a = prev ! i then Some x else if a = x then Next ?ns (prev ! i) i else Next ?ns a i)"
      by (intro Cons.IH) auto
    with False Cons.prems show ?thesis by (simp add: Next_SetNext)
  qed
qed simp

lemma link_levels_fields [simp]:
  "length (link_levels x prev is ns) = length ns"
  "node_key (link_levels x prev is ns ! a) = node_key (ns ! a)"
  "height (link_levels x prev is ns) a = height ns a"
  by (induction "is" arbitrary: ns) auto

text \<open>The new node is linked at its place on every level of its height.\<close>

lemma Next_old: "a < length ns \<Longrightarrow> Next (ns @ [m]) a l = Next ns a l"
  by (simp add: Next_def nth_append)

lemma height_old: "a < length ns \<Longrightarrow> height (ns @ [m]) a = height ns a"
  by (simp add: height_def nth_append)

lemma last_filter_mem: "P x \<Longrightarrow> last (filter P (x # xs)) \<in> set (x # xs) \<and> P (last (filter P (x # xs)))"
  using last_in_set [of "filter P (x # xs)"] by auto

lemma link_new:
  fixes ns :: "'k node list" and k :: 'k
  assumes linked: "linked ns (A @ B)" and nodes: "set (A @ B) = {1..<length ns}" "distinct (A @ B)" "ns \<noteq> []"
    and h: "1 \<le> h" "h \<le> kMaxHeight"
    and prev: "\<forall>i<h. prev ! i = last (filter (\<lambda>a. i < height ns a) (0 # A))"
    and ns': "ns' = link_levels (length ns) prev [0..<h] (ns @ [\<lparr>node_key = k, node_next = replicate h None\<rparr>])"
  shows "linked ns' (A @ length ns # B)"
proof -
  let ?n = "length ns" and ?ns1 = "ns @ [\<lparr>node_key = k, node_next = replicate h None\<rparr>]"
  have mem: "a < ?n" if "a \<in> set (0 # A @ B)" for a using that nodes(1,3) by auto
  have hn: "height ?ns1 ?n = h" by (simp add: height_def)
  have h0: "height ns 0 = kMaxHeight" using linked by (simp add: linked_def)
  have pv: "prev ! i \<in> set (0 # A) \<and> i < height ns (prev ! i)" if "i < h" for i
    using last_filter_mem [of "\<lambda>a. i < height ns a" 0 A] that prev h0 h(2) by simp
  have pv_less: "prev ! i < ?n" if "i < h" for i using pv [OF that] by (intro mem) auto
  have side: "\<forall>j\<in>set [0..<h]. j < height ?ns1 ?n \<and> j < height ?ns1 (prev ! j) \<and> prev ! j < length ?ns1"
    using pv pv_less hn by (auto simp: height_old less_SucI)
  have hs: "height ns' a = height ns a" if "a \<in> set (0 # A @ B)" for a
    using mem [OF that] by (simp add: ns' height_old)
  have hs_n: "height ns' ?n = h" using hn by (simp add: ns')
  have filters: "filter (\<lambda>a. l < height ns' a) A = filter (\<lambda>a. l < height ns a) A"
    "filter (\<lambda>a. l < height ns' a) B = filter (\<lambda>a. l < height ns a) B" for l
    using hs by (auto intro: filter_cong)
  have "path ns' l 0 (filter (\<lambda>a. l < height ns' a) (A @ ?n # B))" if l: "l < kMaxHeight" for l
  proof -
    let ?X = "filter (\<lambda>a. l < height ns a) A" and ?Y = "filter (\<lambda>a. l < height ns a) B"
    have old: "path ns l 0 (?X @ ?Y)" using linked l by (simp add: linked_def)
    show ?thesis
    proof (cases "l < h")
      case True
      have p: "prev ! l = last (0 # ?X)" using prev True h0 l by simp
      have nxt: "Next ns' a l = (if a = prev ! l then Some ?n else if a = ?n then Next ?ns1 (prev ! l) l
          else Next ?ns1 a l)" for a
        unfolding ns' by (rule link_levels_Next [OF _ _ _ _ side]) (use True pv_less [OF True] in simp_all)
      have "path ns' l 0 (?X @ ?n # ?Y)"
      proof (rule path_insert [OF old])
        show "Next ns' (last (0 # ?X)) l = Some ?n" using nxt p by simp
        show "Next ns' ?n l = first_of ?Y"
          using nxt [of ?n] p path_first [OF path_suffix [OF old]] pv_less [OF True] by (simp add: Next_old)
        show "Next ns' a l = Next ns a l" if "a \<in> set (0 # ?X @ ?Y)" "a \<noteq> last (0 # ?X)" for a
        proof -
          have "a < ?n" using that(1) by (intro mem) auto
          with nxt [of a] p that(2) show ?thesis by (simp add: Next_old)
        qed
        have "0 \<notin> set (A @ B)" unfolding nodes(1) by simp
        with nodes(2) show "distinct (0 # ?X @ ?Y)" by auto
        show "?n \<notin> set (0 # ?X @ ?Y)" using mem [of ?n] by auto
      qed
      with True hs_n show ?thesis by (simp add: filters)
    next
      case False
      have "Next ns' a l = Next ns a l" if "a \<in> set (0 # ?X @ ?Y)" for a
        using link_levels_other [OF _ side, of l a] False mem [of a] that by (auto simp: ns' Next_old)
      then have "path ns' l 0 (?X @ ?Y)" using old path_cong [of 0 "?X @ ?Y" ns' l ns] by blast
      with False hs_n show ?thesis by (simp add: filters)
    qed
  qed
  with linked hs hs_n h show ?thesis by (auto simp: linked_def)
qed

lemma sorted_wrt_mid:
  "sorted_wrt R (A @ B) \<Longrightarrow> \<forall>a\<in>set A. R a n \<Longrightarrow> \<forall>b\<in>set B. R n b \<Longrightarrow> sorted_wrt R (A @ n # B)"
  by (auto simp: sorted_wrt_append)

lemma insert_mid:
  assumes "set (A @ B) = {1..<n}" and "distinct (A @ B)" and "1 \<le> n"
  shows "set (A @ n # B) = {1..<Suc n}" and "distinct (A @ n # B)"
proof -
  have "set (A @ n # B) = insert n (set (A @ B))" by auto
  with assms show "set (A @ n # B) = {1..<Suc n}" by auto
  from assms have "n \<notin> set (A @ B)" by auto
  with assms(2) show "distinct (A @ n # B)" by auto
qed

section \<open>The invariant\<close>

definition skip_ok :: "('k \<Rightarrow> 'k \<Rightarrow> int) \<Rightarrow> ('k \<Rightarrow> bool) \<Rightarrow> 'k skip_list \<Rightarrow> nat list \<Rightarrow> bool" where
  "skip_ok cmp valid s as \<longleftrightarrow>
     arena s \<noteq> [] \<and> 1 \<le> max_height s \<and> max_height s \<le> kMaxHeight \<and>
     distinct as \<and> set as = {1..<length (arena s)} \<and>
     (\<forall>a\<in>set as. height (arena s) a \<le> max_height s \<and> valid (node_key (arena s ! a))) \<and>
     sorted_wrt (\<lambda>a b. cmp (node_key (arena s ! a)) (node_key (arena s ! b)) < 0) as \<and>
     linked (arena s) as"

text \<open>The keys of a well-formed list, in order.\<close>

definition represents :: "('k \<Rightarrow> 'k \<Rightarrow> int) \<Rightarrow> ('k \<Rightarrow> bool) \<Rightarrow> 'k skip_list \<Rightarrow> 'k list \<Rightarrow> bool" where
  "represents cmp valid s ks \<longleftrightarrow>
     (\<exists>as. skip_ok cmp valid s as \<and> ks = map (\<lambda>a. node_key (arena s ! a)) as)"

text \<open>The specification: a list ordered by \<open>cmp\<close>.\<close>

definition sorted_insert :: "('k \<Rightarrow> 'k \<Rightarrow> int) \<Rightarrow> 'k \<Rightarrow> 'k list \<Rightarrow> 'k list" where
  "sorted_insert cmp k ks = takeWhile (\<lambda>j. cmp j k < 0) ks @ k # dropWhile (\<lambda>j. cmp j k < 0) ks"

lemma represents_new: "represents cmp valid (SkipList zero) []"
  by (auto simp: represents_def skip_ok_def SkipList_def linked_def height_def kMaxHeight_def Next_def)

lemma prev_head:
  "i < length prev \<Longrightarrow> fold (\<lambda>i p. p[i := 0]) js prev ! i = (if i \<in> set js then (0::nat) else prev ! i)"
  by (induction js arbitrary: prev) (auto simp: nth_list_update)

lemma length_prev_head [simp]: "length (fold (\<lambda>i p. p[i := (0::nat)]) js prev) = length prev"
  by (induction js arbitrary: prev) auto

lemma skip_okD:
  assumes "skip_ok cmp valid s as" and "a \<in> set as"
  shows "0 < a" "a < length (arena s)" "0 < height (arena s) a" "height (arena s) a \<le> max_height s"
    "valid (node_key (arena s ! a))"
proof -
  have "a \<in> {1..<length (arena s)}" "1 \<le> height (arena s) a"
    using assms unfolding skip_ok_def linked_def by blast+
  then show "0 < a" "a < length (arena s)" "0 < height (arena s) a" by simp_all
  show "height (arena s) a \<le> max_height s" "valid (node_key (arena s ! a))"
    using assms unfolding skip_ok_def by blast+
qed

text \<open>The order of the keys, on the keys that may be stored.\<close>

locale key_order =
  fixes cmp :: "'k \<Rightarrow> 'k \<Rightarrow> int" and valid :: "'k \<Rightarrow> bool"
  assumes swap: "valid a \<Longrightarrow> valid b \<Longrightarrow> cmp a b < 0 \<longleftrightarrow> cmp b a > 0"
    and less_trans: "valid a \<Longrightarrow> valid b \<Longrightarrow> valid c \<Longrightarrow> cmp a b < 0 \<Longrightarrow> cmp b c < 0 \<Longrightarrow> cmp a c < 0"
    and less_eq_trans: "valid a \<Longrightarrow> valid b \<Longrightarrow> valid c \<Longrightarrow> cmp a b < 0 \<Longrightarrow> cmp b c = 0 \<Longrightarrow> cmp a c < 0"
begin

abbreviation node_before :: "'k skip_list \<Rightarrow> 'k \<Rightarrow> nat \<Rightarrow> bool" where
  "node_before s k a \<equiv> cmp (node_key (arena s ! a)) k < 0"

lemma after_not_before:
  assumes "skip_ok cmp valid s as" and "valid k" and "b \<in> set (dropWhile (node_before s k) as)"
  shows "\<not> node_before s k b"
proof
  assume before: "node_before s k b"
  obtain c B' where B: "dropWhile (node_before s k) as = c # B'"
    using assms(3) by (cases "dropWhile (node_before s k) as") auto
  have c: "\<not> node_before s k c" using hd_dropWhile [of "node_before s k" as] B by simp
  define T where "T = takeWhile (node_before s k) as"
  have as: "as = T @ c # B'" using takeWhile_dropWhile_id [of "node_before s k" as] B by (simp add: T_def)
  have "b \<noteq> c" using before c by blast
  with assms(3) B have "b \<in> set B'" by simp
  with assms(1) as have "node_before s (node_key (arena s ! b)) c" "valid (node_key (arena s ! b))"
    "valid (node_key (arena s ! c))"
    by (simp_all add: skip_ok_def sorted_wrt_append)
  with less_trans [of "node_key (arena s ! c)" "node_key (arena s ! b)" k] assms(2) before c show False by simp
qed

lemma descend_ok:
  assumes ok: "skip_ok cmp valid s as" and AB: "as = A @ B"
    and "\<forall>a\<in>set A. stay a" and "\<forall>b\<in>set B. \<not> stay b"
  obtains prev where
    "descend stay (arena s) 0 (max_height s - 1) (replicate kMaxHeight 0) = Some (last (0 # A), first_of B, prev)"
    "length prev = kMaxHeight"
    "\<forall>i<max_height s. prev ! i = last (filter (\<lambda>a. i < height (arena s) a) (0 # A))"
proof -
  have "linked (arena s) (A @ B)" "max_height s - 1 < kMaxHeight" "max_height s - 1 < height (arena s) 0"
    using ok AB by (auto simp: skip_ok_def linked_def kMaxHeight_def)
  note facts = this
  obtain prev where prev: "descend stay (arena s) 0 (max_height s - 1) (replicate kMaxHeight 0) =
      Some (last (0 # A), first_of B, prev)" "length prev = kMaxHeight"
      "\<forall>i\<le>max_height s - 1. prev ! i = last (filter (\<lambda>a. i < height (arena s) a) (0 # A))"
    using descend_split [OF facts(1) assms(3,4), of "[]" 0 A "max_height s - 1" "replicate kMaxHeight 0"] facts(2,3)
    by (metis append_Nil length_replicate)
  have "i \<le> max_height s - 1" if "i < max_height s" for i using that by simp
  with prev(3) have "\<forall>i<max_height s. prev ! i = last (filter (\<lambda>a. i < height (arena s) a) (0 # A))" by blast
  from that [OF prev(1,2) this] show thesis .
qed

lemma FindGreaterOrEqual_ok:
  assumes ok: "skip_ok cmp valid s as" and "valid k"
  obtains prev where "FindGreaterOrEqual cmp k s = Some (first_of (dropWhile (node_before s k) as), prev)"
    "length prev = kMaxHeight"
    "\<forall>i<max_height s. prev ! i =
      last (filter (\<lambda>a. i < height (arena s) a) (0 # takeWhile (node_before s k) as))"
proof -
  let ?A = "takeWhile (node_before s k) as" and ?B = "dropWhile (node_before s k) as"
  have AB: "as = ?A @ ?B" by simp
  have A: "\<forall>a\<in>set ?A. KeyIsAfterNode cmp (arena s) k a"
    by (auto simp: KeyIsAfterNode_def dest: set_takeWhileD)
  have B: "\<forall>b\<in>set ?B. \<not> KeyIsAfterNode cmp (arena s) k b"
    using after_not_before [OF ok assms(2)] unfolding KeyIsAfterNode_def by blast
  obtain prev where prev:
    "descend (KeyIsAfterNode cmp (arena s) k) (arena s) 0 (max_height s - 1) (replicate kMaxHeight 0) =
      Some (last (0 # ?A), first_of ?B, prev)" "length prev = kMaxHeight"
    "\<forall>i<max_height s. prev ! i = last (filter (\<lambda>a. i < height (arena s) a) (0 # ?A))"
    by (rule descend_ok [OF ok AB A B])
  then have "FindGreaterOrEqual cmp k s = Some (first_of ?B, prev)" by (simp add: FindGreaterOrEqual_def)
  from that [OF this prev(2,3)] show thesis .
qed

lemma FindLessThan_ok:
  assumes ok: "skip_ok cmp valid s as" and "valid k"
  shows "FindLessThan cmp k s = Some (last (0 # takeWhile (node_before s k) as))"
proof -
  let ?A = "takeWhile (node_before s k) as" and ?B = "dropWhile (node_before s k) as"
  let ?stay = "\<lambda>n. \<not> cmp (node_key (arena s ! n)) k \<ge> 0"
  have AB: "as = ?A @ ?B" by simp
  have A: "\<forall>a\<in>set ?A. ?stay a" by (auto dest: set_takeWhileD)
  have B: "\<forall>b\<in>set ?B. \<not> ?stay b" using after_not_before [OF ok assms(2)] not_le by blast
  obtain prev where
    "descend ?stay (arena s) 0 (max_height s - 1) (replicate kMaxHeight 0) =
      Some (last (0 # ?A), first_of ?B, prev)"
    by (rule descend_ok [OF ok AB A B])
  then show ?thesis by (simp add: FindLessThan_def)
qed

lemma FindLast_ok:
  assumes ok: "skip_ok cmp valid s as"
  shows "FindLast s = Some (last (0 # as))"
proof -
  obtain prev where "descend (\<lambda>_. True) (arena s) 0 (max_height s - 1) (replicate kMaxHeight 0) =
      Some (last (0 # as), first_of [], prev)"
    by (rule descend_ok [OF ok, of as "[]" "\<lambda>_. True"]) simp_all
  then show ?thesis by (simp add: FindLast_def)
qed

lemma sorted_new:
  assumes ok: "skip_ok cmp valid s as" and "valid k" and fresh: "\<forall>a\<in>set as. cmp (node_key (arena s ! a)) k \<noteq> 0"
    and f: "\<forall>a<length (arena s). f a = node_key (arena s ! a)" "f (length (arena s)) = k"
  shows "sorted_wrt (\<lambda>a b. cmp (f a) (f b) < 0)
    (takeWhile (node_before s k) as @ length (arena s) # dropWhile (node_before s k) as)"
proof -
  let ?A = "takeWhile (node_before s k) as" and ?B = "dropWhile (node_before s k) as"
  have mem: "f a = node_key (arena s ! a) \<and> valid (node_key (arena s ! a))" if "a \<in> set as" for a
  proof -
    have "a < length (arena s)" "valid (node_key (arena s ! a))" using ok that by (simp_all add: skip_ok_def)
    with f(1) show ?thesis by blast
  qed
  have "sorted_wrt (\<lambda>a b. cmp (node_key (arena s ! a)) (node_key (arena s ! b)) < 0) (?A @ ?B)"
    using ok by (simp add: skip_ok_def)
  then have sorted: "sorted_wrt (\<lambda>a b. cmp (f a) (f b) < 0) (?A @ ?B)"
    by (rule sorted_wrt_mono_rel [rotated]) (use mem in simp)
  have before: "\<forall>a\<in>set ?A. cmp (f a) (f (length (arena s))) < 0"
    using mem f(2) by (auto dest: set_takeWhileD)
  have after: "\<forall>b\<in>set ?B. cmp (f (length (arena s))) (f b) < 0"
  proof
    fix b assume b: "b \<in> set ?B"
    note b' = set_dropWhileD [OF b]
    have "cmp (node_key (arena s ! b)) k \<noteq> 0" using fresh b' by blast
    with after_not_before [OF ok assms(2) b] have "cmp (node_key (arena s ! b)) k > 0" by linarith
    with swap [of k "node_key (arena s ! b)"] assms(2) mem [OF b'] f(2)
    show "cmp (f (length (arena s))) (f b) < 0" by simp
  qed
  show ?thesis by (rule sorted_wrt_mid [OF sorted before after])
qed

lemma Insert_ok:
  assumes ok: "skip_ok cmp valid s as" and "valid k" and fresh: "\<forall>a\<in>set as. cmp (node_key (arena s ! a)) k \<noteq> 0"
  obtains s' where "Insert cmp k s = Some s'" and "length (arena s') = Suc (length (arena s))"
    and "\<forall>a<length (arena s). node_key (arena s' ! a) = node_key (arena s ! a)"
    and "node_key (arena s' ! length (arena s)) = k"
    and "skip_ok cmp valid s'
      (takeWhile (node_before s k) as @ length (arena s) # dropWhile (node_before s k) as)"
proof -
  let ?A = "takeWhile (node_before s k) as" and ?B = "dropWhile (node_before s k) as"
  let ?n = "length (arena s)" and ?ns = "arena s"
  obtain prev where prev: "FindGreaterOrEqual cmp k s = Some (first_of ?B, prev)" "length prev = kMaxHeight"
    "\<forall>i<max_height s. prev ! i = last (filter (\<lambda>a. i < height ?ns a) (0 # ?A))"
    by (rule FindGreaterOrEqual_ok [OF ok assms(2)])
  obtain h seed where rh: "RandomHeight (rnd s) = (h, seed)" by (rule prod.exhaust)
  have h: "1 \<le> h" "h \<le> kMaxHeight" using RandomHeight_bounds [OF rh] by (simp_all add: kMaxHeight_def)
  define prev' where "prev' = (if h > max_height s then fold (\<lambda>i p. p[i := 0]) [max_height s..<h] prev else prev)"
  define ns' where
    "ns' = link_levels ?n prev' [0..<h] (?ns @ [\<lparr>node_key = k, node_next = replicate h None\<rparr>])"
  define s' where "s' = \<lparr>arena = ns', max_height = (if h > max_height s then h else max_height s), rnd = seed\<rparr>"
  have ins: "Insert cmp k s = Some s'"
    by (simp add: Insert_def prev(1) rh prev'_def ns'_def s'_def Let_def)
  have mem: "a < ?n" if "a \<in> set as" for a using ok that by (auto simp: skip_ok_def)
  have keys: "node_key (ns' ! a) = node_key (?ns ! a)" "height ns' a = height ?ns a" if "a < ?n" for a
    using that by (simp_all add: ns'_def nth_append height_old)
  have new: "node_key (ns' ! ?n) = k" by (simp add: ns'_def)
  have new_height: "height ns' ?n = h" unfolding ns'_def link_levels_fields by (simp add: height_def)
  have "prev' ! i = last (filter (\<lambda>a. i < height ?ns a) (0 # ?A))" if i: "i < h" for i
  proof (cases "i < max_height s")
    case True
    with prev i h(2) show ?thesis by (auto simp: prev'_def prev_head)
  next
    case False
    have "height ?ns a \<le> i" if "a \<in> set ?A" for a
    proof -
      have "a \<in> set as" using set_takeWhileD [OF that] by blast
      with ok have "height ?ns a \<le> max_height s" by (simp add: skip_ok_def)
      with False show ?thesis by linarith
    qed
    then have "filter (\<lambda>a. i < height ?ns a) ?A = []" by (auto simp: filter_empty_conv not_less)
    moreover have "prev' ! i = 0" using False i h(2) prev(2) by (auto simp: prev'_def prev_head)
    moreover have "i < height ?ns 0" using ok i h(2) by (simp add: skip_ok_def linked_def)
    ultimately show ?thesis by simp
  qed
  then have prev': "\<forall>i<h. prev' ! i = last (filter (\<lambda>a. i < height ?ns a) (0 # ?A))" by blast
  have old: "linked ?ns (?A @ ?B)" "set (?A @ ?B) = {1..<?n}" "distinct (?A @ ?B)" "?ns \<noteq> []"
    using ok by (simp_all add: skip_ok_def)
  have linked: "linked ns' (?A @ ?n # ?B)" by (rule link_new [OF old h prev' ns'_def])
  have len: "length ns' = Suc ?n" by (simp add: ns'_def)
  have heights: "\<forall>a\<in>set (?A @ ?n # ?B). height ns' a \<le> max_height s' \<and> valid (node_key (ns' ! a))"
  proof
    fix a assume "a \<in> set (?A @ ?n # ?B)"
    then have "a = ?n \<or> a \<in> set as" by (auto dest: set_takeWhileD set_dropWhileD)
    then show "height ns' a \<le> max_height s' \<and> valid (node_key (ns' ! a))"
    proof
      assume a: "a \<in> set as"
      with ok have "height ?ns a \<le> max_height s \<and> valid (node_key (?ns ! a))" by (simp add: skip_ok_def)
      with keys [OF mem [OF a]] show ?thesis by (simp add: s'_def)
    qed (simp add: new new_height s'_def assms(2))
  qed
  have "1 \<le> ?n" using old(4) by (simp add: Suc_le_eq)
  note set = insert_mid [OF old(2,3) this]
  have "sorted_wrt (\<lambda>a b. cmp (node_key (ns' ! a)) (node_key (ns' ! b)) < 0) (?A @ ?n # ?B)"
    using keys(1) new by (intro sorted_new [OF ok assms(2) fresh]) simp_all
  moreover have "1 \<le> max_height s' \<and> max_height s' \<le> kMaxHeight"
    using ok h by (simp add: s'_def skip_ok_def)
  moreover have arena: "arena s' = ns'" by (simp add: s'_def)
  moreover have "ns' \<noteq> []" using len by auto
  ultimately have skip: "skip_ok cmp valid s' (?A @ ?n # ?B)"
    unfolding skip_ok_def arena len using linked heights set by blast
  have len': "length (arena s') = Suc ?n" and "\<forall>a<?n. node_key (arena s' ! a) = node_key (?ns ! a)"
    and new': "node_key (arena s' ! ?n) = k" using keys(1) new len by (simp_all add: arena)
  from that [OF ins this skip] show thesis .
qed

lemma represents_insert:
  assumes "represents cmp valid s ks" and "valid k" and "\<forall>j\<in>set ks. cmp j k \<noteq> 0"
  shows "\<exists>s'. Insert cmp k s = Some s' \<and> represents cmp valid s' (sorted_insert cmp k ks)"
proof -
  obtain as where ok: "skip_ok cmp valid s as" and ks: "ks = map (\<lambda>a. node_key (arena s ! a)) as"
    using assms(1) by (auto simp: represents_def)
  let ?A = "takeWhile (node_before s k) as" and ?B = "dropWhile (node_before s k) as"
  have fresh: "\<forall>a\<in>set as. cmp (node_key (arena s ! a)) k \<noteq> 0" using assms(3) ks by simp
  obtain s' where s': "Insert cmp k s = Some s'" "\<forall>a<length (arena s). node_key (arena s' ! a) = node_key (arena s ! a)"
    "node_key (arena s' ! length (arena s)) = k" "skip_ok cmp valid s' (?A @ length (arena s) # ?B)"
    by (rule Insert_ok [OF ok assms(2) fresh])
  have old: "map (\<lambda>a. node_key (arena s' ! a)) xs = map (\<lambda>a. node_key (arena s ! a)) xs" if "set xs \<subseteq> set as" for xs
    using ok s'(2) that by (auto simp: skip_ok_def)
  have AB: "set ?A \<subseteq> set as" "set ?B \<subseteq> set as" by (auto dest: set_takeWhileD set_dropWhileD)
  have "map (\<lambda>a. node_key (arena s' ! a)) (?A @ length (arena s) # ?B) = sorted_insert cmp k ks"
    by (simp add: old [OF AB(1)] old [OF AB(2)] s'(3) ks sorted_insert_def takeWhile_map dropWhile_map comp_def)
  with s'(1,4) show ?thesis by (auto simp: represents_def)
qed

lemma represents_seek:
  assumes "represents cmp valid s ks" and "valid k"
  shows "\<exists>n. iter_Seek cmp k s = Some n \<and>
    map_option (iter_key s) n = (case dropWhile (\<lambda>j. cmp j k < 0) ks of [] \<Rightarrow> None | j # _ \<Rightarrow> Some j)"
proof -
  obtain as where ok: "skip_ok cmp valid s as" and ks: "ks = map (\<lambda>a. node_key (arena s ! a)) as"
    using assms(1) by (auto simp: represents_def)
  obtain prev where "FindGreaterOrEqual cmp k s = Some (first_of (dropWhile (node_before s k) as), prev)"
    by (rule FindGreaterOrEqual_ok [OF ok assms(2)])
  then have "iter_Seek cmp k s = Some (first_of (dropWhile (node_before s k) as))" by (simp add: iter_Seek_def)
  moreover have "dropWhile (\<lambda>j. cmp j k < 0) ks = map (\<lambda>a. node_key (arena s ! a)) (dropWhile (node_before s k) as)"
    by (simp add: ks dropWhile_map comp_def)
  ultimately show ?thesis
    by (cases "dropWhile (node_before s k) as")
      (simp_all add: first_of_def iter_key_def del: dropWhile_eq_Nil_conv)
qed

lemma cmp_zero_swap: "valid a \<Longrightarrow> valid b \<Longrightarrow> cmp a b = 0 \<longleftrightarrow> cmp b a = 0"
  using swap [of a b] swap [of b a] by linarith

lemma represents_sorted: "represents cmp valid s ks \<Longrightarrow> sorted_wrt (\<lambda>a b. cmp a b < 0) ks \<and> (\<forall>j\<in>set ks. valid j)"
  by (auto simp: represents_def skip_ok_def sorted_wrt_map)

lemma first_not_before:
  assumes sorted: "sorted_wrt (\<lambda>a b. cmp a b < 0) ks" and valid: "\<forall>j\<in>set ks. valid j" "valid k"
    and drop: "dropWhile (\<lambda>j. cmp j k < 0) ks = j # js"
  shows "j \<in> set ks \<and> \<not> cmp j k < 0 \<and> (\<forall>i\<in>set ks. cmp i k = 0 \<longrightarrow> i = j)"
proof -
  define T where "T = takeWhile (\<lambda>j. cmp j k < 0) ks"
  have ks: "ks = T @ j # js" using takeWhile_dropWhile_id [of "\<lambda>j. cmp j k < 0" ks] drop by (simp add: T_def)
  have j: "\<not> cmp j k < 0" using hd_dropWhile [of "\<lambda>j. cmp j k < 0" ks] drop by simp
  have unique: "i = j" if i: "i \<in> set ks" "cmp i k = 0" for i
  proof (rule ccontr)
    assume "i \<noteq> j"
    moreover have "i \<notin> set T" using i(2) set_takeWhileD [of i "\<lambda>j. cmp j k < 0" ks] by (auto simp: T_def)
    ultimately have "i \<in> set js" using i(1) ks by simp
    then have "cmp j i < 0" using sorted unfolding ks by (simp add: sorted_wrt_append)
    moreover have "valid i" "valid j" using valid(1) i(1) unfolding ks by auto
    ultimately show False using less_eq_trans [of j i k] valid(2) i(2) j by blast
  qed
  have "j \<in> set ks" unfolding ks by simp
  with j unique show ?thesis by blast
qed

lemma represents_contains:
  assumes rep: "represents cmp valid s ks" and "valid k"
  shows "Contains cmp k s = Some (\<exists>j\<in>set ks. cmp j k = 0)"
proof -
  note sorted = represents_sorted [OF rep]
  obtain n where seek: "iter_Seek cmp k s = Some n"
    and n: "map_option (iter_key s) n = (case dropWhile (\<lambda>j. cmp j k < 0) ks of [] \<Rightarrow> None | j # _ \<Rightarrow> Some j)"
    using represents_seek [OF assms] by blast
  from seek obtain prev where fge: "FindGreaterOrEqual cmp k s = Some (n, prev)" by (auto simp: iter_Seek_def)
  show ?thesis
  proof (cases "dropWhile (\<lambda>j. cmp j k < 0) ks")
    case Nil
    then have "\<forall>j\<in>set ks. cmp j k < 0" by (simp add: dropWhile_eq_Nil_conv)
    moreover have "n = None" using n unfolding Nil by simp
    ultimately show ?thesis using fge by (auto simp: Contains_def)
  next
    case (Cons j js)
    with n obtain a where "n = Some a" "node_key (arena s ! a) = j" by (auto simp: iter_key_def)
    with fge have "Contains cmp k s = Some (cmp k j = 0)" by (simp add: Contains_def)
    with first_not_before [OF _ _ assms(2) Cons] sorted cmp_zero_swap [of k j] assms(2) show ?thesis by auto
  qed
qed

lemma iter_positions:
  assumes ok: "skip_ok cmp valid s as"
  shows "iter_SeekToFirst s = first_of as"
    and "iter_SeekToLast s = Some (if as = [] then None else Some (last as))"
    and "i < length as \<Longrightarrow> iter_Next s (as ! i) = (if Suc i < length as then Some (as ! Suc i) else None)"
    and "i < length as \<Longrightarrow> iter_Prev cmp s (as ! i) = Some (if i = 0 then None else Some (as ! (i - 1)))"
proof -
  have pos: "\<forall>a\<in>set as. 0 < height (arena s) a" "0 \<notin> set as" "0 < kMaxHeight"
    using skip_okD [OF ok] by (auto simp: kMaxHeight_def)
  then have all: "filter (\<lambda>a. 0 < height (arena s) a) as = as" by (simp add: filter_id_conv)
  with ok pos(3) have path: "path (arena s) 0 0 as" unfolding skip_ok_def linked_def by metis
  show "iter_SeekToFirst s = first_of as" using path_first [OF path] by (simp add: iter_SeekToFirst_def)
  show "iter_SeekToLast s = Some (if as = [] then None else Some (last as))"
  proof (cases "as = []")
    case False
    then have "last as \<noteq> 0" using pos(2) last_in_set [of as] by metis
    with False FindLast_ok [OF ok] show ?thesis by (simp add: iter_SeekToLast_def)
  qed (use FindLast_ok [OF ok] in \<open>simp add: iter_SeekToLast_def\<close>)
  assume i: "i < length as"
  have split: "as = take i as @ as ! i # drop (Suc i) as" using i by (simp add: id_take_nth_drop)
  then have "path (arena s) 0 (as ! i) (drop (Suc i) as)" using path path_append by metis
  from path_first [OF this] show "iter_Next s (as ! i) = (if Suc i < length as then Some (as ! Suc i) else None)"
    by (cases "Suc i < length as") (simp_all add: iter_Next_def first_of_def Cons_nth_drop_Suc [symmetric])
  show "iter_Prev cmp s (as ! i) = Some (if i = 0 then None else Some (as ! (i - 1)))"
  proof -
    let ?k = "iter_key s (as ! i)"
    have valid: "valid ?k" using skip_okD(5) [OF ok nth_mem [OF i]] by (simp add: iter_key_def)
    have "\<not> node_before s ?k (as ! i)" using swap [OF valid valid] by (auto simp: iter_key_def)
    moreover have "\<forall>a\<in>set (take i as). node_before s ?k a"
    proof -
      have "sorted_wrt (\<lambda>a b. node_before s (node_key (arena s ! b)) a) (take i as @ as ! i # drop (Suc i) as)"
        using ok split by (simp add: skip_ok_def)
      then show ?thesis by (simp add: sorted_wrt_append iter_key_def)
    qed
    ultimately have "takeWhile (node_before s ?k) as = take i as"
      using split takeWhile_append2 [of "take i as" "node_before s ?k" "as ! i # drop (Suc i) as"] by auto
    with FindLessThan_ok [OF ok valid] have "iter_Prev cmp s (as ! i) =
        Some (if last (0 # take i as) = 0 then None else Some (last (0 # take i as)))"
      by (simp add: iter_Prev_def)
    moreover have "last (0 # take i as) = as ! (i - 1) \<and> as ! (i - 1) \<noteq> 0" if "i > 0"
    proof
      have "i - 1 < length as" using i by simp
      from nth_mem [OF this] pos(2) show "as ! (i - 1) \<noteq> 0" by metis
      show "last (0 # take i as) = as ! (i - 1)" using that i by (auto simp: last_conv_nth min_def)
    qed
    ultimately show ?thesis by (cases "i = 0") simp_all
  qed
qed

end

end
