(* ===== verification/Ldb_Memtable.thy ===== *)
theory Ldb_Memtable
  imports Ldb_Skiplist
begin

text \<open>
  LevelDB's memtable (\<^verbatim>\<open>src/unifyframework/leveldb-master/db/memtable.cc\<close>): the entries that were written but are not yet in
  a table file, in a skip list ordered by internal key.

  A key of the skip list is a pointer to an encoded entry, here the bytes of the entry. Reference
  counting and the memory of the arena are left out. \<open>GetLengthPrefixedSlice(const char*)\<close> assumes that the entry
  is not corrupted, and is unspecified when no length can be read.
\<close>

section \<open>Operations\<close>

text \<open>The slice, and the bytes after it.\<close>

definition entry_slice :: "bytes \<Rightarrow> bytes \<times> bytes" where
  "entry_slice data =
     (case GetVarint32Ptr (take 5 data) of
        Some (len, rest) \<Rightarrow>
          (let p = drop (length (take 5 data) - length rest) data in (take (unat len) p, drop (unat len) p))
      | None \<Rightarrow> undefined)"

definition KeyComparator :: "comparator \<Rightarrow> bytes \<Rightarrow> bytes \<Rightarrow> int" where
  "KeyComparator user aptr bptr =
     Compare (InternalKeyComparator user) (fst (entry_slice aptr)) (fst (entry_slice bptr))"

record mem_table =
  table :: "bytes skip_list"

definition MemTable :: mem_table where
  "MemTable = \<lparr>table = SkipList []\<rparr>"

definition encode_entry :: "u64 \<Rightarrow> ValueType \<Rightarrow> bytes \<Rightarrow> bytes \<Rightarrow> bytes" where
  "encode_entry s type key value =
     EncodeVarint32 (of_nat (length key + 8)) @ key @ EncodeFixed64 (push_bit 8 s OR type_code type) @
     EncodeVarint32 (of_nat (length value)) @ value"

definition MemTable_Add :: "comparator \<Rightarrow> u64 \<Rightarrow> ValueType \<Rightarrow> bytes \<Rightarrow> bytes \<Rightarrow> mem_table \<Rightarrow> mem_table option" where
  "MemTable_Add user s type key value m =
     map_option (\<lambda>t. m\<lparr>table := t\<rparr>) (Insert (KeyComparator user) (encode_entry s type key value) (table m))"

text \<open>The result of \<open>Get\<close>: \<open>false\<close>, \<open>true\<close> with a value, or \<open>true\<close> with the status \<open>NotFound\<close>.\<close>

datatype get_result = NoEntry | FoundValue bytes | FoundDeletion

definition MemTable_Get :: "comparator \<Rightarrow> bytes \<Rightarrow> u64 \<Rightarrow> mem_table \<Rightarrow> get_result option" where
  "MemTable_Get user ukey s m =
     (case iter_Seek (KeyComparator user) (memtable_key ukey s) (table m) of
        None \<Rightarrow> None
      | Some None \<Rightarrow> Some NoEntry
      | Some (Some n) \<Rightarrow>
          (let entry = iter_key (table m) n; (ikey, after_key) = entry_slice entry
           in if Compare user (take (length ikey - 8) ikey) ukey = 0
              then let tag = DecodeFixed64 (drop (length ikey - 8) ikey)
                   in if tag AND 0xff = type_code kTypeValue then Some (FoundValue (fst (entry_slice after_key)))
                      else if tag AND 0xff = type_code kTypeDeletion then Some FoundDeletion
                      else Some NoEntry
              else Some NoEntry))"

section \<open>Entries\<close>

lemma length_EncodeVarint32: "length (EncodeVarint32 v) \<le> 5"
  by (simp add: EncodeVarint32_def)

lemma length_varint: "n < 2 ^ 32 \<Longrightarrow> length (varint n) \<le> 5"
  using length_EncodeVarint32 [of "of_nat n"] by (simp add: EncodeVarint32_varint unat_of_nat)

lemma entry_slice_bytes:
  assumes "length ikey < 2 ^ 32"
  shows "entry_slice (slice_bytes ikey @ rest) = (ikey, rest)"
proof -
  let ?v = "varint (length ikey)"
  have len: "length ?v \<le> 5" using length_varint [OF assms] .
  then have take: "take 5 (slice_bytes ikey @ rest) = ?v @ take (5 - length ?v) (ikey @ rest)"
    by (simp add: slice_bytes_def)
  from GetVarint32_varint [OF assms] have
    "GetVarint32Ptr (take 5 (slice_bytes ikey @ rest)) = Some (of_nat (length ikey), take (5 - length ?v) (ikey @ rest))"
    unfolding take by (simp add: GetVarint32_def)
  moreover have "length (take 5 (slice_bytes ikey @ rest)) - length (take (5 - length ?v) (ikey @ rest)) = length ?v"
    unfolding take by simp
  moreover have "unat (of_nat (length ikey) :: u32) = length ikey" using assms by (simp add: unat_of_nat)
  ultimately show ?thesis by (simp add: entry_slice_def Let_def slice_bytes_def)
qed

definition entry_ok :: "bytes \<Rightarrow> bool" where
  "entry_ok e \<longleftrightarrow> (\<exists>ikey rest. e = slice_bytes ikey @ rest \<and> 8 \<le> length ikey \<and> length ikey < 2 ^ 32)"

lemma entry_ok_slice: "entry_ok e \<Longrightarrow> internal_key_ok (fst (entry_slice e))"
  by (auto simp: entry_ok_def entry_slice_bytes internal_key_ok_def)

interpretation entries: key_order "KeyComparator BytewiseComparator" entry_ok
proof
  fix a b c
  assume ok: "entry_ok a" "entry_ok b"
  note keys = entry_ok_slice [OF ok(1)] entry_ok_slice [OF ok(2)]
  show "KeyComparator BytewiseComparator a b < 0 \<longleftrightarrow> KeyComparator BytewiseComparator b a > 0"
    unfolding KeyComparator_def by (rule internal.swap [OF keys])
  assume "entry_ok c"
  note keys' = keys entry_ok_slice [OF this]
  show "KeyComparator BytewiseComparator a b < 0 \<Longrightarrow> KeyComparator BytewiseComparator b c < 0 \<Longrightarrow>
      KeyComparator BytewiseComparator a c < 0"
    unfolding KeyComparator_def by (rule internal.less_trans [OF keys'])
  show "KeyComparator BytewiseComparator a b < 0 \<Longrightarrow> KeyComparator BytewiseComparator b c = 0 \<Longrightarrow>
      KeyComparator BytewiseComparator a c < 0"
    unfolding KeyComparator_def using internal.equal_iff [OF keys'(2,3)] by simp
qed

section \<open>Writes\<close>

record mem_write =
  w_seq :: u64
  w_type :: ValueType
  w_key :: bytes
  w_value :: bytes

definition write_ok :: "mem_write \<Rightarrow> bool" where
  "write_ok w \<longleftrightarrow> w_seq w \<le> kMaxSequenceNumber \<and> length (w_key w) + 8 < 2 ^ 32 \<and> length (w_value w) < 2 ^ 32"

definition entry_of :: "mem_write \<Rightarrow> bytes" where
  "entry_of w = encode_entry (w_seq w) (w_type w) (w_key w) (w_value w)"

fun add_all :: "comparator \<Rightarrow> mem_write list \<Rightarrow> mem_table \<Rightarrow> mem_table option" where
  "add_all user [] m = Some m"
| "add_all user (w # ws) m =
     (case MemTable_Add user (w_seq w) (w_type w) (w_key w) (w_value w) m of
        None \<Rightarrow> None | Some m' \<Rightarrow> add_all user ws m')"

text \<open>The newest of the writes.\<close>

fun newest :: "mem_write list \<Rightarrow> mem_write option" where
  "newest [] = None"
| "newest (w # ws) = (case newest ws of None \<Rightarrow> Some w | Some w' \<Rightarrow> Some (if w_seq w > w_seq w' then w else w'))"

text \<open>What a reader at the snapshot \<open>s\<close> sees of a key.\<close>

definition visible :: "mem_write list \<Rightarrow> bytes \<Rightarrow> u64 \<Rightarrow> get_result" where
  "visible ws ukey s =
     (case newest (filter (\<lambda>w. w_key w = ukey \<and> w_seq w \<le> s) ws) of
        None \<Rightarrow> NoEntry
      | Some w \<Rightarrow> (case w_type w of kTypeValue \<Rightarrow> FoundValue (w_value w) | kTypeDeletion \<Rightarrow> FoundDeletion))"

lemma newest_None: "newest ws = None \<longleftrightarrow> ws = []"
  by (cases ws) (auto split: option.splits)

lemma newest_max: "newest ws = Some w \<Longrightarrow> w \<in> set ws \<and> (\<forall>w'\<in>set ws. w_seq w' \<le> w_seq w)"
proof (induction ws arbitrary: w)
  case (Cons v ws)
  show ?case
  proof (cases "newest ws")
    case None
    with Cons.prems show ?thesis by (simp add: newest_None)
  next
    case (Some u)
    from Cons.IH [OF this] Cons.prems Some show ?thesis by (auto split: if_splits)
  qed
qed simp

lemma newest_unique:
  assumes "distinct (map w_seq ws)" and "w \<in> set ws" and "\<forall>w'\<in>set ws. w_seq w' \<le> w_seq w"
  shows "newest ws = Some w"
proof -
  obtain v where v: "newest ws = Some v" using assms(2) newest_None [of ws] by (cases "newest ws") auto
  from newest_max [OF v] assms(2,3) have "v \<in> set ws" "w_seq v = w_seq w" by (auto intro: order_antisym)
  with assms(1,2) v show ?thesis by (auto simp: distinct_map dest: inj_onD)
qed

abbreviation write_tag :: "mem_write \<Rightarrow> u64" where
  "write_tag w \<equiv> PackSequenceAndType (w_seq w) (w_type w)"

abbreviation write_ikey :: "mem_write \<Rightarrow> bytes" where
  "write_ikey w \<equiv> w_key w @ EncodeFixed64 (write_tag w)"

lemma EncodeVarint32_plus_8: "n + 8 < 2 ^ 32 \<Longrightarrow> EncodeVarint32 (of_nat n + 8) = varint (n + 8)"
proof -
  assume "n + 8 < 2 ^ 32"
  then have "unat (of_nat (n + 8) :: u32) = n + 8" unfolding unat_of_nat by simp
  then show ?thesis by (simp add: EncodeVarint32_varint)
qed

lemma entry_of_bytes:
  assumes "write_ok w"
  shows "entry_of w = slice_bytes (write_ikey w) @ slice_bytes (w_value w)"
proof -
  have "EncodeVarint32 (of_nat (length (w_key w)) + 8) = varint (length (w_key w) + 8)"
    using assms by (intro EncodeVarint32_plus_8) (simp add: write_ok_def)
  moreover have "EncodeVarint32 (of_nat (length (w_value w))) = varint (length (w_value w))"
    using assms by (simp add: write_ok_def EncodeVarint32_varint unat_of_nat)
  ultimately show ?thesis by (simp add: entry_of_def encode_entry_def slice_bytes_def PackSequenceAndType_def)
qed

lemma entry_of_ok: "write_ok w \<Longrightarrow> entry_ok (entry_of w)"
  unfolding entry_ok_def by (intro exI conjI, rule entry_of_bytes) (simp_all add: write_ok_def)

lemma entry_slice_of:
  "write_ok w \<Longrightarrow> entry_slice (entry_of w) = (write_ikey w, slice_bytes (w_value w))"
  by (simp add: entry_of_bytes entry_slice_bytes write_ok_def)

lemma memtable_key_bytes:
  "length ukey + 8 < 2 ^ 32 \<Longrightarrow>
    memtable_key ukey s = slice_bytes (ukey @ EncodeFixed64 (PackSequenceAndType s kValueTypeForSeek)) @ []"
  using EncodeVarint32_plus_8 [of "length ukey"] by (simp add: memtable_key_def slice_bytes_def)

lemma KeyComparator_less:
  assumes "entry_slice a = (u @ EncodeFixed64 t, r)" and "entry_slice b = (u' @ EncodeFixed64 t', r')"
  shows "KeyComparator BytewiseComparator a b < 0 \<longleftrightarrow> u < u' \<or> u = u' \<and> t > t'"
    and "KeyComparator BytewiseComparator a b = 0 \<longleftrightarrow> u = u' \<and> t = t'"
proof -
  have ok: "bytewise.internal_valid (u @ EncodeFixed64 t)" "bytewise.internal_valid (u' @ EncodeFixed64 t')"
    by (simp_all add: internal_valid_bytewise internal_key_ok_def)
  show "KeyComparator BytewiseComparator a b < 0 \<longleftrightarrow> u < u' \<or> u = u' \<and> t > t'"
    using bytewise.internal_less(1) [OF ok]
    by (simp add: KeyComparator_def assms InternalKeyComparator_def bytewise_precedes)
  have "u @ EncodeFixed64 t = u' @ EncodeFixed64 t' \<longleftrightarrow> u = u' \<and> t = t'"
    by (metis internal_parts)
  then show "KeyComparator BytewiseComparator a b = 0 \<longleftrightarrow> u = u' \<and> t = t'"
    using bytewise.internal_less(2) [OF ok] by (simp add: KeyComparator_def assms InternalKeyComparator_def)
qed

lemma pack_inject:
  "s \<le> kMaxSequenceNumber \<Longrightarrow> s' \<le> kMaxSequenceNumber \<Longrightarrow> PackSequenceAndType s t = PackSequenceAndType s' t' \<Longrightarrow> s = s'"
  using pack_parts(1) by metis

lemma add_all_represents:
  assumes "represents (KeyComparator BytewiseComparator) entry_ok (table m) ks" and "set ks = entry_of ` set ws0"
    and "distinct (map w_seq (ws0 @ ws))" and "\<forall>w\<in>set (ws0 @ ws). write_ok w"
  shows "\<exists>m' ks'. add_all BytewiseComparator ws m = Some m' \<and>
    represents (KeyComparator BytewiseComparator) entry_ok (table m') ks' \<and> set ks' = entry_of ` set (ws0 @ ws)"
  using assms
proof (induction ws arbitrary: m ks ws0)
  case (Cons w ws)
  let ?cmp = "KeyComparator BytewiseComparator"
  have w: "write_ok w" using Cons.prems(4) by simp
  have fresh: "\<forall>j\<in>set ks. ?cmp j (entry_of w) \<noteq> 0"
  proof
    fix j assume "j \<in> set ks"
    then obtain v where v: "v \<in> set ws0" "j = entry_of v" unfolding Cons.prems(2) by (rule imageE)
    have seq: "w_seq v \<noteq> w_seq w" using Cons.prems(3) imageI [OF v(1), of w_seq] by auto
    have vok: "write_ok v" using Cons.prems(4) v(1) by simp
    have "write_tag v \<noteq> write_tag w" using pack_inject [of "w_seq v" "w_seq w"] seq vok w unfolding write_ok_def by blast
    with KeyComparator_less(2) [OF entry_slice_of [OF vok] entry_slice_of [OF w]] v(2)
    show "?cmp j (entry_of w) \<noteq> 0" by simp
  qed
  obtain t where t: "Insert ?cmp (entry_of w) (table m) = Some t"
    "represents ?cmp entry_ok t (sorted_insert ?cmp (entry_of w) ks)"
    using entries.represents_insert [OF Cons.prems(1) entry_of_ok [OF w] fresh] by blast
  have "MemTable_Add BytewiseComparator (w_seq w) (w_type w) (w_key w) (w_value w) m = Some (m\<lparr>table := t\<rparr>)"
    using t(1) by (simp add: MemTable_Add_def entry_of_def)
  moreover have "set (sorted_insert ?cmp (entry_of w) ks) = entry_of ` set (ws0 @ [w])"
  proof -
    have "set (sorted_insert ?cmp (entry_of w) ks) = insert (entry_of w) (set ks)"
      unfolding sorted_insert_def set_append list.set(2) Un_insert_right
      by (simp only: set_append [symmetric] takeWhile_dropWhile_id)
    with Cons.prems(2) show ?thesis by auto
  qed
  ultimately show ?case
    using Cons.IH [of "m\<lparr>table := t\<rparr>" "sorted_insert ?cmp (entry_of w) ks" "ws0 @ [w]"] t(2) Cons.prems(3,4) by simp
qed auto

section \<open>Reading\<close>

lemma entry_before_key:
  assumes "write_ok w" and "length ukey + 8 < 2 ^ 32" and "s \<le> kMaxSequenceNumber"
  shows "KeyComparator BytewiseComparator (entry_of w) (memtable_key ukey s) < 0 \<longleftrightarrow>
    w_key w < ukey \<or> w_key w = ukey \<and> w_seq w > s"
proof -
  have "entry_slice (memtable_key ukey s) = (ukey @ EncodeFixed64 (PackSequenceAndType s kValueTypeForSeek), [])"
    unfolding memtable_key_bytes [OF assms(2)] using assms(2) by (intro entry_slice_bytes) simp
  from KeyComparator_less(1) [OF entry_slice_of [OF assms(1)] this]
    pack_less_iff [of "w_seq w" s kValueTypeForSeek "w_type w"] assms
  show ?thesis by (auto simp: write_ok_def kValueTypeForSeek_def)
qed

text \<open>The entry found by \<open>Seek\<close> is the newest visible one of its key, if it has the key at all.\<close>

lemma seek_newest:
  assumes sorted: "sorted_wrt (\<lambda>a b. KeyComparator BytewiseComparator a b < 0) ks"
    and ks: "set ks = entry_of ` set ws" and ok: "\<forall>w\<in>set ws. write_ok w" and seqs: "distinct (map w_seq ws)"
    and key: "length ukey + 8 < 2 ^ 32" "s \<le> kMaxSequenceNumber"
    and drop: "dropWhile (\<lambda>j. KeyComparator BytewiseComparator j (memtable_key ukey s) < 0) ks = e # es"
  shows "\<exists>w\<in>set ws. e = entry_of w \<and> newest (filter (\<lambda>w. w_key w = ukey \<and> w_seq w \<le> s) ws) =
    (if w_key w = ukey then Some w else None)"
proof -
  let ?before = "\<lambda>j. KeyComparator BytewiseComparator j (memtable_key ukey s) < 0"
  let ?vis = "\<lambda>w. w_key w = ukey \<and> w_seq w \<le> s"
  define T where "T = takeWhile ?before ks"
  have split: "ks = T @ e # es" using takeWhile_dropWhile_id [of ?before ks] drop by (simp add: T_def)
  then have "e \<in> entry_of ` set ws" using ks by auto
  then obtain w where w: "w \<in> set ws" "e = entry_of w" by blast
  then have wok: "write_ok w" using ok by blast
  have "\<not> ?before e" using hd_dropWhile [of ?before ks] drop by simp
  then have "\<not> (w_key w < ukey \<or> w_key w = ukey \<and> w_seq w > s)"
    using entry_before_key [OF wok key] w(2) by simp
  then have nb: "ukey < w_key w \<or> ?vis w" by (auto simp: not_less le_less)
  have later: "w_key w < w_key v \<or> w_key w = w_key v \<and> w_seq v \<le> w_seq w" if v: "v \<in> set ws" "?vis v" for v
  proof (cases "entry_of v = e")
    case True
    have vok: "write_ok v" using ok v(1) by blast
    have "write_ikey v = write_ikey w" using True w(2) entry_slice_of [OF vok] entry_slice_of [OF wok] by simp
    then have "w_key v = w_key w \<and> write_tag v = write_tag w" by (metis internal_parts)
    with pack_inject [of "w_seq v" "w_seq w" "w_type v" "w_type w"] vok wok show ?thesis
      by (simp add: write_ok_def)
  next
    case False
    have vok: "write_ok v" using ok v(1) by blast
    then have "\<not> ?before (entry_of v)" using entry_before_key [OF vok key] v(2) by auto
    then have "entry_of v \<notin> set T" using set_takeWhileD [of "entry_of v" ?before ks] by (auto simp: T_def)
    moreover have "entry_of v \<in> set ks" using ks v(1) by simp
    ultimately have "entry_of v \<in> set es" using False split by simp
    then have "KeyComparator BytewiseComparator e (entry_of v) < 0"
      using sorted unfolding split by (simp add: sorted_wrt_append)
    with KeyComparator_less(1) [OF entry_slice_of [OF wok] entry_slice_of [OF vok]] w(2)
      pack_less_iff [of "w_seq w" "w_seq v" "w_type v" "w_type w"] vok wok
    show ?thesis by (auto simp: write_ok_def)
  qed
  have mine: "newest (filter ?vis ws) = Some w" if "w_key w = ukey"
  proof (rule newest_unique)
    show "distinct (map w_seq (filter ?vis ws))" using seqs by (rule distinct_map_filter)
    have "?vis w" using nb that by (metis less_irrefl)
    with w(1) show "w \<in> set (filter ?vis ws)" by simp
    show "\<forall>w'\<in>set (filter ?vis ws). w_seq w' \<le> w_seq w"
    proof
      fix v assume "v \<in> set (filter ?vis ws)"
      then have v: "v \<in> set ws" "?vis v" by simp_all
      from later [OF v] that v(2) show "w_seq v \<le> w_seq w" by auto
    qed
  qed
  have other: "newest (filter ?vis ws) = None" if "w_key w \<noteq> ukey"
  proof -
    from nb that have greater: "ukey < w_key w" by blast
    have "\<not> ?vis v" if "v \<in> set ws" for v
    proof
      assume vis: "?vis v"
      from later [OF that vis] vis greater show False by (metis less_asym less_irrefl)
    qed
    then have "filter ?vis ws = []" by (simp add: filter_empty_conv)
    then show ?thesis by simp
  qed
  from mine other have "newest (filter ?vis ws) = (if w_key w = ukey then Some w else None)" by simp
  with w show ?thesis by blast
qed

lemma tag_types: "w_seq w \<le> kMaxSequenceNumber \<Longrightarrow> write_tag w AND 0xff = type_code (w_type w)"
proof -
  assume "w_seq w \<le> kMaxSequenceNumber"
  from pack_parts(2) [OF this, of "w_type w"]
  have "unat (take_bit 8 (write_tag w)) = unat (take_bit 8 (type_code (w_type w)))"
    unfolding and_255_u64 by (simp add: word_unat_eq_iff unsigned_ucast_eq unsigned_take_bit_eq)
  moreover have "take_bit 8 (type_code (w_type w)) = type_code (w_type w)" by (cases "w_type w") simp_all
  ultimately show ?thesis unfolding and_255_u64 by (simp add: word_unat_eq_iff)
qed

lemma MemTable_Get_visible:
  assumes rep: "represents (KeyComparator BytewiseComparator) entry_ok (table m) ks"
    and ks: "set ks = entry_of ` set ws" and ok: "\<forall>w\<in>set ws. write_ok w" and seqs: "distinct (map w_seq ws)"
    and key: "length ukey + 8 < 2 ^ 32" "s \<le> kMaxSequenceNumber"
  shows "MemTable_Get BytewiseComparator ukey s m = Some (visible ws ukey s)"
proof -
  let ?cmp = "KeyComparator BytewiseComparator"
  let ?drop = "dropWhile (\<lambda>j. ?cmp j (memtable_key ukey s) < 0) ks"
  have "entry_ok (memtable_key ukey s)"
    unfolding entry_ok_def using memtable_key_bytes [OF key(1)] key(1) by fastforce
  from entries.represents_seek [OF rep this] obtain n where n: "iter_Seek ?cmp (memtable_key ukey s) (table m) = Some n"
    "map_option (iter_key (table m)) n = (case ?drop of [] \<Rightarrow> None | j # _ \<Rightarrow> Some j)" by blast
  show ?thesis
  proof (cases ?drop)
    case Nil
    have "\<not> (w_key w = ukey \<and> w_seq w \<le> s)" if "w \<in> set ws" for w
    proof -
      have "entry_of w \<in> set ks" using ks that by simp
      with Nil have "?cmp (entry_of w) (memtable_key ukey s) < 0" by (simp add: dropWhile_eq_Nil_conv)
      with entry_before_key [OF _ key, of w] ok that show ?thesis by auto
    qed
    then have "filter (\<lambda>w. w_key w = ukey \<and> w_seq w \<le> s) ws = []" by (simp add: filter_empty_conv)
    moreover have "n = None" using n(2) unfolding Nil by simp
    ultimately show ?thesis using n(1) by (simp add: MemTable_Get_def visible_def)
  next
    case (Cons e es)
    then obtain w where w: "w \<in> set ws" "e = entry_of w" "newest (filter (\<lambda>w. w_key w = ukey \<and> w_seq w \<le> s) ws) =
        (if w_key w = ukey then Some w else None)"
      using seek_newest [OF _ ks ok seqs key Cons] entries.represents_sorted [OF rep] by blast
    from n(2) Cons obtain a where a: "n = Some a" "iter_key (table m) a = e" by auto
    have wok: "write_ok w" using ok w(1) by blast
    have val: "fst (entry_slice (slice_bytes (w_value w))) = w_value w"
      using entry_slice_bytes [of "w_value w" "[]"] wok by (simp add: write_ok_def)
    have tag: "DecodeFixed64 (EncodeFixed64 (write_tag w)) = write_tag w"
      using DecodeFixed64_Encode [of _ "[]"] by simp
    have "Compare BytewiseComparator (w_key w) ukey = 0 \<longleftrightarrow> w_key w = ukey" by (simp add: BytewiseComparator_def)
    with n(1) a w(2) val tag tag_types [of w] wok
    have "MemTable_Get BytewiseComparator ukey s m = Some (if w_key w = ukey
        then (case w_type w of kTypeValue \<Rightarrow> FoundValue (w_value w) | kTypeDeletion \<Rightarrow> FoundDeletion) else NoEntry)"
      by (cases "w_type w") (simp_all add: MemTable_Get_def entry_slice_of Let_def write_ok_def)
    with w(3) show ?thesis by (simp add: visible_def)
  qed
qed

section \<open>Properties\<close>

text \<open>
  C27: the skip list of a memtable implements a sorted list. \<open>Insert\<close> returns and puts a new entry at its
  place in the order, \<open>Contains\<close> decides membership, \<open>Seek\<close> stops at the first entry that is not
  before the target, and the list keeps its invariant.
\<close>

theorem skip_list_refines_sorted_list:
  assumes "represents (KeyComparator BytewiseComparator) entry_ok s ks" and "entry_ok e" and "entry_ok t"
    and "\<forall>j\<in>set ks. KeyComparator BytewiseComparator j e \<noteq> 0"
  shows "(\<exists>s'. Insert (KeyComparator BytewiseComparator) e s = Some s' \<and>
      represents (KeyComparator BytewiseComparator) entry_ok s' (sorted_insert (KeyComparator BytewiseComparator) e ks)) \<and>
    Contains (KeyComparator BytewiseComparator) t s = Some (\<exists>j\<in>set ks. KeyComparator BytewiseComparator j t = 0) \<and>
    (\<exists>n. iter_Seek (KeyComparator BytewiseComparator) t s = Some n \<and>
      map_option (iter_key s) n =
        (case dropWhile (\<lambda>j. KeyComparator BytewiseComparator j t < 0) ks of [] \<Rightarrow> None | j # _ \<Rightarrow> Some j))"
  using entries.represents_insert [OF assms(1,2,4)] entries.represents_contains [OF assms(1,3)]
    entries.represents_seek [OF assms(1,3)] by simp

text \<open>
  After any sequence of writes with distinct sequence numbers, reading a key at a snapshot returns what the
  newest write to that key up to the snapshot wrote: its value, a deletion, or no entry.
\<close>

theorem memtable_get:
  assumes "distinct (map w_seq ws)" and "\<forall>w\<in>set ws. write_ok w"
    and "length ukey + 8 < 2 ^ 32" and "s \<le> kMaxSequenceNumber"
  shows "\<exists>m. add_all BytewiseComparator ws MemTable = Some m \<and>
    MemTable_Get BytewiseComparator ukey s m = Some (visible ws ukey s)"
proof -
  have "represents (KeyComparator BytewiseComparator) entry_ok (table MemTable) []"
    unfolding MemTable_def by (simp add: represents_new)
  from add_all_represents [OF this, of "[]" ws] assms(1,2) obtain m ks where
    "add_all BytewiseComparator ws MemTable = Some m"
    "represents (KeyComparator BytewiseComparator) entry_ok (table m) ks" "set ks = entry_of ` set ws" by auto
  with MemTable_Get_visible [OF this(2,3) assms(2,1,3,4)] show ?thesis by blast
qed

definition example_writes :: "mem_write list" where
  "example_writes =
     [\<lparr>w_seq = 1, w_type = kTypeValue, w_key = str ''b'', w_value = str ''x''\<rparr>,
      \<lparr>w_seq = 2, w_type = kTypeValue, w_key = str ''a'', w_value = str ''y''\<rparr>,
      \<lparr>w_seq = 3, w_type = kTypeDeletion, w_key = str ''b'', w_value = []\<rparr>]"

lemma example_writes_ok: "distinct (map w_seq example_writes)" "\<forall>w\<in>set example_writes. write_ok w"
  by (simp_all add: example_writes_def write_ok_def kMaxSequenceNumber_def)

theorem skip_list_refines_sorted_list_witness:
  "\<exists>s'. Insert (KeyComparator BytewiseComparator) (entry_of (hd example_writes)) (SkipList []) = Some s' \<and>
    represents (KeyComparator BytewiseComparator) entry_ok s' [entry_of (hd example_writes)]"
proof -
  have "write_ok (hd example_writes)" using example_writes_ok(2) by (simp add: example_writes_def)
  from skip_list_refines_sorted_list [OF represents_new entry_of_ok [OF this] entry_of_ok [OF this], of "[]"] show ?thesis
    by (simp add: sorted_insert_def)
qed

theorem memtable_get_witness:
  "\<exists>m. add_all BytewiseComparator example_writes MemTable = Some m \<and>
    MemTable_Get BytewiseComparator (str ''b'') 2 m = Some (FoundValue (str ''x'')) \<and>
    MemTable_Get BytewiseComparator (str ''b'') 3 m = Some FoundDeletion"
proof -
  have "visible example_writes (str ''b'') 2 = FoundValue (str ''x'')"
    "visible example_writes (str ''b'') 3 = FoundDeletion" by (simp_all add: example_writes_def visible_def)
  with memtable_get [OF example_writes_ok, of "str ''b''" 2] memtable_get [OF example_writes_ok, of "str ''b''" 3]
  show ?thesis by (auto simp: kMaxSequenceNumber_def)
qed

end
