(* ===== verification/Ldb_Env.thy ===== *)
theory Ldb_Env
  imports Ldb_Coding Std_Map "HOL-Library.List_Lexorder"
begin

text \<open>
  The environment of LevelDB: statuses (\<open>include/leveldb/status.h\<close>, \<open>util/status.cc\<close>), the interfaces of files
  (\<open>include/leveldb/env.h\<close>), and the environment in memory (\<open>helpers/memenv/memenv.cc\<close>) with its files of
  blocks, its handles and its directory. The locales \<open>append_file\<close> and \<open>stream_file\<close> hold what the clients
  of a file rely on; the environment in memory meets them.

  A pointer to a \<open>FileState\<close> is an index into the list of all states; reference counts are left out, so a state
  that nothing refers to stays in the list. Sizes and positions are natural numbers, and a block has the content 0
  before it is written, where C++ leaves it uninitialised.
\<close>

section \<open>Statuses\<close>

datatype status = OK | NotFound bytes | Corruption bytes | NotSupported bytes | InvalidArgument bytes | IOError bytes

text \<open>The message that the constructor of a status makes from its two arguments.\<close>

definition status_msg :: "bytes \<Rightarrow> bytes \<Rightarrow> bytes" where
  "status_msg msg msg2 = msg @ (if msg2 \<noteq> [] then str '': '' @ msg2 else [])"

fun status_ToString :: "status \<Rightarrow> bytes" where
  "status_ToString OK = str ''OK''"
| "status_ToString (NotFound msg) = str ''NotFound: '' @ msg"
| "status_ToString (Corruption msg) = str ''Corruption: '' @ msg"
| "status_ToString (NotSupported msg) = str ''Not implemented: '' @ msg"
| "status_ToString (InvalidArgument msg) = str ''Invalid argument: '' @ msg"
| "status_ToString (IOError msg) = str ''IO error: '' @ msg"

section \<open>The interfaces of files\<close>

record 'f writable_file =
  wf_Append :: "bytes \<Rightarrow> 'f \<Rightarrow> status \<times> 'f"
  wf_Flush :: "'f \<Rightarrow> status \<times> 'f"
  wf_Sync :: "'f \<Rightarrow> status \<times> 'f"
  wf_Close :: "'f \<Rightarrow> status \<times> 'f"

record 'f sequential_file =
  sf_Read :: "nat \<Rightarrow> 'f \<Rightarrow> status \<times> bytes \<times> 'f"
  sf_Skip :: "nat \<Rightarrow> 'f \<Rightarrow> status \<times> 'f"

section \<open>Files in memory\<close>

definition FileState_kBlockSize :: nat where
  "FileState_kBlockSize = 8 * 1024"

record file_state =
  blocks :: "bytes list"
  file_size :: nat

definition FileState :: file_state where
  "FileState = \<lparr>blocks = [], file_size = 0\<rparr>"

definition memcpy :: "bytes \<Rightarrow> nat \<Rightarrow> bytes \<Rightarrow> bytes" where
  "memcpy dst off src = take off dst @ src @ drop (off + length src) dst"

text \<open>
  The loop of \<open>FileState::Read\<close> that copies from several blocks. An offset is always inside of a block; the
  test of it makes the function total.
\<close>

function read_blocks :: "bytes list \<Rightarrow> nat \<Rightarrow> nat \<Rightarrow> nat \<Rightarrow> bytes" where
  "read_blocks bs block block_offset bytes_to_copy =
     (if bytes_to_copy > 0 \<and> block_offset < FileState_kBlockSize then
        let avail = FileState_kBlockSize - block_offset;
            avail = (if avail > bytes_to_copy then bytes_to_copy else avail)
        in take avail (drop block_offset (bs ! block)) @ read_blocks bs (block + 1) 0 (bytes_to_copy - avail)
      else [])"
  by pat_completeness auto
termination
  by (relation "measure (\<lambda>(bs, block, off, n). n)") (auto simp: Let_def)

declare read_blocks.simps [simp del]

definition FileState_Read :: "nat \<Rightarrow> nat \<Rightarrow> file_state \<Rightarrow> status \<times> bytes" where
  "FileState_Read off n f =
     (if off > file_size f then (IOError (str ''Offset greater than file size.''), [])
      else
        let available = file_size f - off;
            n = (if n > available then available else n);
            block = off div FileState_kBlockSize;
            block_offset = off mod FileState_kBlockSize
        in if n = 0 then (OK, [])
           else if n \<le> FileState_kBlockSize - block_offset
           then (OK, take n (drop block_offset (blocks f ! block)))
           else (OK, read_blocks (blocks f) block block_offset n))"

function FileState_Append :: "bytes \<Rightarrow> file_state \<Rightarrow> file_state" where
  "FileState_Append src f =
     (if src \<noteq> [] then
        let off = file_size f mod FileState_kBlockSize;
            bs = (if off \<noteq> 0 then blocks f else blocks f @ [replicate FileState_kBlockSize 0]);
            avail = (if off \<noteq> 0 then FileState_kBlockSize - off else FileState_kBlockSize);
            avail = (if avail > length src then length src else avail)
        in FileState_Append (drop avail src)
             (f\<lparr>blocks := butlast bs @ [memcpy (last bs) off (take avail src)], file_size := file_size f + avail\<rparr>)
      else f)"
  by pat_completeness auto
termination
  by (relation "measure (\<lambda>(src, f). length src)") (auto simp: Let_def FileState_kBlockSize_def)

declare FileState_Append.simps [simp del]

section \<open>The environment in memory\<close>

record mem_env =
  file_states :: "file_state list"
  file_map :: "(bytes, nat option) std_map"

definition file_at :: "nat \<Rightarrow> mem_env \<Rightarrow> file_state" where
  "file_at a e = file_states e ! a"

text \<open>The handles on the state at an address.\<close>

definition WritableFileImpl :: "nat \<Rightarrow> mem_env writable_file" where
  "WritableFileImpl a =
     \<lparr>wf_Append = (\<lambda>data e. (OK, e\<lparr>file_states := (file_states e)[a := FileState_Append data (file_at a e)]\<rparr>)),
      wf_Flush = (\<lambda>e. (OK, e)), wf_Sync = (\<lambda>e. (OK, e)), wf_Close = (\<lambda>e. (OK, e))\<rparr>"

definition SequentialFile_Read :: "nat \<Rightarrow> nat \<Rightarrow> mem_env \<times> nat \<Rightarrow> status \<times> bytes \<times> mem_env \<times> nat" where
  "SequentialFile_Read a n s =
     (let (e, pos) = s; (st, result) = FileState_Read pos n (file_at a e)
      in (st, result, e, if st = OK then pos + length result else pos))"

definition SequentialFile_Skip :: "nat \<Rightarrow> nat \<Rightarrow> mem_env \<times> nat \<Rightarrow> status \<times> mem_env \<times> nat" where
  "SequentialFile_Skip a n s =
     (let (e, pos) = s
      in if pos > file_size (file_at a e) then (IOError (str ''pos_ > file_->Size()''), e, pos)
         else let available = file_size (file_at a e) - pos
              in (OK, e, pos + (if n > available then available else n)))"

definition SequentialFileImpl :: "nat \<Rightarrow> (mem_env \<times> nat) sequential_file" where
  "SequentialFileImpl a = \<lparr>sf_Read = SequentialFile_Read a, sf_Skip = SequentialFile_Skip a\<rparr>"

text \<open>
  The directory. A new handle is the address of its state; \<open>None\<close> is the null pointer, which an entry can
  hold and whose use is undefined in C++.
\<close>

definition InMemoryEnv :: mem_env where
  "InMemoryEnv = \<lparr>file_states = [], file_map = []\<rparr>"

definition not_found :: "bytes \<Rightarrow> status" where
  "not_found fname = IOError (status_msg fname (str ''File not found''))"

definition NewSequentialFile :: "bytes \<Rightarrow> mem_env \<Rightarrow> status \<times> nat option" where
  "NewSequentialFile fname e =
     (case map_find (file_map e) fname of None \<Rightarrow> (not_found fname, None) | Some p \<Rightarrow> (OK, p))"

definition NewRandomAccessFile :: "bytes \<Rightarrow> mem_env \<Rightarrow> status \<times> nat option" where
  "NewRandomAccessFile fname e =
     (case map_find (file_map e) fname of None \<Rightarrow> (not_found fname, None) | Some p \<Rightarrow> (OK, p))"

definition DeleteFileInternal :: "bytes \<Rightarrow> mem_env \<Rightarrow> mem_env" where
  "DeleteFileInternal fname e =
     (if map_find (file_map e) fname = None then e else e\<lparr>file_map := map_erase fname (file_map e)\<rparr>)"

definition NewWritableFile :: "bytes \<Rightarrow> mem_env \<Rightarrow> status \<times> nat \<times> mem_env" where
  "NewWritableFile fname e =
     (let e = (if map_find (file_map e) fname \<noteq> None then DeleteFileInternal fname e else e);
          a = length (file_states e)
      in (OK, a, e\<lparr>file_states := file_states e @ [FileState], file_map := map_put fname (Some a) (file_map e)\<rparr>))"

text \<open>\<open>file_map_[fname]\<close> inserts a null pointer when there is no entry, and the new state is not stored there.\<close>

definition NewAppendableFile :: "bytes \<Rightarrow> mem_env \<Rightarrow> status \<times> nat \<times> mem_env" where
  "NewAppendableFile fname e =
     (let e = (if map_find (file_map e) fname = None then e\<lparr>file_map := map_put fname None (file_map e)\<rparr> else e)
      in case map_find (file_map e) fname of
           Some (Some a) \<Rightarrow> (OK, a, e)
         | _ \<Rightarrow> (OK, length (file_states e), e\<lparr>file_states := file_states e @ [FileState]\<rparr>))"

definition FileExists :: "bytes \<Rightarrow> mem_env \<Rightarrow> bool" where
  "FileExists fname e \<longleftrightarrow> map_find (file_map e) fname \<noteq> None"

definition GetChildren :: "bytes \<Rightarrow> mem_env \<Rightarrow> bytes list" where
  "GetChildren dir e =
     [drop (length dir + 1) fname. (fname, _) \<leftarrow> file_map e,
      length fname \<ge> length dir + 1 \<and> fname ! length dir = of_char (CHR ''/'') \<and> take (length dir) fname = dir]"

definition env_DeleteFile :: "bytes \<Rightarrow> mem_env \<Rightarrow> status \<times> mem_env" where
  "env_DeleteFile fname e =
     (if map_find (file_map e) fname = None then (not_found fname, e) else (OK, DeleteFileInternal fname e))"

definition GetFileSize :: "bytes \<Rightarrow> mem_env \<Rightarrow> status \<times> nat option" where
  "GetFileSize fname e =
     (case map_find (file_map e) fname of
        None \<Rightarrow> (not_found fname, None)
      | Some p \<Rightarrow> (OK, map_option (\<lambda>a. file_size (file_at a e)) p))"

text \<open>\<open>file_map_[src]\<close> inserts a null pointer when the deletion of \<open>target\<close> removed it.\<close>

definition env_RenameFile :: "bytes \<Rightarrow> bytes \<Rightarrow> mem_env \<Rightarrow> status \<times> mem_env" where
  "env_RenameFile src target e =
     (if map_find (file_map e) src = None then (not_found src, e)
      else
        let e = DeleteFileInternal target e;
            p = (case map_find (file_map e) src of None \<Rightarrow> None | Some p \<Rightarrow> p)
        in (OK, e\<lparr>file_map := map_erase src (map_put target p (file_map e))\<rparr>))"

section \<open>Files are sequences of bytes\<close>

definition contents :: "file_state \<Rightarrow> bytes" where
  "contents f = take (file_size f) (concat (blocks f))"

definition file_ok :: "file_state \<Rightarrow> bool" where
  "file_ok f \<longleftrightarrow> (\<forall>b\<in>set (blocks f). length b = FileState_kBlockSize) \<and>
     file_size f \<le> FileState_kBlockSize * length (blocks f) \<and>
     FileState_kBlockSize * length (blocks f) < file_size f + FileState_kBlockSize"

lemma FileState_ok: "file_ok FileState" "contents FileState = []"
  by (simp_all add: file_ok_def contents_def FileState_def FileState_kBlockSize_def)

lemma length_concat_blocks: "\<forall>b\<in>set bs. length b = k \<Longrightarrow> length (concat bs) = k * length bs"
  by (induction bs) simp_all

lemma length_contents: "file_ok f \<Longrightarrow> length (contents f) = file_size f"
  using length_concat_blocks [of "blocks f" FileState_kBlockSize] by (simp add: contents_def file_ok_def)

lemma drop_concat_blocks:
  "\<forall>b\<in>set bs. length b = k \<Longrightarrow> i < length bs \<Longrightarrow> off \<le> k \<Longrightarrow>
    drop (k * i + off) (concat bs) = drop off (bs ! i) @ concat (drop (Suc i) bs)"
  by (induction bs arbitrary: i) (auto simp: nth_Cons split: nat.splits)

lemma drop_concat_all: "\<forall>b\<in>set bs. length b = k \<Longrightarrow> drop (k * i) (concat bs) = concat (drop i bs)"
proof (induction bs arbitrary: i)
  case (Cons b bs)
  then show ?case by (cases i) auto
qed simp

lemma read_blocks_concat:
  fixes k defines "k \<equiv> FileState_kBlockSize"
  assumes "\<forall>b\<in>set bs. length b = k" and "off < k" and "k * i + off + n \<le> k * length bs"
  shows "read_blocks bs i off n = take n (drop (k * i + off) (concat bs))"
  using assms(2-)
proof (induction bs i off n rule: read_blocks.induct)
  case (1 bs i off n)
  show ?case
  proof (cases "n = 0")
    case True
    then show ?thesis by (simp add: read_blocks.simps)
  next
    case False
    define avail where "avail = (if k - off > n then n else k - off)"
    have "0 < k" by (simp add: k_def FileState_kBlockSize_def)
    have "k * i < k * length bs" using False 1(4) by linarith
    then have i: "i < length bs" by simp
    then have "k * Suc i \<le> k * length bs" by (intro mult_le_mono2) simp
    with 1(4) have "k * Suc i + 0 + (n - avail) \<le> k * length bs" by (auto simp: avail_def)
    then have "read_blocks bs (i + 1) 0 (n - avail) = take (n - avail) (drop (k * (i + 1)) (concat bs))"
      using 1(1)[of "k - off" avail] 1(2,3) False \<open>0 < k\<close> unfolding avail_def k_def by simp
    moreover have "read_blocks bs i off n =
        take avail (drop off (bs ! i)) @ read_blocks bs (i + 1) 0 (n - avail)"
      using False 1(3) by (subst read_blocks.simps) (simp add: avail_def k_def Let_def)
    moreover have "length (bs ! i) = k" using 1(2) i by simp
    ultimately show ?thesis
      using drop_concat_blocks [OF 1(2) i, of off] drop_concat_all [OF 1(2), of "Suc i"] 1(3)
      by (auto simp: avail_def)
  qed
qed

lemma FileState_Read_contents:
  assumes "file_ok f" and "off \<le> file_size f"
  shows "FileState_Read off n f = (OK, take n (drop off (contents f)))"
proof -
  define k where "k = FileState_kBlockSize"
  define i where "i = off div k"
  define j where "j = off mod k"
  define m where "m = (if n > file_size f - off then file_size f - off else n)"
  have blocks: "\<forall>b\<in>set (blocks f). length b = k" and size: "file_size f \<le> k * length (blocks f)"
    using assms(1) by (auto simp: file_ok_def k_def)
  have "0 < k" by (simp add: k_def FileState_kBlockSize_def)
  have off: "off = k * i + j" "j < k" by (simp_all add: i_def j_def \<open>0 < k\<close>)
  have m: "k * i + j + m \<le> k * length (blocks f)" using size assms(2) off by (auto simp: m_def)
  have rest: "take n (drop off (contents f)) = take m (drop off (concat (blocks f)))"
    using assms(2) by (simp add: contents_def m_def drop_take min_def)
  show ?thesis
  proof (cases "m = 0")
    case True
    then show ?thesis using rest assms(2)
      by (simp add: FileState_Read_def Let_def flip: m_def)
  next
    case False
    have "k * i < k * length (blocks f)" using m False by linarith
    then have "i < length (blocks f)" by simp
    then have "m \<le> k - j \<Longrightarrow> take m (drop off (concat (blocks f))) = take m (drop j (blocks f ! i))"
      using drop_concat_blocks [OF blocks, of i j] off blocks by simp
    moreover have "read_blocks (blocks f) i j m = take m (drop off (concat (blocks f)))"
      using read_blocks_concat [of "blocks f" j i m] blocks off m unfolding k_def by simp
    ultimately show ?thesis using rest assms(2) False
      unfolding FileState_Read_def by (simp add: Let_def flip: m_def k_def i_def j_def)
  qed
qed

lemma append_block:
  assumes "\<forall>b\<in>set B. length b = FileState_kBlockSize" and "length L = FileState_kBlockSize"
    and "file_size f = FileState_kBlockSize * length B + off" and "contents f = concat B @ take off L"
    and "off + length d \<le> FileState_kBlockSize" and "d \<noteq> []"
  shows "file_ok (f\<lparr>blocks := B @ [memcpy L off d], file_size := file_size f + length d\<rparr>)"
    and "contents (f\<lparr>blocks := B @ [memcpy L off d], file_size := file_size f + length d\<rparr>) = contents f @ d"
proof -
  have "length (memcpy L off d) = FileState_kBlockSize" using assms(2,5) by (simp add: memcpy_def)
  with assms show "file_ok (f\<lparr>blocks := B @ [memcpy L off d], file_size := file_size f + length d\<rparr>)"
    by (auto simp: file_ok_def)
  show "contents (f\<lparr>blocks := B @ [memcpy L off d], file_size := file_size f + length d\<rparr>) = contents f @ d"
    using assms length_concat_blocks [OF assms(1)] by (simp add: contents_def memcpy_def)
qed

lemma last_block:
  fixes f defines "k \<equiv> FileState_kBlockSize"
  assumes "file_ok f" and "bs = (if file_size f mod k \<noteq> 0 then blocks f else blocks f @ [replicate k 0])"
  shows "\<forall>b\<in>set (butlast bs). length b = k" and "length (last bs) = k"
    and "file_size f = k * length (butlast bs) + file_size f mod k"
    and "contents f = concat (butlast bs) @ take (file_size f mod k) (last bs)"
proof -
  define off where "off = file_size f mod k"
  define q where "q = file_size f div k"
  have "0 < k" by (simp add: k_def FileState_kBlockSize_def)
  have size: "file_size f = k * q + off" by (simp add: q_def off_def)
  have off: "off < k" using \<open>0 < k\<close> by (simp add: off_def)
  have blocks: "\<forall>b\<in>set (blocks f). length b = k" "k * q + off \<le> k * length (blocks f)"
    "k * length (blocks f) < k * q + off + k" using assms(2) size by (auto simp: file_ok_def k_def)
  have len: "length (blocks f) = (if off \<noteq> 0 then q + 1 else q)"
  proof -
    have "k * length (blocks f) < k * (q + 2)" using blocks(3) off by (simp add: algebra_simps)
    then have "length (blocks f) < q + 2" by (simp only: mult_less_cancel1)
    moreover have "length (blocks f) < q + 1" if "off = 0"
    proof -
      have "k * length (blocks f) < k * (q + 1)" using blocks(3) that by (simp add: algebra_simps)
      then show ?thesis by (simp only: mult_less_cancel1)
    qed
    moreover have "q < length (blocks f)" if "off \<noteq> 0"
    proof -
      have "k * q < k * length (blocks f)" using blocks(2) that by linarith
      then show ?thesis by (simp only: mult_less_cancel1)
    qed
    moreover have "k * q \<le> k * length (blocks f)" using blocks(2) by linarith
    then have "q \<le> length (blocks f)" using \<open>0 < k\<close> by simp
    ultimately show ?thesis by auto
  qed
  have alt: "bs = (if off \<noteq> 0 then blocks f else blocks f @ [replicate k 0])" unfolding off_def by (rule assms(3))
  have ne: "bs \<noteq> []" and bs: "\<forall>b\<in>set bs. length b = k" and q: "length (butlast bs) = q"
    using len blocks(1) alt by (auto split: if_splits)
  then have split: "bs = butlast bs @ [last bs]" by simp
  show 1: "\<forall>b\<in>set (butlast bs). length b = k" using bs by (auto dest: in_set_butlastD)
  show "length (last bs) = k" using bs ne by simp
  show "file_size f = k * length (butlast bs) + file_size f mod k" using size q by (simp add: off_def)
  have "contents f = take (k * q + off) (concat bs)"
    using size alt len length_concat_blocks [OF blocks(1)] by (auto simp: contents_def)
  also have "\<dots> = take (k * q + off) (concat (butlast bs) @ last bs)" by (subst split) simp
  finally show "contents f = concat (butlast bs) @ take (file_size f mod k) (last bs)"
    using length_concat_blocks [OF 1] q by (simp add: off_def)
qed

lemma FileState_Append_contents:
  "file_ok f \<Longrightarrow> file_ok (FileState_Append src f) \<and> contents (FileState_Append src f) = contents f @ src"
proof (induction src f rule: FileState_Append.induct)
  case (1 src f)
  show ?case
  proof (cases "src = []")
    case False
    define off where "off = file_size f mod FileState_kBlockSize"
    define bs where "bs = (if off \<noteq> 0 then blocks f else blocks f @ [replicate FileState_kBlockSize 0])"
    define room where "room = (if off \<noteq> 0 then FileState_kBlockSize - off else FileState_kBlockSize)"
    define avail where "avail = (if room > length src then length src else room)"
    define f' where "f' = f\<lparr>blocks := butlast bs @ [memcpy (last bs) off (take avail src)], file_size := file_size f + avail\<rparr>"
    have step: "FileState_Append src f = FileState_Append (drop avail src) f'"
      using False by (subst FileState_Append.simps)
        (simp add: Let_def f'_def avail_def room_def bs_def off_def)
    have "off < FileState_kBlockSize" by (simp add: off_def FileState_kBlockSize_def)
    then have "off + length (take avail src) \<le> FileState_kBlockSize" "take avail src \<noteq> []" "length (take avail src) = avail"
      using False by (auto simp: avail_def room_def)
    note d = this
    have bs: "bs = (if file_size f mod FileState_kBlockSize \<noteq> 0 then blocks f
        else blocks f @ [replicate FileState_kBlockSize 0])" by (simp only: bs_def off_def)
    note lb = last_block [OF 1(2) bs, folded off_def]
    have f': "f' = f\<lparr>blocks := butlast bs @ [memcpy (last bs) off (take avail src)],
        file_size := file_size f + length (take avail src)\<rparr>" by (simp only: f'_def d(3))
    have "file_ok f'" "contents f' = contents f @ take avail src"
      unfolding f' by (rule append_block [OF lb d(1,2)])+
    moreover have "file_ok f' \<Longrightarrow> file_ok (FileState_Append (drop avail src) f') \<and>
        contents (FileState_Append (drop avail src) f') = contents f' @ drop avail src"
      using 1(1) [OF False refl refl refl refl] unfolding f'_def avail_def room_def bs_def off_def .
    ultimately show ?thesis by (simp add: step)
  qed (use 1(2) in \<open>simp add: FileState_Append.simps\<close>)
qed

section \<open>What clients rely on\<close>

text \<open>A file that grows at its end.\<close>

locale append_file =
  fixes F :: "'f writable_file" and written :: "'f \<Rightarrow> bytes" and writable :: "'f \<Rightarrow> bool"
  assumes Append: "writable f \<Longrightarrow>
      \<exists>f'. wf_Append F data f = (OK, f') \<and> writable f' \<and> written f' = written f @ data"
    and Flush: "writable f \<Longrightarrow> \<exists>f'. wf_Flush F f = (OK, f') \<and> writable f' \<and> written f' = written f"

text \<open>A file that is read from its start to its end.\<close>

locale stream_file =
  fixes F :: "'f sequential_file" and rest :: "'f \<Rightarrow> bytes" and readable :: "'f \<Rightarrow> bool"
  assumes Read: "readable f \<Longrightarrow>
      \<exists>f'. sf_Read F n f = (OK, take n (rest f), f') \<and> readable f' \<and> rest f' = drop n (rest f)"
    and Skip: "readable f \<Longrightarrow> \<exists>f'. sf_Skip F n f = (OK, f') \<and> readable f' \<and> rest f' = drop n (rest f)"

definition mem_written :: "nat \<Rightarrow> mem_env \<Rightarrow> bytes" where
  "mem_written a e = contents (file_at a e)"

definition mem_writable :: "nat \<Rightarrow> mem_env \<Rightarrow> bool" where
  "mem_writable a e \<longleftrightarrow> a < length (file_states e) \<and> file_ok (file_at a e)"

definition mem_rest :: "nat \<Rightarrow> mem_env \<times> nat \<Rightarrow> bytes" where
  "mem_rest a s = drop (snd s) (contents (file_at a (fst s)))"

definition mem_readable :: "nat \<Rightarrow> mem_env \<times> nat \<Rightarrow> bool" where
  "mem_readable a s \<longleftrightarrow> file_ok (file_at a (fst s)) \<and> snd s \<le> file_size (file_at a (fst s))"

interpretation mem_write: append_file "WritableFileImpl a" "mem_written a" "mem_writable a" for a
  by unfold_locales (auto simp: WritableFileImpl_def mem_writable_def mem_written_def file_at_def
      FileState_Append_contents)

interpretation mem_read: stream_file "SequentialFileImpl a" "mem_rest a" "mem_readable a" for a
proof
  fix n and f :: "mem_env \<times> nat"
  assume ok: "mem_readable a f"
  obtain e pos where f: "f = (e, pos)" by (cases f)
  from ok have e: "file_ok (file_at a e)" "pos \<le> file_size (file_at a e)" by (simp_all add: f mem_readable_def)
  note len = length_contents [OF e(1)]
  show "\<exists>f'. sf_Read (SequentialFileImpl a) n f = (OK, take n (mem_rest a f), f') \<and> mem_readable a f' \<and>
      mem_rest a f' = drop n (mem_rest a f)"
    using e len by (auto simp: f SequentialFileImpl_def SequentialFile_Read_def mem_readable_def mem_rest_def
        FileState_Read_contents min_def add.commute)
  show "\<exists>f'. sf_Skip (SequentialFileImpl a) n f = (OK, f') \<and> mem_readable a f' \<and>
      mem_rest a f' = drop n (mem_rest a f)"
    using e len by (auto simp: f SequentialFileImpl_def SequentialFile_Skip_def mem_readable_def mem_rest_def
        Let_def add.commute)
qed

section \<open>The directory\<close>

lemma NewWritableFile_found:
  assumes "NewWritableFile fname e = (st, a, e')"
  shows "st = OK" and "map_find (file_map e') fname = Some (Some a)" and "file_at a e' = FileState"
    and "a < length (file_states e')"
proof -
  have "map_find (map_put fname (Some b) m) fname = Some (Some b)" for b and m :: "(bytes, nat option) std_map"
    using std_map.lookup_insert [of fname "Some b" m fname] by simp
  with assms show "st = OK" "map_find (file_map e') fname = Some (Some a)" "file_at a e' = FileState"
    "a < length (file_states e')"
    by (auto simp: NewWritableFile_def Let_def file_at_def)
qed

text \<open>Opening a missing file for appending leaves a null pointer in the directory: nothing that is appended can be read.\<close>

lemma appendable_file_lost:
  assumes "\<not> FileExists fname e" and "NewAppendableFile fname e = (st, a, e')"
  shows "st = OK \<and> FileExists fname e' \<and> NewSequentialFile fname e' = (OK, None)"
proof -
  have "map_find (map_put fname None (file_map e)) fname = Some None"
    using std_map.lookup_insert [of fname None "file_map e" fname] by simp
  with assms show ?thesis
    by (auto simp: NewAppendableFile_def NewSequentialFile_def FileExists_def Let_def)
qed

text \<open>Renaming a file to its own name deletes it.\<close>

lemma rename_to_itself_deletes:
  assumes "FileExists fname e"
  shows "\<exists>e'. env_RenameFile fname fname e = (OK, e') \<and> \<not> FileExists fname e'"
  using assms std_map.lookup_erase [of fname _ fname]
  by (auto simp: env_RenameFile_def FileExists_def Let_def)

section \<open>Properties\<close>

text \<open>
  C34: a file of the environment in memory, stored in blocks, is a sequence of bytes: whatever pieces are appended to a
  new file, a read at any offset returns the bytes that were written there, and an offset past the end is an error.
\<close>

theorem mem_file_is_bytes:
  "(\<forall>off n. off \<le> length (concat ds) \<longrightarrow>
      FileState_Read off n (fold FileState_Append ds FileState) = (OK, take n (drop off (concat ds)))) \<and>
   (\<forall>off n. length (concat ds) < off \<longrightarrow>
      FileState_Read off n (fold FileState_Append ds FileState) =
        (IOError (str ''Offset greater than file size.''), []))"
proof -
  have "file_ok f \<Longrightarrow> file_ok (fold FileState_Append ds f) \<and>
      contents (fold FileState_Append ds f) = contents f @ concat ds" for f
    by (induction ds arbitrary: f) (simp_all add: FileState_Append_contents)
  from this [of FileState] have ok: "file_ok (fold FileState_Append ds FileState)"
    and "contents (fold FileState_Append ds FileState) = concat ds" by (simp_all add: FileState_ok)
  moreover from this have "file_size (fold FileState_Append ds FileState) = length (concat ds)"
    using length_contents [OF ok] by simp
  ultimately show ?thesis
    by (simp add: FileState_Read_contents) (simp add: FileState_Read_def)
qed

theorem mem_file_is_bytes_witness:
  "FileState_Read 1 3 (fold FileState_Append [[1, 2], [], [3, 4, 5]] FileState) = (OK, [2, 3, 4])"
  using mem_file_is_bytes [of "[[1, 2], [], [3, 4, 5]]"] by (auto dest!: conjunct1 spec [where x = 1] spec [where x = 3])

end
