(* ===== verification/Ldb_Batch.thy ===== *)
theory Ldb_Batch
  imports Ldb_Memtable Ldb_Env
begin

text \<open>
  LevelDB's write batches (\<^verbatim>\<open>src/unifyframework/leveldb-master/db/write_batch.cc\<close>): updates that are logged and applied together.

  A batch is the string \<open>rep_\<close>. \<open>Iterate\<close> calls a handler for every update; the state of the handler is passed
  along, and \<open>None\<close> means that a call does not return. The assertions on the size of a batch are left out.
\<close>

section \<open>Status\<close>

section \<open>The header\<close>

definition kHeader :: nat where
  "kHeader = 12"

definition WriteBatch_Clear :: bytes where
  "WriteBatch_Clear = replicate kHeader 0"

definition Count :: "bytes \<Rightarrow> u32" where
  "Count rep = DecodeFixed32 (drop 8 rep)"

definition SetCount :: "u32 \<Rightarrow> bytes \<Rightarrow> bytes" where
  "SetCount n rep = take 8 rep @ EncodeFixed32 n @ drop 12 rep"

definition Sequence :: "bytes \<Rightarrow> u64" where
  "Sequence rep = DecodeFixed64 rep"

definition SetSequence :: "u64 \<Rightarrow> bytes \<Rightarrow> bytes" where
  "SetSequence seq rep = EncodeFixed64 seq @ drop 8 rep"

definition SetContents :: "bytes \<Rightarrow> bytes" where
  "SetContents cont = cont"

definition batch_Append :: "bytes \<Rightarrow> bytes \<Rightarrow> bytes" where
  "batch_Append dst src = SetCount (Count dst + Count src) dst @ drop kHeader src"

section \<open>Updates\<close>

definition WriteBatch_Put :: "bytes \<Rightarrow> bytes \<Rightarrow> bytes \<Rightarrow> bytes" where
  "WriteBatch_Put key value rep =
     PutLengthPrefixedSlice
       (PutLengthPrefixedSlice (SetCount (Count rep + 1) rep @ [ucast (type_code kTypeValue)]) key) value"

definition WriteBatch_Delete :: "bytes \<Rightarrow> bytes \<Rightarrow> bytes" where
  "WriteBatch_Delete key rep =
     PutLengthPrefixedSlice (SetCount (Count rep + 1) rep @ [ucast (type_code kTypeDeletion)]) key"

section \<open>Iteration\<close>

record 's handler =
  handler_Put :: "bytes \<Rightarrow> bytes \<Rightarrow> 's \<Rightarrow> 's option"
  handler_Delete :: "bytes \<Rightarrow> 's \<Rightarrow> 's option"

lemma varint32_loop_shorter: "varint32_loop s r p = Some (v, p') \<Longrightarrow> length p' < length p"
  by (induction s r p rule: varint32_loop.induct) (auto simp: Let_def split: if_splits)

lemma GetLengthPrefixedSlice_shorter:
  "GetLengthPrefixedSlice input = Some (v, input') \<Longrightarrow> length input' < length input"
  by (auto simp: GetLengthPrefixedSlice_def GetVarint32_def GetVarint32Ptr_loop dest!: varint32_loop_shorter
      split: option.splits if_splits)

function iterate_loop :: "'s handler \<Rightarrow> bytes \<Rightarrow> nat \<Rightarrow> 's \<Rightarrow> (status \<times> nat \<times> 's) option" where
  "iterate_loop h [] found st = Some (OK, found, st)"
| "iterate_loop h (tag # input) found st =
     (if tag = ucast (type_code kTypeValue) then
        (case GetLengthPrefixedSlice input of
           None \<Rightarrow> Some (Corruption (str ''bad WriteBatch Put''), found + 1, st)
         | Some (key, input1) \<Rightarrow>
             (case GetLengthPrefixedSlice input1 of
                None \<Rightarrow> Some (Corruption (str ''bad WriteBatch Put''), found + 1, st)
              | Some (val, input2) \<Rightarrow>
                  (case handler_Put h key val st of
                     None \<Rightarrow> None
                   | Some st' \<Rightarrow> iterate_loop h input2 (found + 1) st')))
      else if tag = ucast (type_code kTypeDeletion) then
        (case GetLengthPrefixedSlice input of
           None \<Rightarrow> Some (Corruption (str ''bad WriteBatch Delete''), found + 1, st)
         | Some (key, input1) \<Rightarrow>
             (case handler_Delete h key st of
                None \<Rightarrow> None
              | Some st' \<Rightarrow> iterate_loop h input1 (found + 1) st'))
      else Some (Corruption (str ''unknown WriteBatch tag''), found + 1, st))"
  by pat_completeness auto
termination
  by (relation "measure (\<lambda>(_, input, _, _). length input)")
    (auto dest!: GetLengthPrefixedSlice_shorter)

declare iterate_loop.simps(2) [simp del]

definition Iterate :: "'s handler \<Rightarrow> bytes \<Rightarrow> 's \<Rightarrow> (status \<times> 's) option" where
  "Iterate h rep st =
     (if length rep < kHeader then Some (Corruption (str ''malformed WriteBatch (too small)''), st)
      else case iterate_loop h (drop kHeader rep) 0 st of
        None \<Rightarrow> None
      | Some (stat, found, st') \<Rightarrow>
          if stat \<noteq> OK then Some (stat, st')
          else if int found \<noteq> sint (Count rep) then Some (Corruption (str ''WriteBatch has wrong count''), st')
          else Some (OK, st'))"

section \<open>Inserting into a memtable\<close>

definition MemTableInserter :: "comparator \<Rightarrow> (u64 \<times> mem_table) handler" where
  "MemTableInserter user =
     \<lparr>handler_Put = (\<lambda>key val (seq, mem).
        map_option (Pair (seq + 1)) (MemTable_Add user seq kTypeValue key val mem)),
      handler_Delete = (\<lambda>key (seq, mem).
        map_option (Pair (seq + 1)) (MemTable_Add user seq kTypeDeletion key [] mem))\<rparr>"

definition InsertInto :: "comparator \<Rightarrow> bytes \<Rightarrow> mem_table \<Rightarrow> (status \<times> mem_table) option" where
  "InsertInto user rep mem =
     map_option (\<lambda>(stat, _, mem'). (stat, mem')) (Iterate (MemTableInserter user) rep (Sequence rep, mem))"

section \<open>The contents of a batch\<close>

datatype update = BPut bytes bytes | BDelete bytes

fun apply_update :: "update \<Rightarrow> bytes \<Rightarrow> bytes" where
  "apply_update (BPut key val) rep = WriteBatch_Put key val rep"
| "apply_update (BDelete key) rep = WriteBatch_Delete key rep"

fun update_ok :: "update \<Rightarrow> bool" where
  "update_ok (BPut key val) \<longleftrightarrow> length key + 8 < 2 ^ 32 \<and> length val < 2 ^ 32"
| "update_ok (BDelete key) \<longleftrightarrow> length key + 8 < 2 ^ 32"

fun update_bytes :: "update \<Rightarrow> bytes" where
  "update_bytes (BPut key val) = 1 # slice_bytes key @ slice_bytes val"
| "update_bytes (BDelete key) = 0 # slice_bytes key"

fun handle :: "'s handler \<Rightarrow> update \<Rightarrow> 's \<Rightarrow> 's option" where
  "handle h (BPut key val) st = handler_Put h key val st"
| "handle h (BDelete key) st = handler_Delete h key st"

fun handle_all :: "'s handler \<Rightarrow> update list \<Rightarrow> 's \<Rightarrow> 's option" where
  "handle_all h [] st = Some st"
| "handle_all h (u # us) st = (case handle h u st of None \<Rightarrow> None | Some st' \<Rightarrow> handle_all h us st')"

definition batch_bytes :: "u64 \<Rightarrow> update list \<Rightarrow> bytes" where
  "batch_bytes seq us = EncodeFixed64 seq @ EncodeFixed32 (of_nat (length us)) @ concat (map update_bytes us)"

lemma batch_header [simp]:
  "Count (batch_bytes seq us) = of_nat (length us)" "Sequence (batch_bytes seq us) = seq"
  "SetSequence seq' (batch_bytes seq us) = batch_bytes seq' us"
  by (simp_all add: batch_bytes_def Count_def Sequence_def SetSequence_def)

lemma batch_clear: "WriteBatch_Clear = batch_bytes 0 []"
  by (simp add: WriteBatch_Clear_def batch_bytes_def kHeader_def EncodeFixed64_def EncodeFixed32_def
      numeral_eq_Suc)

lemma batch_update:
  assumes "update_ok u"
  shows "apply_update u (batch_bytes seq us) = batch_bytes seq (us @ [u])"
proof -
  have count: "SetCount (Count (batch_bytes seq us) + 1) (batch_bytes seq us) =
      EncodeFixed64 seq @ EncodeFixed32 (of_nat (length (us @ [u]))) @ concat (map update_bytes us)"
    unfolding batch_header by (simp add: SetCount_def batch_bytes_def add.commute)
  show ?thesis using assms
    by (cases u) (simp_all only: apply_update.simps WriteBatch_Put_def WriteBatch_Delete_def count,
      simp_all add: PutLengthPrefixedSlice_bytes batch_bytes_def)
qed

lemma batch_updates:
  "\<forall>u\<in>set us. update_ok u \<Longrightarrow> fold apply_update us (batch_bytes seq us0) = batch_bytes seq (us0 @ us)"
  by (induction us arbitrary: us0) (simp_all add: batch_update)

lemma batch_append: "batch_Append (batch_bytes seq us) (batch_bytes seq' vs) = batch_bytes seq (us @ vs)"
  by (simp add: batch_Append_def SetCount_def batch_bytes_def kHeader_def Count_def)

lemma tags: "(ucast (type_code kTypeValue) :: byte) = 1" "(ucast (type_code kTypeDeletion) :: byte) = 0"
  by simp_all

lemma iterate_update:
  "update_ok u \<Longrightarrow> iterate_loop h (update_bytes u @ t) n st =
    (case handle h u st of None \<Rightarrow> None | Some st' \<Rightarrow> iterate_loop h t (n + 1) st')"
  by (cases u) (simp_all add: iterate_loop.simps(2) GetLengthPrefixedSlice_bytes split: option.split)

lemma iterate_updates:
  "\<forall>u\<in>set us. update_ok u \<Longrightarrow> iterate_loop h (concat (map update_bytes us)) n st =
    map_option (\<lambda>st'. (OK, n + length us, st')) (handle_all h us st)"
  by (induction us arbitrary: n st) (auto simp: iterate_update split: option.split)

lemma sint_of_nat_u32: "n < 2 ^ 31 \<Longrightarrow> sint (of_nat n :: u32) = int n"
proof -
  assume n: "n < 2 ^ 31"
  then have u: "uint (of_nat n :: u32) = int n" by (simp add: unsigned_of_nat take_bit_nat_eq_self)
  then have "uint (of_nat n :: u32) < 2 ^ 31" using n by simp
  from sint_u32_small [OF this] u show ?thesis by simp
qed

lemma Iterate_batch:
  assumes "\<forall>u\<in>set us. update_ok u" and "length us < 2 ^ 31"
  shows "Iterate h (batch_bytes seq us) st = map_option (Pair OK) (handle_all h us st)"
proof -
  have "drop kHeader (batch_bytes seq us) = concat (map update_bytes us)" "\<not> length (batch_bytes seq us) < kHeader"
    by (simp_all add: batch_bytes_def kHeader_def)
  with assms sint_of_nat_u32 [OF assms(2)] show ?thesis
    by (cases "handle_all h us st") (simp_all add: Iterate_def iterate_updates)
qed

lemma truncated_update:
  assumes "update_ok u" and "k < length (update_bytes u)" and "iterate_loop h (take k (update_bytes u)) n st = Some (stat, found, st')"
  shows "stat \<noteq> OK \<or> found = n"
proof (cases k)
  case 0
  with assms(3) show ?thesis by simp
next
  case (Suc j)
  show ?thesis
  proof (cases u)
    case (BDelete key)
    with Suc assms have "GetLengthPrefixedSlice (take j (slice_bytes key)) = None"
      by (intro GetLengthPrefixedSlice_truncated) simp_all
    with assms(3) show ?thesis by (simp add: Suc BDelete iterate_loop.simps(2)) blast
  next
    case (BPut key val)
    show ?thesis
    proof (cases "j < length (slice_bytes key)")
      case True
      with BPut assms(1) have "GetLengthPrefixedSlice (take j (slice_bytes key)) = None"
        by (intro GetLengthPrefixedSlice_truncated) simp_all
      with assms(3) True show ?thesis by (simp add: Suc BPut iterate_loop.simps(2)) blast
    next
      case False
      define i where "i = j - length (slice_bytes key)"
      have "GetLengthPrefixedSlice (take i (slice_bytes val)) = None"
        using BPut assms(1,2) Suc False by (intro GetLengthPrefixedSlice_truncated) (auto simp: i_def)
      with assms(1,3) False show ?thesis
        by (simp add: Suc BPut iterate_loop.simps(2) GetLengthPrefixedSlice_bytes flip: i_def) blast
    qed
  qed
qed

lemma truncated_updates:
  assumes "\<forall>u\<in>set us. update_ok u" and "k < length (concat (map update_bytes us))"
    and "iterate_loop h (take k (concat (map update_bytes us))) n st = Some (stat, found, st')"
  shows "stat \<noteq> OK \<or> found < n + length us"
  using assms
proof (induction us arbitrary: k n st)
  case (Cons u us)
  let ?l = "length (update_bytes u)"
  show ?case
  proof (cases "k < ?l")
    case True
    with Cons.prems truncated_update [of u k h n st stat found st'] show ?thesis by auto
  next
    case False
    then have "take k (concat (map update_bytes (u # us))) =
        update_bytes u @ take (k - ?l) (concat (map update_bytes us))" by simp
    with Cons.prems(1,3) obtain st1 where
      "iterate_loop h (take (k - ?l) (concat (map update_bytes us))) (n + 1) st1 = Some (stat, found, st')"
      by (auto simp: iterate_update split: option.splits)
    from Cons.IH [OF _ _ this] Cons.prems(1,2) False show ?thesis by auto
  qed
qed simp

lemma Iterate_truncated:
  assumes "\<forall>u\<in>set us. update_ok u" and "length us < 2 ^ 31" and "k < length (batch_bytes seq us)"
    and "Iterate h (take k (batch_bytes seq us)) st = Some (stat, st')"
  shows "stat \<noteq> OK"
proof (cases "k < kHeader")
  case True
  with assms(3,4) show ?thesis by (auto simp: Iterate_def)
next
  case False
  let ?r = "take k (batch_bytes seq us)"
  have k: "12 \<le> k" using False by (simp add: kHeader_def)
  then have r: "?r = (EncodeFixed64 seq @ EncodeFixed32 (of_nat (length us))) @
      take (k - 12) (concat (map update_bytes us))" by (simp add: batch_bytes_def)
  then have parts: "drop kHeader ?r = take (k - 12) (concat (map update_bytes us))"
    "Count ?r = of_nat (length us)" "\<not> length ?r < kHeader"
    by (simp_all add: kHeader_def Count_def)
  have less: "k - 12 < length (concat (map update_bytes us))"
    using assms(3) k by (simp add: batch_bytes_def)
  show ?thesis
  proof (cases "iterate_loop h (drop kHeader ?r) 0 st")
    case None
    with assms(4) parts(3) show ?thesis by (simp add: Iterate_def)
  next
    case (Some res)
    obtain stat' found st1 where res: "res = (stat', found, st1)" by (cases res)
    from truncated_updates [OF assms(1) less] Some res have "stat' \<noteq> OK \<or> found < length us"
      unfolding parts by fastforce
    with assms(4) Some res parts(2,3) sint_of_nat_u32 [OF assms(2)] show ?thesis
      by (auto simp: Iterate_def split: if_splits)
  qed
qed

section \<open>The writes of a batch\<close>

fun writes_of :: "u64 \<Rightarrow> update list \<Rightarrow> mem_write list" where
  "writes_of seq [] = []"
| "writes_of seq (BPut key val # us) =
     \<lparr>w_seq = seq, w_type = kTypeValue, w_key = key, w_value = val\<rparr> # writes_of (seq + 1) us"
| "writes_of seq (BDelete key # us) =
     \<lparr>w_seq = seq, w_type = kTypeDeletion, w_key = key, w_value = []\<rparr> # writes_of (seq + 1) us"

lemma inserter_adds:
  "handle_all (MemTableInserter user) us (seq, m) =
    map_option (Pair (seq + of_nat (length us))) (add_all user (writes_of seq us) m)"
  by (induction seq us arbitrary: m rule: writes_of.induct)
    (auto simp: MemTableInserter_def add.assoc split: option.split)

lemma writes_seqs: "map w_seq (writes_of seq us) = map (\<lambda>i. seq + of_nat i) [0..<length us]"
proof (induction seq us rule: writes_of.induct)
  case (2 seq key val us)
  then show ?case by (simp add: upt_conv_Cons map_Suc_upt [symmetric] comp_def add.assoc del: upt_Suc)
next
  case (3 seq key us)
  then show ?case by (simp add: upt_conv_Cons map_Suc_upt [symmetric] comp_def add.assoc del: upt_Suc)
qed simp

lemma writes_sizes:
  "\<forall>u\<in>set us. update_ok u \<Longrightarrow> w \<in> set (writes_of seq us) \<Longrightarrow>
    length (w_key w) + 8 < 2 ^ 32 \<and> length (w_value w) < 2 ^ 32"
  by (induction seq us rule: writes_of.induct) auto

lemma unat_seq_plus:
  assumes "unat seq + length us \<le> 2 ^ 56" and "i < length us"
  shows "unat (seq + of_nat i) = unat (seq :: u64) + i"
  using assms by (simp add: unat_word_ariths unat_of_nat)

lemma writes_ok:
  assumes "unat seq + length us \<le> 2 ^ 56" and "\<forall>u\<in>set us. update_ok u"
  shows "distinct (map w_seq (writes_of seq us))" and "\<forall>w\<in>set (writes_of seq us). write_ok w"
proof -
  have "inj_on (\<lambda>i. seq + of_nat i) (set [0..<length us])"
  proof (rule inj_onI)
    fix i j assume ij: "i \<in> set [0..<length us]" "j \<in> set [0..<length us]" "seq + of_nat i = seq + of_nat j"
    have i: "i < length us" and j: "j < length us" using ij(1,2) by simp_all
    from arg_cong [OF ij(3), of unat] have "unat seq + i = unat seq + j"
      unfolding unat_seq_plus [OF assms(1) i] unat_seq_plus [OF assms(1) j] .
    then show "i = j" by simp
  qed
  then show "distinct (map w_seq (writes_of seq us))" by (simp add: writes_seqs distinct_map)
  have "w_seq w \<le> kMaxSequenceNumber" if "w \<in> set (writes_of seq us)" for w
  proof -
    have "w_seq w \<in> set (map w_seq (writes_of seq us))" using that by simp
    then obtain i where i: "i < length us" "w_seq w = seq + of_nat i" unfolding writes_seqs by auto
    have "unat (w_seq w) < 2 ^ 56" unfolding i(2) unat_seq_plus [OF assms(1) i(1)] using assms(1) i(1) by linarith
    then show ?thesis by (simp add: word_le_nat_alt kMaxSequenceNumber_def)
  qed
  with writes_sizes [OF assms(2)] show "\<forall>w\<in>set (writes_of seq us). write_ok w" unfolding write_ok_def by blast
qed

lemma add_all_updates:
  assumes "\<forall>u\<in>set us. update_ok u" and "unat seq + length us \<le> 2 ^ 56"
  obtains m where "add_all BytewiseComparator (writes_of seq us) MemTable = Some m"
    and "\<And>ukey s. length ukey + 8 < 2 ^ 32 \<Longrightarrow> s \<le> kMaxSequenceNumber \<Longrightarrow>
      MemTable_Get BytewiseComparator ukey s m = Some (visible (writes_of seq us) ukey s)"
proof -
  note ok = writes_ok [OF assms(2,1)]
  have "represents (KeyComparator BytewiseComparator) entry_ok (table MemTable) []"
    unfolding MemTable_def by (simp add: represents_new)
  from add_all_represents [OF this, of "[]" "writes_of seq us"] ok obtain m ks where
    m: "add_all BytewiseComparator (writes_of seq us) MemTable = Some m"
    "represents (KeyComparator BytewiseComparator) entry_ok (table m) ks" "set ks = entry_of ` set (writes_of seq us)"
    by auto
  show ?thesis by (rule that [OF m(1) MemTable_Get_visible [OF m(2,3) ok(2,1)]])
qed

lemma InsertInto_batch:
  assumes "\<forall>u\<in>set us. update_ok u" and "length us < 2 ^ 31"
  shows "InsertInto user (batch_bytes seq us) m = map_option (Pair OK) (add_all user (writes_of seq us) m)"
  using Iterate_batch [OF assms, of "MemTableInserter user" seq "(seq, m)"]
  by (simp add: InsertInto_def inserter_adds option.map_comp comp_def)

section \<open>Properties\<close>

text \<open>
  C28: iterating over a batch calls the handler once for every update that was put into it, in their order and with their
  keys and values, and reports success; a batch that was cut short anywhere is never reported as a success.
\<close>

theorem batch_replay:
  assumes "\<forall>u\<in>set us. update_ok u" and "length us < 2 ^ 31"
  shows "Iterate h (fold apply_update us WriteBatch_Clear) st = map_option (Pair OK) (handle_all h us st) \<and>
    (\<forall>k < length (fold apply_update us WriteBatch_Clear).
      \<forall>st'. Iterate h (take k (fold apply_update us WriteBatch_Clear)) st \<noteq> Some (OK, st'))"
proof -
  have rep: "fold apply_update us WriteBatch_Clear = batch_bytes 0 us"
    using batch_updates [OF assms(1), of 0 "[]"] by (simp add: batch_clear)
  have "Iterate h (take k (batch_bytes 0 us)) st \<noteq> Some (OK, st')" if "k < length (batch_bytes 0 us)" for k st'
    using Iterate_truncated [OF assms that, of h st OK st'] by auto
  with Iterate_batch [OF assms, of h 0 st] show ?thesis unfolding rep by simp
qed

text \<open>
  Inserting a batch into a memtable succeeds, gives its updates consecutive sequence numbers from the number of
  the batch on, and makes exactly them visible: a later update of the batch hides an earlier one of the same key, and a
  snapshot before an update does not see it.
\<close>

theorem batch_insert_visible:
  assumes "\<forall>u\<in>set us. update_ok u" and "length us < 2 ^ 31" and "unat seq + length us \<le> 2 ^ 56"
    and "length ukey + 8 < 2 ^ 32" and "s \<le> kMaxSequenceNumber"
  shows "\<exists>m. InsertInto BytewiseComparator (SetSequence seq (fold apply_update us WriteBatch_Clear)) MemTable =
      Some (OK, m) \<and>
    MemTable_Get BytewiseComparator ukey s m = Some (visible (writes_of seq us) ukey s)"
proof -
  obtain m where m: "add_all BytewiseComparator (writes_of seq us) MemTable = Some m"
    "MemTable_Get BytewiseComparator ukey s m = Some (visible (writes_of seq us) ukey s)"
    using add_all_updates [OF assms(1,3)] assms(4,5) by metis
  have "SetSequence seq (fold apply_update us WriteBatch_Clear) = batch_bytes seq us"
    using batch_updates [OF assms(1), of 0 "[]"] by (simp add: batch_clear)
  with InsertInto_batch [OF assms(1,2), of BytewiseComparator seq MemTable] m show ?thesis by simp
qed

definition example_updates :: "update list" where
  "example_updates = [BPut (str ''a'') (str ''x''), BDelete (str ''a''), BPut (str ''b'') (str ''y'')]"

lemma example_updates_ok: "\<forall>u\<in>set example_updates. update_ok u" "length example_updates < 2 ^ 31"
  by (simp_all add: example_updates_def)

theorem batch_replay_witness:
  "Iterate (\<lparr>handler_Put = (\<lambda>k v st. Some (st @ [(k, v)])), handler_Delete = (\<lambda>k st. Some (st @ [(k, [])]))\<rparr>)
     (fold apply_update example_updates WriteBatch_Clear) [] =
   Some (OK, [(str ''a'', str ''x''), (str ''a'', []), (str ''b'', str ''y'')])"
  using batch_replay [OF example_updates_ok,
    of "\<lparr>handler_Put = (\<lambda>k v st. Some (st @ [(k, v)])), handler_Delete = (\<lambda>k st. Some (st @ [(k, [])]))\<rparr>" "[]"]
  by (simp add: example_updates_def)

theorem batch_insert_visible_witness:
  "\<exists>m. InsertInto BytewiseComparator (SetSequence 7 (fold apply_update example_updates WriteBatch_Clear)) MemTable =
      Some (OK, m) \<and>
    MemTable_Get BytewiseComparator (str ''a'') 9 m = Some FoundDeletion"
proof -
  have "visible (writes_of 7 example_updates) (str ''a'') 9 = FoundDeletion"
    by (simp add: example_updates_def visible_def)
  with batch_insert_visible [OF example_updates_ok, of 7 "str ''a''" 9] show ?thesis
    by (simp add: example_updates_def kMaxSequenceNumber_def)
qed

end
