(* ===== verification/Ldb_Log.thy ===== *)
theory Ldb_Log
  imports Ldb_Crc32c Ldb_Env
begin

text \<open>
  The log of LevelDB, from \<open>db/log_format.h\<close>, \<open>db/log_writer.cc\<close> and \<open>db/log_reader.cc\<close>: records cut into
  fragments that do not cross the blocks of the file, each with a header of checksum, length and type.

  The file is an argument of the operations, as a virtual class is in C++. Buffers are passed by value; the
  checksums are taken at address 0, since the address does not matter (lemma \<open>Extend_crc32c\<close>). The calls of the
  reporter are recorded in the state of the reader.
\<close>

section \<open>The format\<close>

definition kZeroType :: u32 where "kZeroType = 0"
definition kFullType :: u32 where "kFullType = 1"
definition kFirstType :: u32 where "kFirstType = 2"
definition kMiddleType :: u32 where "kMiddleType = 3"
definition kLastType :: u32 where "kLastType = 4"
definition kMaxRecordType :: u32 where "kMaxRecordType = kLastType"
definition kEof :: u32 where "kEof = kMaxRecordType + 1"
definition kBadRecord :: u32 where "kBadRecord = kMaxRecordType + 2"

definition kBlockSize :: nat where
  "kBlockSize = 32768"

definition kHeaderSize :: nat where
  "kHeaderSize = 4 + 2 + 1"

section \<open>The writer\<close>

record log_writer =
  block_offset :: nat
  type_crc :: "u32 list"

definition InitTypeCrc :: "u32 list" where
  "InitTypeCrc = map (\<lambda>i. Value 0 [of_nat i]) [0..<unat kMaxRecordType + 1]"

definition Writer :: log_writer where
  "Writer = \<lparr>block_offset = 0, type_crc = InitTypeCrc\<rparr>"

definition Writer_at :: "nat \<Rightarrow> log_writer" where
  "Writer_at dest_length = \<lparr>block_offset = dest_length mod kBlockSize, type_crc = InitTypeCrc\<rparr>"

definition EmitPhysicalRecord ::
  "'f writable_file \<Rightarrow> u32 \<Rightarrow> bytes \<Rightarrow> log_writer \<Rightarrow> 'f \<Rightarrow> status \<times> log_writer \<times> 'f" where
  "EmitPhysicalRecord F t ptr w f =
     (let n = length ptr;
          crc = Mask (Extend 0 (type_crc w ! unat t) ptr);
          buf = EncodeFixed32 crc @ [of_nat (take_bit 8 n), of_nat (drop_bit 8 n), ucast t];
          (s, f) = wf_Append F buf f;
          (s, f) = (if s = OK then wf_Append F ptr f else (s, f));
          (s, f) = (if s = OK then wf_Flush F f else (s, f))
      in (s, w\<lparr>block_offset := block_offset w + kHeaderSize + n\<rparr>, f))"

text \<open>The start of an iteration of \<open>AddRecord\<close>: where it puts the fragment, and the type of the fragment.\<close>

definition switch_block :: "'f writable_file \<Rightarrow> log_writer \<Rightarrow> 'f \<Rightarrow> log_writer \<times> 'f" where
  "switch_block F w f =
     (let leftover = kBlockSize - block_offset w
      in if leftover < kHeaderSize
         then (w\<lparr>block_offset := 0\<rparr>, if leftover > 0 then snd (wf_Append F (replicate leftover 0) f) else f)
         else (w, f))"

definition fragment_type :: "bool \<Rightarrow> bool \<Rightarrow> u32" where
  "fragment_type begin end' =
     (if begin \<and> end' then kFullType else if begin then kFirstType else if end' then kLastType else kMiddleType)"

definition fragment_size :: "nat \<Rightarrow> nat \<Rightarrow> nat" where
  "fragment_size offset left =
     (let avail = kBlockSize - offset - kHeaderSize in if left < avail then left else avail)"

lemma block_offset_switch: "block_offset (fst (switch_block F w f)) + kHeaderSize \<le> kBlockSize"
  by (auto simp: switch_block_def Let_def kBlockSize_def kHeaderSize_def)

lemma block_offset_Emit: "block_offset (fst (snd (EmitPhysicalRecord F t ptr w f))) = block_offset w + kHeaderSize + length ptr"
  by (simp add: EmitPhysicalRecord_def Let_def case_prod_beta)

function add_record_loop :: "'f writable_file \<Rightarrow> bool \<Rightarrow> bytes \<Rightarrow> log_writer \<Rightarrow> 'f \<Rightarrow> status \<times> log_writer \<times> 'f" where
  "add_record_loop F begin ptr w f =
     (let (w1, f1) = switch_block F w f;
          fragment_length = fragment_size (block_offset w1) (length ptr);
          end' = (length ptr = fragment_length);
          (s, w2, f2) = EmitPhysicalRecord F (fragment_type begin end') (take fragment_length ptr) w1 f1;
          ptr' = drop fragment_length ptr
      in if s = OK \<and> ptr' \<noteq> [] then add_record_loop F False ptr' w2 f2 else (s, w2, f2))"
  by pat_completeness auto
termination
proof (relation "measures [\<lambda>(F, b, ptr, w, f). length ptr,
    \<lambda>(F, b, ptr, w, f). if kBlockSize - block_offset w < kHeaderSize then 0 else 1]", goal_cases)
  case (2 F b ptr w f wf w1 f1 n e sf s wf2 w2 f2 ptr')
  have w1: "block_offset w1 + kHeaderSize \<le> kBlockSize"
    and fresh: "kBlockSize - block_offset w < kHeaderSize \<Longrightarrow> block_offset w1 = 0"
    using block_offset_switch [of F w f] 2(1,2) by (auto simp: switch_block_def Let_def split: if_splits)
  have "EmitPhysicalRecord F (fragment_type b e) (take n ptr) w1 f1 = (s, w2, f2)" using 2(5-7) by simp
  with block_offset_Emit [of F "fragment_type b e" "take n ptr" w1 f1]
  have w2: "block_offset w2 = block_offset w1 + kHeaderSize + min (length ptr) n" by simp
  show ?case
  proof (cases "n = 0")
    case True
    with 2(3,9,8) have "kBlockSize \<le> block_offset w1 + kHeaderSize"
      by (auto simp: fragment_size_def Let_def split: if_splits)
    with w1 w2 True fresh 2(8,9) show ?thesis by (auto simp: kBlockSize_def kHeaderSize_def)
  next
    case False
    with 2(8,9) show ?thesis by auto
  qed
qed simp

declare add_record_loop.simps [simp del]

definition AddRecord :: "'f writable_file \<Rightarrow> bytes \<Rightarrow> log_writer \<Rightarrow> 'f \<Rightarrow> status \<times> log_writer \<times> 'f" where
  "AddRecord F record w f = add_record_loop F True record w f"

section \<open>The reader\<close>

record 'f log_reader =
  log_file :: 'f
  reporter :: bool
  reports :: "(u64 \<times> status) list"
  checksum :: bool
  buffer :: bytes
  eof :: bool
  last_record_offset :: u64
  end_of_buffer_offset :: u64
  initial_offset :: u64
  resyncing :: bool

definition Reader :: "'f \<Rightarrow> bool \<Rightarrow> bool \<Rightarrow> u64 \<Rightarrow> 'f log_reader" where
  "Reader f rep chk init =
     \<lparr>log_file = f, reporter = rep, reports = [], checksum = chk, buffer = [], eof = False, last_record_offset = 0,
      end_of_buffer_offset = 0, initial_offset = init, resyncing = init > 0\<rparr>"

definition ReportDrop :: "u64 \<Rightarrow> status \<Rightarrow> 'f log_reader \<Rightarrow> 'f log_reader" where
  "ReportDrop n reason r =
     (if reporter r \<and> end_of_buffer_offset r - of_nat (length (buffer r)) - n \<ge> initial_offset r
      then r\<lparr>reports := reports r @ [(n, reason)]\<rparr> else r)"

definition ReportCorruption :: "u64 \<Rightarrow> string \<Rightarrow> 'f log_reader \<Rightarrow> 'f log_reader" where
  "ReportCorruption n reason r = ReportDrop n (Corruption (str reason)) r"

definition SkipToInitialBlock :: "'f sequential_file \<Rightarrow> 'f log_reader \<Rightarrow> bool \<times> 'f log_reader" where
  "SkipToInitialBlock F r =
     (let offset_in_block = initial_offset r mod of_nat kBlockSize;
          block_start_location = initial_offset r - offset_in_block;
          block_start_location =
            (if offset_in_block > of_nat kBlockSize - 6 then block_start_location + of_nat kBlockSize
             else block_start_location);
          r = r\<lparr>end_of_buffer_offset := block_start_location\<rparr>
      in if block_start_location > 0
         then let (skip_status, f) = sf_Skip F (unat block_start_location) (log_file r); r = r\<lparr>log_file := f\<rparr>
              in if skip_status \<noteq> OK then (False, ReportDrop block_start_location skip_status r) else (True, r)
         else (True, r))"

text \<open>
  The part of \<open>ReadPhysicalRecord\<close> after a buffer with a header is at hand. \<open>fragment\<close> is the slice behind
  \<open>result\<close>, which some paths leave as it is. \<open>char\<close> is signed, as on x86 and on iOS.
\<close>

definition parse_physical :: "bytes \<Rightarrow> 'f log_reader \<Rightarrow> u32 \<times> bytes \<times> 'f log_reader" where
  "parse_physical fragment r =
     (let header = buffer r;
          a = ucast (header ! 4) AND 0xff :: u32;
          b = ucast (header ! 5) AND 0xff :: u32;
          type = scast (header ! 6) :: u32;
          len = unat (a OR push_bit 8 b)
      in if kHeaderSize + len > length (buffer r)
         then let drop_size = of_nat (length (buffer r)); r = r\<lparr>buffer := []\<rparr>
              in if \<not> eof r then (kBadRecord, fragment, ReportCorruption drop_size ''bad record length'' r)
                 else (kEof, fragment, r)
         else if type = kZeroType \<and> len = 0 then (kBadRecord, fragment, r\<lparr>buffer := []\<rparr>)
         else if checksum r \<and> Value 0 (take (1 + len) (drop 6 header)) \<noteq> Unmask (DecodeFixed32 header)
         then let drop_size = of_nat (length (buffer r)); r = r\<lparr>buffer := []\<rparr>
              in (kBadRecord, fragment, ReportCorruption drop_size ''checksum mismatch'' r)
         else let r = r\<lparr>buffer := drop (kHeaderSize + len) (buffer r)\<rparr>
              in if end_of_buffer_offset r - of_nat (length (buffer r)) - of_nat kHeaderSize - of_nat len <
                    initial_offset r
                 then (kBadRecord, [], r)
                 else (type, take len (drop kHeaderSize header), r))"

function ReadPhysicalRecord :: "'f sequential_file \<Rightarrow> bytes \<Rightarrow> 'f log_reader \<Rightarrow> u32 \<times> bytes \<times> 'f log_reader" where
  "ReadPhysicalRecord F fragment r =
     (if length (buffer r) < kHeaderSize then
        if \<not> eof r then
          let (status, result, f) = sf_Read F kBlockSize (log_file r);
              r' = r\<lparr>log_file := f, buffer := result,
                    end_of_buffer_offset := end_of_buffer_offset r + of_nat (length result)\<rparr>
          in if status \<noteq> OK
             then (kEof, fragment, ReportDrop (of_nat kBlockSize) status (r'\<lparr>buffer := []\<rparr>)\<lparr>eof := True\<rparr>)
             else ReadPhysicalRecord F fragment (if length result < kBlockSize then r'\<lparr>eof := True\<rparr> else r')
        else (kEof, fragment, r\<lparr>buffer := []\<rparr>)
      else parse_physical fragment r)"
  by pat_completeness auto
termination
  by (relation "measure (\<lambda>(F, fragment, r). if eof r \<or> length (buffer r) \<ge> kHeaderSize then 0 else 1)")
    (auto simp: kBlockSize_def kHeaderSize_def)

declare ReadPhysicalRecord.simps [simp del]

text \<open>The digits that \<open>%u\<close> prints.\<close>

fun decimal :: "nat \<Rightarrow> string" where
  "decimal n = (if n < 10 then [char_of (48 + n)] else decimal (n div 10) @ [char_of (48 + n mod 10)])"

declare decimal.simps [simp del]

text \<open>
  The loop of \<open>ReadRecord\<close>. The result is \<open>None\<close> inside when the method returns false; the whole is \<open>None\<close>
  when the loop does not return, which depends on the file.
\<close>

partial_function (option) read_record_loop ::
  "'f sequential_file \<Rightarrow> bool \<Rightarrow> u64 \<Rightarrow> bytes \<Rightarrow> bytes \<Rightarrow> 'f log_reader \<Rightarrow> (bytes option \<times> 'f log_reader) option" where
  "read_record_loop F in_fragmented prospective scratch fragment r =
     (let (record_type, fragment, r) = ReadPhysicalRecord F fragment r;
          physical = end_of_buffer_offset r - of_nat (length (buffer r)) - of_nat kHeaderSize - of_nat (length fragment);
          skip = (resyncing r \<and> (record_type = kMiddleType \<or> record_type = kLastType));
          r = (if resyncing r \<and> record_type \<noteq> kMiddleType then r\<lparr>resyncing := False\<rparr> else r)
      in if skip then read_record_loop F in_fragmented prospective scratch fragment r
         else if record_type = kFullType then
           let r = (if in_fragmented \<and> scratch \<noteq> []
                    then ReportCorruption (of_nat (length scratch)) ''partial record without end(1)'' r else r)
           in Some (Some fragment, r\<lparr>last_record_offset := physical\<rparr>)
         else if record_type = kFirstType then
           let r = (if in_fragmented \<and> scratch \<noteq> []
                    then ReportCorruption (of_nat (length scratch)) ''partial record without end(2)'' r else r)
           in read_record_loop F True physical fragment fragment r
         else if record_type = kMiddleType then
           if \<not> in_fragmented
           then read_record_loop F in_fragmented prospective scratch fragment
                  (ReportCorruption (of_nat (length fragment)) ''missing start of fragmented record(1)'' r)
           else read_record_loop F in_fragmented prospective (scratch @ fragment) fragment r
         else if record_type = kLastType then
           if \<not> in_fragmented
           then read_record_loop F in_fragmented prospective scratch fragment
                  (ReportCorruption (of_nat (length fragment)) ''missing start of fragmented record(2)'' r)
           else Some (Some (scratch @ fragment), r\<lparr>last_record_offset := prospective\<rparr>)
         else if record_type = kEof then Some (None, r)
         else if record_type = kBadRecord then
           if in_fragmented
           then read_record_loop F False prospective [] fragment
                  (ReportCorruption (of_nat (length scratch)) ''error in middle of record'' r)
           else read_record_loop F in_fragmented prospective scratch fragment r
         else read_record_loop F False prospective [] fragment
                (ReportCorruption (of_nat (length fragment + (if in_fragmented then length scratch else 0)))
                   (''unknown record type '' @ decimal (unat record_type)) r))"

definition ReadRecord :: "'f sequential_file \<Rightarrow> 'f log_reader \<Rightarrow> (bytes option \<times> 'f log_reader) option" where
  "ReadRecord F r =
     (let (ok, r) = (if last_record_offset r < initial_offset r then SkipToInitialBlock F r else (True, r))
      in if \<not> ok then Some (None, r) else read_record_loop F False 0 [] [] r)"

definition LastRecordOffset :: "'f log_reader \<Rightarrow> u64" where
  "LastRecordOffset r = last_record_offset r"

section \<open>The bytes of a log\<close>

lemmas record_types = kZeroType_def kFullType_def kFirstType_def kMiddleType_def kLastType_def kMaxRecordType_def
  kEof_def kBadRecord_def

definition fragment_bytes :: "u32 \<Rightarrow> bytes \<Rightarrow> bytes" where
  "fragment_bytes t d =
     EncodeFixed32 (Mask (crc32c 0 (ucast t # d))) @
     [of_nat (take_bit 8 (length d)), of_nat (drop_bit 8 (length d)), ucast t] @ d"

definition padding :: "nat \<Rightarrow> nat" where
  "padding off = (if kBlockSize - off < kHeaderSize then kBlockSize - off else 0)"

definition start :: "nat \<Rightarrow> nat" where
  "start off = (if kBlockSize - off < kHeaderSize then 0 else off)"

lemma start_le: "start off + kHeaderSize \<le> kBlockSize"
  by (auto simp: start_def kBlockSize_def kHeaderSize_def)

text \<open>The bytes that a record adds to a log that ends at an offset of a block, and the offset where they end.\<close>

function record_bytes :: "bool \<Rightarrow> nat \<Rightarrow> bytes \<Rightarrow> bytes \<times> nat" where
  "record_bytes begin off d =
     (let n = fragment_size (start off) (length d);
          t = fragment_type begin (length d = n);
          frag = replicate (padding off) 0 @ fragment_bytes t (take n d);
          off' = start off + kHeaderSize + n
      in if drop n d = [] then (frag, off') else apfst ((@) frag) (record_bytes False off' (drop n d)))"
  by pat_completeness auto
termination
proof (relation "measures [\<lambda>(b, off, d). length d,
    \<lambda>(b, off, d). if kBlockSize - off < kHeaderSize then 0 else 1]", goal_cases)
  case (2 b off d n t frag off')
  show ?case
  proof (cases "n = 0")
    case True
    with 2 have "kBlockSize \<le> start off + kHeaderSize" by (auto simp: fragment_size_def Let_def split: if_splits)
    with True 2 show ?thesis by (auto simp: start_def kBlockSize_def kHeaderSize_def split: if_splits)
  next
    case False
    with 2 show ?thesis by auto
  qed
qed simp

declare record_bytes.simps [simp del]

fun log_bytes :: "nat \<Rightarrow> bytes list \<Rightarrow> bytes" where
  "log_bytes off [] = []"
| "log_bytes off (d # ds) = (case record_bytes True off d of (bs, off') \<Rightarrow> bs @ log_bytes off' ds)"

lemma fragment_size_le: "fragment_size off n \<le> n" "fragment_size off n \<le> kBlockSize - off - kHeaderSize"
  by (auto simp: fragment_size_def Let_def)

lemma record_bytes_offset: "snd (record_bytes b off d) \<le> kBlockSize"
proof (induction b off d rule: record_bytes.induct)
  case (1 b off d)
  with start_le [of off] fragment_size_le [of "start off" "length d"] show ?case
    by (subst record_bytes.simps) (auto simp: Let_def)
qed

lemma record_bytes_wrap: "record_bytes b 0 d = record_bytes b kBlockSize d"
  by (subst (1 2) record_bytes.simps) (simp add: start_def padding_def kHeaderSize_def kBlockSize_def)

lemma log_bytes_wrap: "log_bytes 0 ds = log_bytes kBlockSize ds"
  by (cases ds) (simp_all add: record_bytes_wrap)

lemma length_fragment_bytes: "length (fragment_bytes t d) = kHeaderSize + length d"
  by (simp add: fragment_bytes_def EncodeFixed32_def kHeaderSize_def)

section \<open>Writing\<close>

lemma type_crc_nth:
  assumes "t \<le> kLastType"
  shows "InitTypeCrc ! unat t = crc32c 0 [ucast t]"
proof -
  have "unat t < 5" using assms by (simp add: record_types word_le_nat_alt)
  then have "InitTypeCrc ! unat t = Value 0 [of_nat (unat t)]"
    unfolding InitTypeCrc_def by (subst nth_map) (simp_all add: record_types)
  then show ?thesis by (simp add: Value_def Extend_crc32c of_nat_unat)
qed

lemma fragment_type_range: "fragment_type b e \<le> kLastType" "fragment_type b e \<noteq> kZeroType"
  by (simp_all add: fragment_type_def record_types)

fun add_records :: "'f writable_file \<Rightarrow> bytes list \<Rightarrow> log_writer \<Rightarrow> 'f \<Rightarrow> status \<times> log_writer \<times> 'f" where
  "add_records F [] w f = (OK, w, f)"
| "add_records F (d # ds) w f =
     (case AddRecord F d w f of (s, w, f) \<Rightarrow> if s = OK then add_records F ds w f else (s, w, f))"

context append_file
begin

lemma Emit_fragment:
  assumes "writable f" and "type_crc w = InitTypeCrc" and "t \<le> kLastType"
  obtains f' where "EmitPhysicalRecord F t d w f =
      (OK, w\<lparr>block_offset := block_offset w + kHeaderSize + length d\<rparr>, f')"
    and "writable f'" and "written f' = written f @ fragment_bytes t d"
proof -
  let ?buf = "EncodeFixed32 (Mask (crc32c 0 (ucast t # d))) @
     [of_nat (take_bit 8 (length d)), of_nat (drop_bit 8 (length d)), ucast t]"
  obtain f1 where 1: "wf_Append F ?buf f = (OK, f1)" "writable f1" "written f1 = written f @ ?buf"
    using Append [OF assms(1)] by blast
  obtain f2 where 2: "wf_Append F d f1 = (OK, f2)" "writable f2" "written f2 = written f1 @ d"
    using Append [OF 1(2)] by blast
  obtain f3 where 3: "wf_Flush F f2 = (OK, f3)" "writable f3" "written f3 = written f2"
    using Flush [OF 2(2)] by blast
  have crc: "Extend 0 (InitTypeCrc ! unat t) d = crc32c 0 (ucast t # d)"
    by (simp add: type_crc_nth [OF assms(3)] Extend_crc32c crc32c_append)
  show ?thesis
    by (rule that [of f3]) (simp_all add: EmitPhysicalRecord_def Let_def assms(2) crc 1 2 3 fragment_bytes_def)
qed

lemma switch_block_pads:
  assumes "writable f"
  obtains f' where "switch_block F w f = (w\<lparr>block_offset := start (block_offset w)\<rparr>, f')" and "writable f'"
    and "written f' = written f @ replicate (padding (block_offset w)) 0"
proof -
  obtain f1 where "wf_Append F (replicate (kBlockSize - block_offset w) 0) f = (OK, f1)" "writable f1"
    "written f1 = written f @ replicate (kBlockSize - block_offset w) 0" using Append [OF assms] by blast
  with assms show ?thesis
    by (intro that [of "if 0 < padding (block_offset w) then f1 else f"])
      (auto simp: switch_block_def Let_def start_def padding_def)
qed

lemma add_record_loop_bytes:
  "writable f \<Longrightarrow> type_crc w = InitTypeCrc \<Longrightarrow>
    \<exists>f'. add_record_loop F b d w f = (OK, w\<lparr>block_offset := snd (record_bytes b (block_offset w) d)\<rparr>, f') \<and>
      writable f' \<and> written f' = written f @ fst (record_bytes b (block_offset w) d)"
proof (induction b "block_offset w" d arbitrary: w f rule: record_bytes.induct)
  case (1 b d)
  define n where "n = fragment_size (start (block_offset w)) (length d)"
  define t where "t = fragment_type b (length d = n)"
  define w1 where "w1 = w\<lparr>block_offset := start (block_offset w)\<rparr>"
  define w2 where "w2 = w\<lparr>block_offset := start (block_offset w) + kHeaderSize + n\<rparr>"
  obtain f1 where f1: "switch_block F w f = (w1, f1)" "writable f1"
    "written f1 = written f @ replicate (padding (block_offset w)) 0"
    unfolding w1_def by (rule switch_block_pads [OF 1(2)])
  have w1: "type_crc w1 = InitTypeCrc" by (simp add: w1_def 1(3))
  have t: "t \<le> kLastType" by (simp add: t_def fragment_type_range)
  have "length (take n d) = n" using fragment_size_le(1) [of "start (block_offset w)" "length d"] by (simp add: n_def)
  then have w2: "w2 = w1\<lparr>block_offset := block_offset w1 + kHeaderSize + length (take n d)\<rparr>"
    by (simp add: w1_def w2_def)
  obtain f2 where f2: "EmitPhysicalRecord F t (take n d) w1 f1 = (OK, w2, f2)" "writable f2"
    "written f2 = written f1 @ fragment_bytes t (take n d)"
    unfolding w2 by (rule Emit_fragment [OF f1(2) w1 t])
  have loop: "add_record_loop F b d w f =
      (if drop n d \<noteq> [] then add_record_loop F False (drop n d) w2 f2 else (OK, w2, f2))"
    using f1(1) f2(1) by (subst add_record_loop.simps) (simp add: w1_def n_def t_def Let_def)
  have spec: "record_bytes b (block_offset w) d =
      (if drop n d = [] then (replicate (padding (block_offset w)) 0 @ fragment_bytes t (take n d), block_offset w2)
       else apfst ((@) (replicate (padding (block_offset w)) 0 @ fragment_bytes t (take n d)))
         (record_bytes False (block_offset w2) (drop n d)))"
    by (subst record_bytes.simps) (simp add: n_def t_def w2_def Let_def)
  show ?case
  proof (cases "drop n d = []")
    case True
    then show ?thesis using f1(3) f2(2,3) by (simp add: loop spec) (simp add: w2_def)
  next
    case False
    have "\<exists>f'. add_record_loop F False (drop n d) w2 f2 =
        (OK, w2\<lparr>block_offset := snd (record_bytes False (block_offset w2) (drop n d))\<rparr>, f') \<and>
        writable f' \<and> written f' = written f2 @ fst (record_bytes False (block_offset w2) (drop n d))"
      using 1(1) [OF refl refl refl, of w2 f2] False f2(2) 1(3) by (simp add: w2_def n_def)
    with False f1(3) f2(3) show ?thesis by (auto simp: loop spec w2_def)
  qed
qed

lemma add_records_bytes:
  "writable f \<Longrightarrow> type_crc w = InitTypeCrc \<Longrightarrow>
    \<exists>w' f'. add_records F ds w f = (OK, w', f') \<and> type_crc w' = InitTypeCrc \<and> writable f' \<and>
      written f' = written f @ log_bytes (block_offset w) ds \<and>
      (\<forall>ds'. log_bytes (block_offset w) (ds @ ds') = log_bytes (block_offset w) ds @ log_bytes (block_offset w') ds')"
proof (induction ds arbitrary: w f)
  case (Cons d ds)
  define w1 where "w1 = w\<lparr>block_offset := snd (record_bytes True (block_offset w) d)\<rparr>"
  obtain f1 where f1: "AddRecord F d w f = (OK, w1, f1)" "writable f1"
    "written f1 = written f @ fst (record_bytes True (block_offset w) d)"
    using add_record_loop_bytes [OF Cons.prems, of True d] unfolding AddRecord_def w1_def by blast
  have "type_crc w1 = InitTypeCrc" using Cons.prems(2) by (simp add: w1_def)
  from Cons.IH [OF f1(2) this] obtain w' f' where "add_records F ds w1 f1 = (OK, w', f')"
    "type_crc w' = InitTypeCrc" "writable f'" "written f' = written f1 @ log_bytes (block_offset w1) ds"
    "\<forall>ds'. log_bytes (block_offset w1) (ds @ ds') = log_bytes (block_offset w1) ds @ log_bytes (block_offset w') ds'"
    by blast
  with f1 show ?case by (simp add: w1_def case_prod_beta)
qed simp

end

section \<open>Parsing fragments\<close>

lemma length_bytes_join:
  assumes "n < 65536"
  shows "unat ((ucast (of_nat (take_bit 8 n) :: byte) AND 0xff) OR
    push_bit 8 (ucast (of_nat (drop_bit 8 n) :: byte) AND 0xff) :: u32) = n"
proof -
  have "(ucast (of_nat (take_bit 8 n) :: byte) AND 0xff) OR
      push_bit 8 (ucast (of_nat (drop_bit 8 n) :: byte) AND 0xff) = (of_nat n :: u32)"
  proof (rule bit_eqI)
    fix k assume "possible_bit TYPE(u32) k"
    have "take_bit 16 n = n" using assms by (simp add: take_bit_nat_eq_self)
    then have small: "bit n j \<Longrightarrow> j < 16" for j by (metis bit_take_bit_iff)
    show "bit ((ucast (of_nat (take_bit 8 n) :: byte) AND 0xff) OR
      push_bit 8 (ucast (of_nat (drop_bit 8 n) :: byte) AND 0xff) :: u32) k = bit (of_nat n :: u32) k"
      using small [of k] by (auto simp: and_255 bit_simps)
  qed
  then show ?thesis using assms by (simp add: take_bit_nat_eq_self unsigned_of_nat)
qed

lemma scast_small_type: "t \<le> kLastType \<Longrightarrow> scast (ucast t :: byte) = t"
proof -
  assume "t \<le> kLastType"
  then have "unat t < 5" by (simp add: record_types word_le_nat_alt)
  then have "unat t = 0 \<or> unat t = 1 \<or> unat t = 2 \<or> unat t = 3 \<or> unat t = 4" by linarith
  then have "unat t = unat (0 :: u32) \<or> unat t = unat (1 :: u32) \<or> unat t = unat (2 :: u32) \<or>
      unat t = unat (3 :: u32) \<or> unat t = unat (4 :: u32)" by simp
  then have "t = 0 \<or> t = 1 \<or> t = 2 \<or> t = 3 \<or> t = 4" by (simp only: word_unat_eq_iff [symmetric])
  then show ?thesis by auto
qed

lemma parse_fragment:
  assumes "buffer r = fragment_bytes t d @ bs" and "t \<le> kLastType" and "t \<noteq> kZeroType"
    and "length d < 65536" and "initial_offset r = 0"
  shows "parse_physical x r = (t, d, r\<lparr>buffer := bs\<rparr>)"
proof -
  obtain b0 b1 b2 b3 where crc: "EncodeFixed32 (Mask (crc32c 0 (ucast t # d))) = [b0, b1, b2, b3]"
    by (simp add: EncodeFixed32_def)
  have buf: "buffer r = b0 # b1 # b2 # b3 # of_nat (take_bit 8 (length d)) # of_nat (drop_bit 8 (length d)) #
      ucast t # d @ bs" by (simp add: assms(1) fragment_bytes_def crc)
  have dec: "DecodeFixed32 (buffer r) = Mask (crc32c 0 (ucast t # d))"
    using DecodeFixed32_Encode [of "Mask (crc32c 0 (ucast t # d))" "drop 4 (buffer r)"] by (simp add: crc buf)
  have at: "buffer r ! 4 = of_nat (take_bit 8 (length d))" "buffer r ! 5 = of_nat (drop_bit 8 (length d))"
    "buffer r ! 6 = ucast t" by (simp_all add: buf)
  have rest: "drop (kHeaderSize + length d) (buffer r) = bs"
    using length_fragment_bytes [of t d] by (simp add: assms(1))
  show ?thesis
    unfolding parse_physical_def Let_def at length_bytes_join [OF assms(4)] scast_small_type [OF assms(2)] dec rest
    using assms(3,5) by (simp add: buf kHeaderSize_def Value_def Extend_crc32c Unmask_Mask)
qed

lemma parse_short:
  assumes "buffer r = take m (fragment_bytes t d)" and "kHeaderSize \<le> m" and "m < kHeaderSize + length d"
    and "length d < 65536" and "eof r"
  shows "parse_physical x r = (kEof, x, r\<lparr>buffer := []\<rparr>)"
proof -
  obtain b0 b1 b2 b3 where crc: "EncodeFixed32 (Mask (crc32c 0 (ucast t # d))) = [b0, b1, b2, b3]"
    by (simp add: EncodeFixed32_def)
  obtain j where m: "m = j + 7" "j < length d" using assms(2,3) by (auto simp: kHeaderSize_def le_iff_add)
  have buf: "buffer r = b0 # b1 # b2 # b3 # of_nat (take_bit 8 (length d)) # of_nat (drop_bit 8 (length d)) #
      ucast t # take j d" by (simp add: assms(1) fragment_bytes_def crc m add.commute [of j] eval_nat_numeral)
  have at: "buffer r ! 4 = of_nat (take_bit 8 (length d))" "buffer r ! 5 = of_nat (drop_bit 8 (length d))"
    by (simp_all add: buf)
  show ?thesis
    unfolding parse_physical_def Let_def at length_bytes_join [OF assms(4)]
    using m assms(5) by (simp add: buf kHeaderSize_def)
qed

section \<open>Reading\<close>

text \<open>
  The reader is at an offset of a block and the bytes \<open>S\<close> are left of the file: the rest of the block is in the buffer,
  unless the file ends in this block.
\<close>

definition reader_at :: "('f \<Rightarrow> bytes) \<Rightarrow> ('f \<Rightarrow> bool) \<Rightarrow> nat \<Rightarrow> bytes \<Rightarrow> 'f log_reader \<Rightarrow> bool" where
  "reader_at rest readable off S r \<longleftrightarrow>
     readable (log_file r) \<and> initial_offset r = 0 \<and> \<not> resyncing r \<and> off \<le> kBlockSize \<and>
     (if eof r then buffer r = S \<and> length S < kBlockSize - off
      else length (buffer r) = kBlockSize - off \<and> S = buffer r @ rest (log_file r))"

partial_function (option) read_all :: "'f sequential_file \<Rightarrow> 'f log_reader \<Rightarrow> (bytes list \<times> 'f log_reader) option" where
  "read_all F r =
     (case ReadRecord F r of
        None \<Rightarrow> None
      | Some (None, r) \<Rightarrow> Some ([], r)
      | Some (Some d, r) \<Rightarrow> Option.bind (read_all F r) (\<lambda>(ds, r). Some (d # ds, r)))"

definition unread :: "('f \<Rightarrow> bytes) \<Rightarrow> 'f log_reader \<Rightarrow> nat" where
  "unread rest r = length (buffer r) + (if eof r then 0 else length (rest (log_file r)))"

definition returns_within :: "('f \<Rightarrow> bytes) \<Rightarrow> ('f \<Rightarrow> bool) \<Rightarrow> nat \<Rightarrow> (bytes option \<times> 'f log_reader) option \<Rightarrow> bool" where
  "returns_within rest readable n out \<longleftrightarrow>
     (\<exists>res r'. out = Some (res, r') \<and> readable (log_file r') \<and>
       unread rest r' + (case res of None \<Rightarrow> 0 | Some d \<Rightarrow> kHeaderSize + length d) \<le> n)"

lemma ReportCorruption_keeps [simp]:
  "log_file (ReportCorruption n msg r) = log_file r" "eof (ReportCorruption n msg r) = eof r"
  "buffer (ReportCorruption n msg r) = buffer r" "unread rest (ReportCorruption n msg r) = unread rest r"
  by (simp_all add: ReportCorruption_def ReportDrop_def unread_def)

lemma parse_progress:
  assumes "parse_physical x r = (t, y, r')" and "kHeaderSize \<le> length (buffer r)"
  shows "log_file r' = log_file r \<and> unread rest r' < unread rest r \<and>
    (t \<noteq> kEof \<longrightarrow> t \<noteq> kBadRecord \<longrightarrow> unread rest r' + kHeaderSize + length y \<le> unread rest r)"
proof -
  define len where "len = unat ((ucast (buffer r ! 4) AND 0xff) OR push_bit 8 (ucast (buffer r ! 5) AND 0xff) :: u32)"
  have "0 < kHeaderSize" by (simp add: kHeaderSize_def)
  with assms show ?thesis
    unfolding parse_physical_def Let_def len_def [symmetric]
    by (auto simp: unread_def split: if_splits)
qed

lemma loop_steps:
  assumes "ReadPhysicalRecord F x r = (t, d, r')" and "\<not> resyncing r'"
    and "p = end_of_buffer_offset r' - of_nat (length (buffer r')) - of_nat kHeaderSize - of_nat (length d)"
  shows "t = kFullType \<Longrightarrow> read_record_loop F False pr sc x r = Some (Some d, r'\<lparr>last_record_offset := p\<rparr>)"
    and "t = kFirstType \<Longrightarrow> read_record_loop F False pr sc x r = read_record_loop F True p d d r'"
    and "t = kMiddleType \<Longrightarrow> read_record_loop F True pr sc x r = read_record_loop F True pr (sc @ d) d r'"
    and "t = kLastType \<Longrightarrow> read_record_loop F True pr sc x r = Some (Some (sc @ d), r'\<lparr>last_record_offset := pr\<rparr>)"
    and "t = kEof \<Longrightarrow> read_record_loop F fr pr sc x r = Some (None, r')"
  using assms by (subst read_record_loop.simps, simp add: record_types)+

lemma fragment_type_cases:
  "fragment_type True True = kFullType" "fragment_type True False = kFirstType"
  "fragment_type False False = kMiddleType" "fragment_type False True = kLastType"
  by (simp_all add: fragment_type_def)

lemma reader_at_last_offset [simp]:
  "reader_at rest readable off S (r\<lparr>last_record_offset := p\<rparr>) = reader_at rest readable off S r"
  by (simp add: reader_at_def)

context stream_file
begin

lemma refill:
  assumes "reader_at rest readable off S r" and "kBlockSize - off < kHeaderSize" and "\<not> eof r"
  obtains r' where "ReadPhysicalRecord F x r = ReadPhysicalRecord F x r'"
    and "reader_at rest readable 0 (drop (kBlockSize - off) S) r'" and "reports r' = reports r"
proof -
  from assms have r: "readable (log_file r)" "initial_offset r = 0" "\<not> resyncing r"
    "length (buffer r) = kBlockSize - off" "S = buffer r @ rest (log_file r)" by (auto simp: reader_at_def)
  define T where "T = rest (log_file r)"
  obtain f' where f': "sf_Read F kBlockSize (log_file r) = (OK, take kBlockSize T, f')" "readable f'"
    "rest f' = drop kBlockSize T" using Read [OF r(1)] unfolding T_def by blast
  define r1 where "r1 = r\<lparr>log_file := f', buffer := take kBlockSize T,
      end_of_buffer_offset := end_of_buffer_offset r + of_nat (length (take kBlockSize T))\<rparr>"
  define r' where "r' = (if length (take kBlockSize T) < kBlockSize then r1\<lparr>eof := True\<rparr> else r1)"
  have "ReadPhysicalRecord F x r = ReadPhysicalRecord F x r'"
    using r(4) assms(2,3) f'(1) by (subst ReadPhysicalRecord.simps) (simp add: Let_def r1_def r'_def)
  moreover have "reader_at rest readable 0 (drop (kBlockSize - off) S) r'"
    using r f' assms(3) by (auto simp: reader_at_def r'_def r1_def T_def)
  moreover have "reports r' = reports r" by (simp add: r'_def r1_def)
  ultimately show thesis by (rule that)
qed

lemma at_start:
  assumes "reader_at rest readable off S r" and "\<not> (eof r \<and> kBlockSize - off < kHeaderSize)"
  obtains r' where "ReadPhysicalRecord F x r = ReadPhysicalRecord F x r'"
    and "reader_at rest readable (start off) (drop (padding off) S) r'" and "reports r' = reports r"
proof (cases "kBlockSize - off < kHeaderSize")
  case True
  then have "\<not> eof r" "start off = 0" "padding off = kBlockSize - off"
    using assms(2) by (simp_all add: start_def padding_def)
  with refill [OF assms(1) True, of x] that show thesis by metis
next
  case False
  then have "start off = off" "padding off = 0" by (simp_all add: start_def padding_def)
  with that [of r] assms(1) show thesis by simp
qed

lemma eof_short:
  assumes "eof r" and "length (buffer r) < kHeaderSize"
  shows "ReadPhysicalRecord F x r = (kEof, x, r\<lparr>buffer := []\<rparr>)"
  using assms by (subst ReadPhysicalRecord.simps) simp

lemma read_fragment:
  assumes at: "reader_at rest readable off (replicate (padding off) 0 @ fragment_bytes t d @ S) r"
    and t: "t \<le> kLastType" "t \<noteq> kZeroType" and d: "length d \<le> kBlockSize - start off - kHeaderSize"
  obtains r' where "ReadPhysicalRecord F x r = (t, d, r')"
    and "reader_at rest readable (start off + kHeaderSize + length d) S r'" and "reports r' = reports r"
proof -
  have "\<not> (eof r \<and> kBlockSize - off < kHeaderSize)"
    using at by (auto simp: reader_at_def padding_def)
  with at obtain r1 where r1: "ReadPhysicalRecord F x r = ReadPhysicalRecord F x r1"
    "reader_at rest readable (start off) (fragment_bytes t d @ S) r1" "reports r1 = reports r"
    by (rule at_start [where x = x]) simp
  have len: "length (fragment_bytes t d) = kHeaderSize + length d" by (rule length_fragment_bytes)
  have fits: "kHeaderSize + length d \<le> kBlockSize - start off" using d start_le [of off] by linarith
  define B where "B = drop (kHeaderSize + length d) (buffer r1)"
  have buf: "buffer r1 = fragment_bytes t d @ B" and S: "S = B @ (if eof r1 then [] else rest (log_file r1))"
  proof -
    have eq: "fragment_bytes t d @ S = buffer r1 @ (if eof r1 then [] else rest (log_file r1))"
      using r1(2) by (auto simp: reader_at_def)
    have "length (fragment_bytes t d) \<le> length (buffer r1)" using r1(2) len fits by (auto simp: reader_at_def split: if_splits)
    then have "take (length (fragment_bytes t d)) (buffer r1) = fragment_bytes t d"
      using arg_cong [OF eq, of "take (length (fragment_bytes t d))"] by simp
    then show buf: "buffer r1 = fragment_bytes t d @ B" unfolding B_def len [symmetric] by (metis append_take_drop_id)
    with eq show "S = B @ (if eof r1 then [] else rest (log_file r1))" by simp
  qed
  have "length d < 65536" using d by (simp add: kBlockSize_def kHeaderSize_def)
  moreover have "initial_offset r1 = 0" using r1(2) by (simp add: reader_at_def)
  ultimately have "parse_physical x r1 = (t, d, r1\<lparr>buffer := B\<rparr>)" using buf t by (intro parse_fragment) auto
  then have "ReadPhysicalRecord F x r = (t, d, r1\<lparr>buffer := B\<rparr>)"
    using buf len by (subst r1(1), subst ReadPhysicalRecord.simps) simp
  moreover have "reader_at rest readable (start off + kHeaderSize + length d) S (r1\<lparr>buffer := B\<rparr>)"
    using r1(2) buf S len fits by (auto simp: reader_at_def split: if_splits)
  ultimately show thesis using that r1(3) by simp
qed

lemma read_cut_fragment:
  assumes at: "reader_at rest readable off (take m (replicate (padding off) 0 @ fragment_bytes t d)) r"
    and m: "m < padding off + length (fragment_bytes t d)" and d: "length d \<le> kBlockSize - start off - kHeaderSize"
  obtains r' where "ReadPhysicalRecord F x r = (kEof, x, r')" and "reports r' = reports r" and "\<not> resyncing r'"
proof (cases "eof r \<and> kBlockSize - off < kHeaderSize")
  case True
  then have "length (buffer r) < kHeaderSize" "\<not> resyncing r" using at by (auto simp: reader_at_def)
  with eof_short [of r x] True that show thesis by simp
next
  case False
  define j where "j = m - padding off"
  have S: "drop (padding off) (take m (replicate (padding off) 0 @ fragment_bytes t d)) = take j (fragment_bytes t d)"
    by (cases "m \<le> padding off") (simp_all add: j_def)
  obtain r1 where r1: "ReadPhysicalRecord F x r = ReadPhysicalRecord F x r1"
    "reader_at rest readable (start off) (take j (fragment_bytes t d)) r1" "reports r1 = reports r"
    by (rule at_start [OF at False, unfolded S, of x])
  have len: "length (fragment_bytes t d) = kHeaderSize + length d" by (rule length_fragment_bytes)
  have j: "j < kHeaderSize + length d" using m len by (auto simp: j_def length_fragment_bytes kHeaderSize_def)
  have fits: "kHeaderSize + length d \<le> kBlockSize - start off" using d start_le [of off] by linarith
  have eof: "eof r1"
  proof (rule ccontr)
    assume "\<not> eof r1"
    with r1(2) have "length (buffer r1) = kBlockSize - start off" "take j (fragment_bytes t d) = buffer r1 @ rest (log_file r1)"
      by (simp_all add: reader_at_def)
    then have "kBlockSize - start off \<le> length (take j (fragment_bytes t d))" by simp
    with fits j show False by simp
  qed
  with r1(2) have eof: "eof r1" "buffer r1 = take j (fragment_bytes t d)" "\<not> resyncing r1" by (simp_all add: reader_at_def)
  show thesis
  proof (cases "j < kHeaderSize")
    case True
    with eof_short [of r1 x] eof that r1(1,3) show thesis by simp
  next
    case False
    have "length d < 65536" using d by (simp add: kBlockSize_def kHeaderSize_def)
    with parse_short [of r1 j t d x] eof j False have "parse_physical x r1 = (kEof, x, r1\<lparr>buffer := []\<rparr>)" by simp
    moreover have "\<not> length (buffer r1) < kHeaderSize" using eof(2) False j len by simp
    ultimately have "ReadPhysicalRecord F x r = (kEof, x, r1\<lparr>buffer := []\<rparr>)"
      by (subst r1(1), subst ReadPhysicalRecord.simps) simp
    with that r1(3) eof(3) show thesis by simp
  qed
qed

text \<open>The first fragment of a record, and how reading goes on.\<close>

lemma record_bytes_step:
  fixes off d b
  defines "n \<equiv> fragment_size (start off) (length d)"
  shows "record_bytes b off d =
    (let frag = replicate (padding off) 0 @ fragment_bytes (fragment_type b (length d = n)) (take n d);
         off' = start off + kHeaderSize + n
     in if length d = n then (frag, off') else apfst ((@) frag) (record_bytes False off' (drop n d)))"
    and "length (take n d) = n" and "length (take n d) \<le> kBlockSize - start off - kHeaderSize"
proof -
  have n: "n \<le> length d" "n \<le> kBlockSize - start off - kHeaderSize"
    unfolding n_def by (rule fragment_size_le)+
  then show "length (take n d) = n" "length (take n d) \<le> kBlockSize - start off - kHeaderSize" by simp_all
  from n(1) have "drop n d = [] \<longleftrightarrow> length d = n" by auto
  then show "record_bytes b off d =
    (let frag = replicate (padding off) 0 @ fragment_bytes (fragment_type b (length d = n)) (take n d);
         off' = start off + kHeaderSize + n
     in if length d = n then (frag, off') else apfst ((@) frag) (record_bytes False off' (drop n d)))"
    by (subst record_bytes.simps) (simp add: n_def Let_def)
qed

lemma loop_fragment:
  assumes "reader_at rest readable off (replicate (padding off) 0 @ fragment_bytes (fragment_type b e) y @ S) r"
    and "length y \<le> kBlockSize - start off - kHeaderSize"
  obtains r' p where "reader_at rest readable (start off + kHeaderSize + length y) S r'" and "reports r' = reports r"
    and "read_record_loop F (\<not> b) pr sc x r =
      (if e then Some (Some (if b then y else sc @ y), r')
       else read_record_loop F True p (if b then y else sc @ y) y r')"
proof -
  obtain r1 where r1: "ReadPhysicalRecord F x r = (fragment_type b e, y, r1)"
    "reader_at rest readable (start off + kHeaderSize + length y) S r1" "reports r1 = reports r"
    by (rule read_fragment [OF assms(1) fragment_type_range assms(2)])
  then have "\<not> resyncing r1" by (simp add: reader_at_def)
  note loop = loop_steps [OF r1(1) this refl]
  show thesis
  proof (cases e)
    case True
    define p where "p = (if b then end_of_buffer_offset r1 - of_nat (length (buffer r1)) - of_nat kHeaderSize -
        of_nat (length y) else pr)"
    have "read_record_loop F (\<not> b) pr sc x r = Some (Some (if b then y else sc @ y), r1\<lparr>last_record_offset := p\<rparr>)"
      using loop(1,4) True by (auto simp: fragment_type_cases p_def)
    with r1(2,3) True show thesis by (intro that [of "r1\<lparr>last_record_offset := p\<rparr>"]) simp_all
  next
    case False
    with r1(2,3) loop(2,3) show thesis by (cases b) (auto simp: fragment_type_cases intro!: that [of r1])
  qed
qed

lemma read_record:
  "reader_at rest readable off (fst (record_bytes b off d) @ S) r \<Longrightarrow>
    \<exists>r'. read_record_loop F (\<not> b) pr sc x r = Some (Some (if b then d else sc @ d), r') \<and>
      reader_at rest readable (snd (record_bytes b off d)) S r' \<and> reports r' = reports r"
proof (induction b off d arbitrary: pr sc x r rule: record_bytes.induct)
  case (1 b off d)
  define n where "n = fragment_size (start off) (length d)"
  define off' where "off' = start off + kHeaderSize + n"
  define T where "T = (if length d = n then [] else fst (record_bytes False off' (drop n d)))"
  note step = record_bytes_step [where d = d and off = off, folded n_def]
  have "fst (record_bytes b off d) @ S =
      replicate (padding off) 0 @ fragment_bytes (fragment_type b (length d = n)) (take n d) @ T @ S"
    using step(1) [of b] by (simp add: Let_def off'_def T_def)
  with 1(2) have at: "reader_at rest readable off
      (replicate (padding off) 0 @ fragment_bytes (fragment_type b (length d = n)) (take n d) @ T @ S) r" by simp
  obtain r1 p where r1: "reader_at rest readable off' (T @ S) r1" "reports r1 = reports r"
    "read_record_loop F (\<not> b) pr sc x r =
      (if length d = n then Some (Some (if b then take n d else sc @ take n d), r1)
       else read_record_loop F True p (if b then take n d else sc @ take n d) (take n d) r1)"
    by (rule loop_fragment [OF at step(3), unfolded step(2), folded off'_def])
  show ?case
  proof (cases "length d = n")
    case True
    then show ?thesis using r1 step(1) [of b] by (simp add: Let_def off'_def T_def)
  next
    case False
    then have "drop n d \<noteq> []" using step(2) by (auto simp: min_def split: if_splits)
    with 1(1) [OF n_def refl refl off'_def, of r1 p "if b then take n d else sc @ take n d" "take n d"] r1(1) False
    have "\<exists>r'. read_record_loop F True p (if b then take n d else sc @ take n d) (take n d) r1 =
        Some (Some ((if b then take n d else sc @ take n d) @ drop n d), r') \<and>
        reader_at rest readable (snd (record_bytes False off' (drop n d))) S r' \<and> reports r' = reports r1"
      by (simp add: T_def)
    with False r1(2,3) step(1) [of b] show ?thesis by (cases b) (auto simp: Let_def off'_def)
  qed
qed

lemma read_cut_record:
  "reader_at rest readable off (take m (fst (record_bytes b off d))) r \<Longrightarrow> m < length (fst (record_bytes b off d)) \<Longrightarrow>
    \<exists>r'. read_record_loop F (\<not> b) pr sc x r = Some (None, r') \<and> reports r' = reports r"
proof (induction b off d arbitrary: m pr sc x r rule: record_bytes.induct)
  case (1 b off d)
  define n where "n = fragment_size (start off) (length d)"
  define off' where "off' = start off + kHeaderSize + n"
  define frag where "frag = replicate (padding off) 0 @ fragment_bytes (fragment_type b (length d = n)) (take n d)"
  define T where "T = (if length d = n then [] else fst (record_bytes False off' (drop n d)))"
  note step = record_bytes_step [where d = d and off = off, folded n_def]
  have rb: "fst (record_bytes b off d) = frag @ T" using step(1) [of b] by (simp add: Let_def off'_def T_def frag_def)
  show ?case
  proof (cases "m < length frag")
    case True
    with 1(2) have "reader_at rest readable off (take m frag) r" by (simp add: rb)
    moreover have "m < padding off + length (fragment_bytes (fragment_type b (length d = n)) (take n d))"
      using True by (simp add: frag_def)
    ultimately obtain r' where "ReadPhysicalRecord F x r = (kEof, x, r')" "reports r' = reports r" "\<not> resyncing r'"
      unfolding frag_def by (rule read_cut_fragment [OF _ _ step(3), of _ _ _ x])
    with loop_steps(5) [OF this(1,3) refl refl] show ?thesis by blast
  next
    case False
    define j where "j = m - length frag"
    have T: "length d \<noteq> n" "j < length T" using False 1(3) by (auto simp: rb T_def j_def split: if_splits)
    from False 1(2) have "reader_at rest readable off (frag @ take j T) r" by (simp add: rb j_def)
    then have at: "reader_at rest readable off
        (replicate (padding off) 0 @ fragment_bytes (fragment_type b (length d = n)) (take n d) @ take j T) r"
      by (simp add: frag_def)
    obtain r1 p where r1: "reader_at rest readable off' (take j T) r1" "reports r1 = reports r"
      "read_record_loop F (\<not> b) pr sc x r =
        (if length d = n then Some (Some (if b then take n d else sc @ take n d), r1)
         else read_record_loop F True p (if b then take n d else sc @ take n d) (take n d) r1)"
      by (rule loop_fragment [OF at step(3), unfolded step(2), folded off'_def])
    have "drop n d \<noteq> []" using T(1) step(2) by (auto simp: min_def split: if_splits)
    with 1(1) [OF n_def refl refl off'_def, of j r1 p "if b then take n d else sc @ take n d" "take n d"] r1 T
    show ?thesis by (auto simp: T_def)
  qed
qed

lemma ReadRecord_0: "initial_offset r = 0 \<Longrightarrow> ReadRecord F r = read_record_loop F False 0 [] [] r"
  by (simp add: ReadRecord_def)

lemma read_next:
  assumes "reader_at rest readable off (take k (log_bytes off ds)) r"
  shows "(\<exists>r'. ReadRecord F r = Some (None, r') \<and> reports r' = reports r \<and>
      (\<forall>as bs. ds = as @ bs \<longrightarrow> length (log_bytes off as) \<le> k \<longrightarrow> as = [])) \<or>
    (\<exists>d ds' bs off' r'. ds = d # ds' \<and> record_bytes True off d = (bs, off') \<and> length bs \<le> k \<and>
      ReadRecord F r = Some (Some d, r') \<and> reports r' = reports r \<and>
      reader_at rest readable off' (take (k - length bs) (log_bytes off' ds')) r')"
proof -
  have read: "ReadRecord F r = read_record_loop F False 0 [] [] r"
    using assms by (simp add: ReadRecord_0 reader_at_def)
  obtain bs off' where rb: "record_bytes True off (case ds of [] \<Rightarrow> [] | d # _ \<Rightarrow> d) = (bs, off')" by fastforce
  show ?thesis
  proof (cases "ds \<noteq> [] \<and> length bs \<le> k")
    case True
    then obtain d ds' where ds: "ds = d # ds'" "length bs \<le> k" by (cases ds) auto
    with assms rb have "reader_at rest readable off (fst (record_bytes True off d) @ take (k - length bs) (log_bytes off' ds')) r"
      by simp
    from read_record [OF this, of 0 "[]" "[]"] rb ds(1) obtain r' where
      "read_record_loop F False 0 [] [] r = Some (Some d, r')" "reports r' = reports r"
      "reader_at rest readable off' (take (k - length bs) (log_bytes off' ds')) r'" by auto
    with ds rb read show ?thesis by (intro disjI2) auto
  next
    case False
    define j where "j = (if ds = [] then 0 else k)"
    let ?d = "case ds of [] \<Rightarrow> [] | d # _ \<Rightarrow> d"
    have "0 < length (fst (record_bytes True off []))"
      using record_bytes_step(1) [of True off "[]"] fragment_size_le(1) [of "start off" 0]
      by (simp add: Let_def length_fragment_bytes kHeaderSize_def)
    with False rb have j: "j < length (fst (record_bytes True off ?d))" by (cases ds) (auto simp: j_def)
    have "reader_at rest readable off (take j (fst (record_bytes True off ?d))) r"
      using assms j rb by (cases ds) (simp_all add: j_def)
    from read_cut_record [OF this, of 0 "[]" "[]"] j obtain r' where
      "read_record_loop F False 0 [] [] r = Some (None, r')" "reports r' = reports r" by auto
    moreover have "as = []" if "ds = as @ cs" "length (log_bytes off as) \<le> k" for as cs
      using that False rb by (cases as) auto
    ultimately show ?thesis using read by (intro disjI1) auto
  qed
qed

lemma read_log:
  "reader_at rest readable off (take k (log_bytes off ds)) r \<Longrightarrow>
    \<exists>n r'. read_all F r = Some (take n ds, r') \<and> reports r' = reports r \<and>
      (\<forall>as bs. ds = as @ bs \<longrightarrow> length (log_bytes off as) \<le> k \<longrightarrow> length as \<le> n)"
proof (induction ds arbitrary: off k r)
  case Nil
  from read_next [OF this] obtain r' where "ReadRecord F r = Some (None, r')" "reports r' = reports r" by auto
  then show ?case by (subst read_all.simps) simp
next
  case (Cons d ds)
  from read_next [OF Cons.prems] show ?case
  proof (elim disjE exE conjE)
    fix r' assume r': "ReadRecord F r = Some (None, r')" "reports r' = reports r"
      "\<forall>as bs. d # ds = as @ bs \<longrightarrow> length (log_bytes off as) \<le> k \<longrightarrow> as = []"
    then have "read_all F r = Some (take 0 (d # ds), r')" by (subst read_all.simps) simp
    with r'(2,3) show ?thesis by (intro exI [of _ 0] exI [of _ r']) auto
  next
    fix d1 ds1 bs off' r1 assume "d # ds = d1 # ds1" and bs: "record_bytes True off d1 = (bs, off')" "length bs \<le> k"
      and r1: "ReadRecord F r = Some (Some d1, r1)" "reports r1 = reports r"
        "reader_at rest readable off' (take (k - length bs) (log_bytes off' ds1)) r1"
    then have d: "d1 = d" "ds1 = ds" by simp_all
    from Cons.IH [OF r1(3) [unfolded d]] obtain n r' where IH: "read_all F r1 = Some (take n ds, r')" "reports r' = reports r1"
      "\<forall>as bs'. ds = as @ bs' \<longrightarrow> length (log_bytes off' as) \<le> k - length bs \<longrightarrow> length as \<le> n" by blast
    from r1(1) IH(1) have "read_all F r = Some (take (Suc n) (d # ds), r')"
      by (subst read_all.simps) (simp add: d)
    moreover have "length as \<le> Suc n" if "d # ds = as @ cs" "length (log_bytes off as) \<le> k" for as cs
      using that bs d IH(3) by (cases as) auto
    ultimately show ?thesis using IH(2) r1(2) by (intro exI [of _ "Suc n"] exI [of _ r']) auto
  qed
qed

text \<open>Whatever the bytes of the file are, every step consumes some of them.\<close>

lemma ReadPhysicalRecord_progress:
  assumes "readable (log_file r)" and "ReadPhysicalRecord F x r = (t, y, r')"
  shows "readable (log_file r') \<and> unread rest r' \<le> unread rest r \<and> (t = kEof \<or> unread rest r' < unread rest r) \<and>
    (t \<noteq> kEof \<longrightarrow> t \<noteq> kBadRecord \<longrightarrow> unread rest r' + kHeaderSize + length y \<le> unread rest r)"
proof (cases "length (buffer r) < kHeaderSize")
  case False
  with assms(2) have "parse_physical x r = (t, y, r')" by (simp add: ReadPhysicalRecord.simps [of F x r])
  from parse_progress [OF this, of rest] False assms(1) show ?thesis by simp
next
  case short: True
  show ?thesis
  proof (cases "eof r")
    case True
    with short assms show ?thesis by (auto simp: ReadPhysicalRecord.simps [of F x r] unread_def)
  next
    case False
    obtain f' where f': "sf_Read F kBlockSize (log_file r) = (OK, take kBlockSize (rest (log_file r)), f')" "readable f'"
      "rest f' = drop kBlockSize (rest (log_file r))" using Read [OF assms(1)] by blast
    define T where "T = take kBlockSize (rest (log_file r))"
    define r0 where "r0 = r\<lparr>log_file := f', buffer := T, end_of_buffer_offset := end_of_buffer_offset r + of_nat (length T)\<rparr>"
    define r1 where "r1 = (if length T < kBlockSize then r0\<lparr>eof := True\<rparr> else r0)"
    have step: "ReadPhysicalRecord F x r = ReadPhysicalRecord F x r1"
      using short False f'(1) by (subst ReadPhysicalRecord.simps) (simp add: Let_def r0_def r1_def T_def [symmetric])
    have r1: "readable (log_file r1)" "unread rest r1 \<le> unread rest r"
      using f'(2,3) False by (auto simp: r0_def r1_def unread_def T_def)
    have buf: "buffer r1 = T" by (simp add: r0_def r1_def)
    show ?thesis
    proof (cases "length T < kHeaderSize")
      case True
      then have "eof r1" "length (buffer r1) < kHeaderSize" by (simp_all add: r0_def r1_def kHeaderSize_def kBlockSize_def)
      with eof_short [of r1 x] assms(2) step r1 show ?thesis by (auto simp: unread_def)
    next
      case long: False
      then have "parse_physical x r1 = (t, y, r')"
        using assms(2) by (simp add: step ReadPhysicalRecord.simps [of F x r1] buf)
      from parse_progress [OF this, of rest] long r1 buf show ?thesis by auto
    qed
  qed
qed

lemma returns_within_mono:
  "returns_within rest readable m out \<Longrightarrow> m \<le> n \<Longrightarrow> returns_within rest readable n out"
  unfolding returns_within_def by (elim exE conjE) (intro exI conjI, assumption, assumption, erule (1) order_trans)

lemma read_record_loop_returns:
  "readable (log_file r) \<Longrightarrow>
    returns_within rest readable (unread rest r + (if fr then length sc else 0)) (read_record_loop F fr pr sc x r)"
proof (induction "unread rest r" arbitrary: fr pr sc x r rule: less_induct)
  case less
  obtain t y r0 where read: "ReadPhysicalRecord F x r = (t, y, r0)" by (cases "ReadPhysicalRecord F x r")
  define skip where "skip \<longleftrightarrow> resyncing r0 \<and> (t = kMiddleType \<or> t = kLastType)"
  define r1 where "r1 = (if resyncing r0 \<and> t \<noteq> kMiddleType then r0\<lparr>resyncing := False\<rparr> else r0)"
  have keep: "log_file r1 = log_file r0" "unread rest r1 = unread rest r0" by (simp_all add: r1_def unread_def)
  note progress = ReadPhysicalRecord_progress [OF less.prems read, folded keep]
  define p where "p = end_of_buffer_offset r0 - of_nat (length (buffer r0)) - of_nat kHeaderSize - of_nat (length y)"
  define N where "N = unread rest r + (if fr then length sc else 0)"
  have N: "unread rest r \<le> N" "fr \<longrightarrow> unread rest r + length sc = N" by (simp_all add: N_def)
  have go: "returns_within rest readable N (read_record_loop F fr' pr' sc' y r2)"
    if "t \<noteq> kEof" "log_file r2 = log_file r1" "unread rest r2 = unread rest r1"
      "unread rest r1 + (if fr' then length sc' else 0) \<le> N"
    for fr' pr' sc' r2
  proof (rule returns_within_mono [OF less.hyps])
    show "unread rest r2 < unread rest r" "readable (log_file r2)" using progress that by auto
    show "unread rest r2 + (if fr' then length sc' else 0) \<le> N"
      using that(3,4) by simp
  qed
  have stop: "returns_within rest readable N (Some (res, r2))"
    if "log_file r2 = log_file r1" "unread rest r2 = unread rest r1"
      "unread rest r1 + (case res of None \<Rightarrow> 0 | Some d \<Rightarrow> kHeaderSize + length d) \<le> N"
    for res r2 using that progress by (auto simp: returns_within_def)
  note loop = read_record_loop.simps [of F fr pr sc x r, unfolded read Let_def prod.case, folded skip_def r1_def p_def]
  have data: "unread rest r1 + kHeaderSize + length y \<le> unread rest r" if "t \<noteq> kEof" "t \<noteq> kBadRecord"
    using progress that by simp
  have less: "unread rest r1 \<le> unread rest r" using progress by simp
  have offset: "unread rest (r2\<lparr>last_record_offset := q\<rparr>) = unread rest r2" for r2 q by (simp add: unread_def)
  consider (skip) skip | (full) "\<not> skip" "t = kFullType" | (first) "\<not> skip" "t = kFirstType"
    | (middle) "\<not> skip" "t = kMiddleType" | (last) "\<not> skip" "t = kLastType" | (eof) "\<not> skip" "t = kEof"
    | (other) "\<not> skip" "t \<notin> {kFullType, kFirstType, kMiddleType, kLastType, kEof}" by blast
  then have "returns_within rest readable N (read_record_loop F fr pr sc x r)"
  proof cases
    case skip
    then have "t \<noteq> kEof" by (auto simp: skip_def record_types)
    with skip less N show ?thesis unfolding loop by (simp, intro go) auto
  next
    case full
    then have "unread rest r1 + kHeaderSize + length y \<le> unread rest r" by (intro data) (simp_all add: record_types)
    then show ?thesis unfolding loop using full N by (simp, intro conjI impI stop) (auto simp: offset)
  next
    case first
    then have ne: "t \<noteq> kEof" "t \<noteq> kBadRecord" by (simp_all add: record_types)
    note fit = data [OF ne]
    have eq: "read_record_loop F fr pr sc x r = read_record_loop F True p y y
        (if fr \<and> sc \<noteq> [] then ReportCorruption (of_nat (length sc)) ''partial record without end(2)'' r1 else r1)"
      unfolding loop using first by (simp add: record_types)
    show ?thesis unfolding eq using fit N(1) by (intro go ne) simp_all
  next
    case middle
    then have ne: "t \<noteq> kEof" "t \<noteq> kBadRecord" by (simp_all add: record_types)
    from data [OF ne] ne(1) show ?thesis unfolding loop using middle N by (simp add: record_types, intro conjI impI go) (auto simp: record_types)
  next
    case last
    then have ne: "t \<noteq> kEof" "t \<noteq> kBadRecord" by (simp_all add: record_types)
    note fit = data [OF ne]
    show ?thesis
    proof (cases fr)
      case True
      then have eq: "read_record_loop F fr pr sc x r = Some (Some (sc @ y), r1\<lparr>last_record_offset := pr\<rparr>)"
        unfolding loop using last by (simp add: record_types)
      show ?thesis unfolding eq using fit N(2) True by (intro stop) (simp_all add: offset)
    next
      case False
      then have eq: "read_record_loop F fr pr sc x r = read_record_loop F fr pr sc y
          (ReportCorruption (of_nat (length y)) ''missing start of fragmented record(2)'' r1)"
        unfolding loop using last by (simp add: record_types)
      show ?thesis unfolding eq using less N(1) False by (intro go ne) simp_all
    qed
  next
    case eof
    then show ?thesis unfolding loop using less N by (simp add: record_types, intro stop) auto
  next
    case other
    then show ?thesis unfolding loop using less N by (simp, intro conjI impI go) auto
  qed
  then show ?case by (simp only: N_def)
qed

lemma ReadRecord_returns:
  assumes "readable (log_file r)"
  shows "returns_within rest readable (unread rest r) (ReadRecord F r)"
proof (cases "last_record_offset r < initial_offset r")
  case False
  with read_record_loop_returns [OF assms, of False "[]" 0 "[]"] show ?thesis by (simp add: ReadRecord_def)
next
  case True
  obtain ok r1 where skip: "SkipToInitialBlock F r = (ok, r1)" by (cases "SkipToInitialBlock F r")
  define i where "i = initial_offset r mod of_nat kBlockSize"
  define loc where "loc = (if i > of_nat kBlockSize - 6 then initial_offset r - i + of_nat kBlockSize else initial_offset r - i)"
  obtain f' where f': "sf_Skip F (unat loc) (log_file r) = (OK, f')" "readable f'"
    "rest f' = drop (unat loc) (rest (log_file r))" using Skip [OF assms] by blast
  have "r1 = (if loc > 0 then r\<lparr>end_of_buffer_offset := loc, log_file := f'\<rparr> else r\<lparr>end_of_buffer_offset := loc\<rparr>)"
    using skip f'(1) unfolding SkipToInitialBlock_def Let_def i_def [symmetric] loc_def [symmetric] by (simp split: if_splits)
  then have r1: "readable (log_file r1) \<and> unread rest r1 \<le> unread rest r"
    using assms f'(2,3) by (simp add: unread_def)
  with True skip read_record_loop_returns [of r1 False "[]" 0 "[]"] show ?thesis
    by (auto simp: ReadRecord_def returns_within_def intro: order_trans)
qed

lemma read_all_returns:
  "readable (log_file r) \<Longrightarrow>
    \<exists>ds r'. read_all F r = Some (ds, r') \<and> sum_list (map (\<lambda>d. kHeaderSize + length d) ds) \<le> unread rest r"
proof (induction "unread rest r" arbitrary: r rule: less_induct)
  case less
  obtain res r1 where r1: "ReadRecord F r = Some (res, r1)" "readable (log_file r1)"
    "unread rest r1 + (case res of None \<Rightarrow> 0 | Some d \<Rightarrow> kHeaderSize + length d) \<le> unread rest r"
    using ReadRecord_returns [OF less.prems] unfolding returns_within_def by blast
  show ?case
  proof (cases res)
    case None
    with r1(1) have "read_all F r = Some ([], r1)" by (subst read_all.simps) simp
    then show ?thesis by simp
  next
    case (Some d)
    with r1(3) have "unread rest r1 < unread rest r" by (simp add: kHeaderSize_def)
    from less.hyps [OF this r1(2)] obtain ds r' where ds: "read_all F r1 = Some (ds, r')"
      "sum_list (map (\<lambda>d. kHeaderSize + length d) ds) \<le> unread rest r1" by blast
    with r1(1) Some have "read_all F r = Some (d # ds, r')" by (subst read_all.simps) simp
    with ds(2) r1(3) Some show ?thesis by auto
  qed
qed

end

section \<open>Properties\<close>

text \<open>
  C35: records that are added to the log of a new file are read back in their order. When a crash leaves only a beginning of
  the file, the reader returns a beginning of the records, among them all whose \<open>AddRecord\<close> had written its last
  byte to the part that is left, and it reports no corruption.
\<close>

theorem log_survives_crash:
  assumes "mem_writable a e" and "mem_written a e = []"
  shows "\<exists>w1 e1 w2 e2.
    add_records (WritableFileImpl a) ds Writer e = (OK, w1, e1) \<and>
    add_records (WritableFileImpl a) later w1 e1 = (OK, w2, e2) \<and>
    (\<forall>k e' a'. mem_readable a' (e', 0) \<longrightarrow> mem_written a' e' = take k (mem_written a e2) \<longrightarrow>
      length (mem_written a e1) \<le> k \<longrightarrow>
      (\<exists>n r'. read_all (SequentialFileImpl a') (Reader (e', 0) True True 0) = Some (ds @ take n later, r') \<and>
        reports r' = []))"
proof -
  have w: "type_crc Writer = InitTypeCrc" "block_offset Writer = 0" by (simp_all add: Writer_def)
  obtain w1 e1 where e1: "add_records (WritableFileImpl a) ds Writer e = (OK, w1, e1)" "type_crc w1 = InitTypeCrc"
    "mem_writable a e1" "mem_written a e1 = log_bytes 0 ds"
    "\<forall>ds'. log_bytes 0 (ds @ ds') = log_bytes 0 ds @ log_bytes (block_offset w1) ds'"
    using mem_write.add_records_bytes [OF assms(1) w(1), of ds] unfolding w(2) assms(2) append_Nil by blast
  obtain w2 e2 where e2: "add_records (WritableFileImpl a) later w1 e1 = (OK, w2, e2)"
    "mem_written a e2 = mem_written a e1 @ log_bytes (block_offset w1) later"
    using mem_write.add_records_bytes [OF e1(3,2), of later] by blast
  have bytes: "mem_written a e2 = log_bytes kBlockSize (ds @ later)"
    using e2(2) e1(4,5) by (simp flip: log_bytes_wrap)
  have "\<exists>n r'. read_all (SequentialFileImpl a') (Reader (e', 0) True True 0) = Some (ds @ take n later, r') \<and> reports r' = []"
    if "mem_readable a' (e', 0)" "mem_written a' e' = take k (mem_written a e2)" "length (mem_written a e1) \<le> k" for k e' a'
  proof -
    have "reader_at (mem_rest a') (mem_readable a') kBlockSize (take k (log_bytes kBlockSize (ds @ later))) (Reader (e', 0) True True 0)"
      using that(1,2) bytes by (simp add: reader_at_def Reader_def mem_rest_def mem_written_def)
    from mem_read.read_log [OF this] obtain n r' where
      n: "read_all (SequentialFileImpl a') (Reader (e', 0) True True 0) = Some (take n (ds @ later), r')" "reports r' = []"
      "\<forall>as bs. ds @ later = as @ bs \<longrightarrow> length (log_bytes kBlockSize as) \<le> k \<longrightarrow> length as \<le> n"
      unfolding Reader_def log_reader.select_convs by blast
    have "length (log_bytes kBlockSize ds) \<le> k" using that(3) unfolding e1(4) log_bytes_wrap .
    then have "length ds \<le> n" by (rule n(3) [rule_format, OF refl])
    then have "take n (ds @ later) = ds @ take (n - length ds) later" by simp
    with n(1,2) show ?thesis by (intro exI [of _ "n - length ds"] exI [of _ r']) simp
  qed
  with e1(1) e2(1) show ?thesis by blast
qed

text \<open>
  C36: whatever a file holds and from whatever offset, reading all records of it returns, and the records together with a
  header for each of them are not longer than the file.
\<close>

theorem log_reading_returns:
  assumes "mem_readable a (e, 0)"
  shows "\<exists>ds r'. read_all (SequentialFileImpl a) (Reader (e, 0) rep chk init) = Some (ds, r') \<and>
    sum_list (map (\<lambda>d. kHeaderSize + length d) ds) \<le> length (mem_written a e)"
  using mem_read.read_all_returns [of a "Reader (e, 0) rep chk init"] assms
  by (simp add: Reader_def unread_def mem_rest_def mem_written_def)

text \<open>A new file of the environment in memory, and another one that holds a beginning of it.\<close>

definition example_env :: "bytes \<Rightarrow> mem_env" where
  "example_env bs = \<lparr>file_states = [FileState_Append bs FileState], file_map = []\<rparr>"

lemma example_env_ok:
  "mem_writable 0 (example_env bs)" "mem_readable 0 (example_env bs, 0)" "mem_written 0 (example_env bs) = bs"
  using FileState_Append_contents [OF FileState_ok(1), of bs]
  by (simp_all add: example_env_def mem_writable_def mem_readable_def mem_written_def file_at_def FileState_ok)

theorem log_survives_crash_witness:
  "\<exists>w1 e1 w2 e2. add_records (WritableFileImpl 0) [[1, 2], []] Writer (example_env []) = (OK, w1, e1) \<and>
    add_records (WritableFileImpl 0) [[3]] w1 e1 = (OK, w2, e2) \<and>
    (\<exists>n r'. read_all (SequentialFileImpl 0)
        (Reader (example_env (take (length (mem_written 0 e1)) (mem_written 0 e2)), 0) True True 0) =
      Some ([[1, 2], []] @ take n [[3]], r') \<and> reports r' = [])"
  using log_survives_crash [OF example_env_ok(1,3), of "[[1, 2], []]" "[[3]]"] example_env_ok by fastforce

theorem log_reading_returns_witness:
  "\<exists>ds r'. read_all (SequentialFileImpl 0) (Reader (example_env [9, 9, 9, 9, 1, 0, 7, 5], 0) True False 3) = Some (ds, r') \<and>
    sum_list (map (\<lambda>d. kHeaderSize + length d) ds) \<le> 8"
proof -
  have "length [9, 9, 9, 9, 1, 0, 7, 5 :: byte] = 8" by simp
  with log_reading_returns [OF example_env_ok(2), of "[9, 9, 9, 9, 1, 0, 7, 5]" True False 3] show ?thesis
    unfolding example_env_ok(3) by (simp only:)
qed

end
