(* ===== verification/Ldb_Write.thy ===== *)
theory Ldb_Write
  imports Ldb_Batch Ldb_Log
begin

text \<open>
  How LevelDB writes, from \<open>db/db_impl.cc\<close>: the queue of writers, of which the first one takes the batches of others with
  its own (\<open>BuildBatchGroup\<close>), logs them as one record and inserts them into the memtable (\<open>Write\<close>).

  A \<open>Writer\<close> object is an index into the list of all of them. The mutex is released while the first writer logs and
  inserts, so that others can join the queue meanwhile: \<open>Write\<close> is cut there into \<open>Write_begin\<close> and \<open>Write_commit\<close>,
  and \<open>db_step\<close> interleaves them with calls of other threads. A thread whose writer is done returns without another
  effect. The branches of \<open>MakeRoomForWrite\<close> that replace a full memtable depend on compactions and are an argument.
\<close>

section \<open>Writers\<close>

record db_writer =
  batch :: "bytes option"
  sync :: bool
  is_done :: bool
  writer_status :: status

record 'f db_impl =
  writer_objs :: "db_writer list"
  writers :: "nat list"
  log_state :: log_writer
  logfile :: 'f
  mem :: mem_table
  LastSequence :: u64
  bg_error :: status

record db_pending =
  updates :: bytes
  last_sequence :: u64
  last_writer :: nat

definition Write_call :: "bytes option \<Rightarrow> bool \<Rightarrow> 'f db_impl \<Rightarrow> 'f db_impl" where
  "Write_call my_batch sy db =
     db\<lparr>writer_objs := writer_objs db @ [\<lparr>batch = my_batch, sync = sy, is_done = False, writer_status = OK\<rparr>],
        writers := writers db @ [length (writer_objs db)]\<rparr>"

definition group_limit :: "nat \<Rightarrow> nat" where
  "group_limit n = (if n \<le> 128 * 2 ^ 10 then n + 128 * 2 ^ 10 else 2 ^ 20)"

text \<open>
  The loop over the other writers. \<open>tmp\<close> is \<open>None\<close> as long as the result is the batch of the first writer.
\<close>

fun build_group :: "db_writer list \<Rightarrow> db_writer \<Rightarrow> nat \<Rightarrow> nat list \<Rightarrow> nat \<Rightarrow> bytes option \<Rightarrow> nat \<Rightarrow> bytes option \<times> nat" where
  "build_group objs first max_size [] n tmp lst = (tmp, lst)"
| "build_group objs first max_size (i # is) n tmp lst =
     (let w = objs ! i
      in if sync w \<and> \<not> sync first then (tmp, lst)
         else case batch w of
           None \<Rightarrow> build_group objs first max_size is n tmp i
         | Some b \<Rightarrow>
             if n + length b > max_size then (tmp, lst)
             else
               let result = (case tmp of None \<Rightarrow> batch_Append WriteBatch_Clear (the (batch first)) | Some t \<Rightarrow> t)
               in build_group objs first max_size is (n + length b) (Some (batch_Append result b)) i)"

definition BuildBatchGroup :: "'f db_impl \<Rightarrow> bytes option \<times> nat" where
  "BuildBatchGroup db =
     (let first = writer_objs db ! hd (writers db); n = length (the (batch first))
      in build_group (writer_objs db) first (group_limit n) (tl (writers db)) n None (hd (writers db)))"

text \<open>
  \<open>usage\<close> is \<open>ApproximateMemoryUsage\<close>, which counts the blocks of the arena. The sleep of a millisecond when there are
  many files of level 0 changes no state; the calls that join the queue meanwhile do so before this step.
\<close>

definition MakeRoomForWrite ::
  "(mem_table \<Rightarrow> nat) \<Rightarrow> nat \<Rightarrow> (bool \<Rightarrow> 'f db_impl \<Rightarrow> status \<times> 'f db_impl) \<Rightarrow> bool \<Rightarrow> 'f db_impl \<Rightarrow>
    status \<times> 'f db_impl" where
  "MakeRoomForWrite usage write_buffer_size other force db =
     (if bg_error db \<noteq> OK then (bg_error db, db)
      else if \<not> force \<and> usage (mem db) \<le> write_buffer_size then (OK, db)
      else other force db)"

text \<open>The loop that takes the writers of the group from the queue; \<open>w\<close> is the writer that executes it.\<close>

fun finish_group :: "nat \<Rightarrow> status \<Rightarrow> nat \<Rightarrow> nat list \<Rightarrow> db_writer list \<Rightarrow> nat list \<times> db_writer list" where
  "finish_group w s lst [] objs = ([], objs)"
| "finish_group w s lst (ready # q) objs =
     (let objs = (if ready \<noteq> w then objs[ready := (objs ! ready)\<lparr>writer_status := s, is_done := True\<rparr>] else objs)
      in if ready = lst then (q, objs) else finish_group w s lst q objs)"

definition Write_finish :: "status \<Rightarrow> nat \<Rightarrow> 'f db_impl \<Rightarrow> 'f db_impl" where
  "Write_finish s lst db =
     (let (q, objs) = finish_group (hd (writers db)) s lst (writers db) (writer_objs db)
      in db\<lparr>writers := q, writer_objs := objs\<rparr>)"

text \<open>
  \<open>Write\<close> of the writer at the head of the queue, up to the point where it releases the mutex; without updates to
  write it is already finished there.
\<close>

definition Write_begin ::
  "(mem_table \<Rightarrow> nat) \<Rightarrow> nat \<Rightarrow> (bool \<Rightarrow> 'f db_impl \<Rightarrow> status \<times> 'f db_impl) \<Rightarrow> 'f db_impl \<Rightarrow>
    status \<times> db_pending option \<times> 'f db_impl" where
  "Write_begin usage write_buffer_size other db =
     (let w = hd (writers db); my_batch = batch (writer_objs db ! w);
          (s, db) = MakeRoomForWrite usage write_buffer_size other (my_batch = None) db
      in case my_batch of
           Some b \<Rightarrow>
             if s = OK then
               let (tmp, lst) = BuildBatchGroup db;
                   ups = SetSequence (LastSequence db + 1) (case tmp of None \<Rightarrow> b | Some t \<Rightarrow> t);
                   objs = (if tmp = None then (writer_objs db)[w := (writer_objs db ! w)\<lparr>batch := Some ups\<rparr>]
                           else writer_objs db)
               in (s, Some \<lparr>updates = ups, last_sequence = LastSequence db + scast (Count ups), last_writer = lst\<rparr>,
                   db\<lparr>writer_objs := objs\<rparr>)
             else (s, None, Write_finish s w db)
         | None \<Rightarrow> (s, None, Write_finish s w db))"

definition RecordBackgroundError :: "status \<Rightarrow> 'f db_impl \<Rightarrow> 'f db_impl" where
  "RecordBackgroundError s db = (if bg_error db = OK then db\<lparr>bg_error := s\<rparr> else db)"

text \<open>The rest of \<open>Write\<close>; \<open>None\<close> when the insertion into the memtable does not return.\<close>

definition Write_commit ::
  "'f writable_file \<Rightarrow> comparator \<Rightarrow> db_pending \<Rightarrow> 'f db_impl \<Rightarrow> (status \<times> 'f db_impl) option" where
  "Write_commit F user p db =
     (let (s, lw, f) = AddRecord F (updates p) (log_state db) (logfile db);
          do_sync = (s = OK \<and> sync (writer_objs db ! hd (writers db)));
          (s, f) = (if do_sync then wf_Sync F f else (s, f));
          sync_error = (do_sync \<and> s \<noteq> OK)
      in map_option (\<lambda>(s, m).
           let db = db\<lparr>log_state := lw, logfile := f, mem := m\<rparr>;
               db = (if sync_error then RecordBackgroundError s db else db);
               db = db\<lparr>LastSequence := last_sequence p\<rparr>
           in (s, Write_finish s (last_writer p) db))
         (if s = OK then InsertInto user (updates p) (mem db) else Some (s, mem db)))"

section \<open>Threads\<close>

text \<open>
  The database with the group that is being logged. \<open>Called us\<close> is a call of \<open>Write\<close> with a batch of the updates
  \<open>us\<close>, \<open>Finished n\<close> the end of a group of \<open>n\<close> writers.
\<close>

datatype db_label = Called "update list" | Began | Finished nat status

type_synonym 'f db_state = "'f db_impl \<times> db_pending option"

inductive db_step ::
  "'f writable_file \<Rightarrow> (mem_table \<Rightarrow> nat) \<Rightarrow> nat \<Rightarrow> (bool \<Rightarrow> 'f db_impl \<Rightarrow> status \<times> 'f db_impl) \<Rightarrow>
    'f db_state \<Rightarrow> db_label \<Rightarrow> 'f db_state \<Rightarrow> bool"
  for F usage wbs other where
  db_call: "db_step F usage wbs other (db, p) (Called us) (Write_call (Some (fold apply_update us WriteBatch_Clear)) sy db, p)"
| db_begin: "writers db \<noteq> [] \<Longrightarrow> Write_begin usage wbs other db = (s, Some p, db') \<Longrightarrow>
    db_step F usage wbs other (db, None) Began (db', Some p)"
| db_fail: "writers db \<noteq> [] \<Longrightarrow> Write_begin usage wbs other db = (s, None, db') \<Longrightarrow>
    db_step F usage wbs other (db, None) (Finished 1 s) (db', None)"
| db_commit: "Write_commit F BytewiseComparator p db = Some (s, db') \<Longrightarrow>
    db_step F usage wbs other (db, Some p) (Finished (length (writers db) - length (writers db')) s) (db', None)"

inductive db_run ::
  "'f writable_file \<Rightarrow> (mem_table \<Rightarrow> nat) \<Rightarrow> nat \<Rightarrow> (bool \<Rightarrow> 'f db_impl \<Rightarrow> status \<times> 'f db_impl) \<Rightarrow>
    'f db_state \<Rightarrow> db_label list \<Rightarrow> 'f db_state \<Rightarrow> bool"
  for F usage wbs other where
  db_run_Nil: "db_run F usage wbs other s [] s"
| db_run_snoc: "db_run F usage wbs other s tr s' \<Longrightarrow> db_step F usage wbs other s' l s'' \<Longrightarrow>
    db_run F usage wbs other s (tr @ [l]) s''"

lemma db_run_append:
  assumes "db_run F usage wbs other s' tr' s''" and "db_run F usage wbs other s tr s'"
  shows "db_run F usage wbs other s (tr @ tr') s''"
  using assms by (induction rule: db_run.induct) (auto simp flip: append_assoc intro: db_run_snoc)

lemmas db_run_single = db_run_snoc [OF db_run_Nil, simplified]

fun calls :: "db_label list \<Rightarrow> update list list" where
  "calls [] = []"
| "calls (Called us # tr) = us # calls tr"
| "calls (_ # tr) = calls tr"

fun finished :: "db_label list \<Rightarrow> nat" where
  "finished [] = 0"
| "finished (Finished n s # tr) = n + finished tr"
| "finished (_ # tr) = finished tr"

lemma finished_append: "finished (tr @ tr') = finished tr + finished tr'"
  by (induction tr rule: finished.induct) auto

lemma calls_append: "calls (tr @ tr') = calls tr @ calls tr'"
  by (induction tr rule: calls.induct) auto

definition new_db :: "'f \<Rightarrow> 'f db_impl" where
  "new_db f = \<lparr>writer_objs = [], writers = [], log_state = Writer, logfile = f, mem = MemTable, LastSequence = 0, bg_error = OK\<rparr>"

section \<open>Groups\<close>

lemma batch_of_updates: "\<forall>u\<in>set us. update_ok u \<Longrightarrow> fold apply_update us WriteBatch_Clear = batch_bytes 0 us"
  using batch_updates [of us 0 "[]"] by (simp add: batch_clear)

lemma length_update_bytes: "1 \<le> length (update_bytes u)"
  by (cases u) simp_all

lemma length_batch_bytes: "length us \<le> length (batch_bytes seq us)"
proof -
  have "length us \<le> length (concat (map update_bytes us))"
  proof (induction us)
    case (Cons u us)
    with length_update_bytes [of u] show ?case by simp
  qed simp
  then show ?thesis by (simp add: batch_bytes_def)
qed

text \<open>Every queued writer holds the batch of the updates that it was called with.\<close>

definition holds :: "db_writer list \<Rightarrow> update list list \<Rightarrow> nat list \<Rightarrow> bool" where
  "holds objs us is \<longleftrightarrow> (\<forall>i\<in>set is. i < length objs \<and> (\<exists>seq. batch (objs ! i) = Some (batch_bytes seq (us ! i))))"

lemma build_group_Cons:
  assumes "batch (objs ! i) = Some b"
  shows "build_group objs first max_size (i # is) n tmp l =
    (if (sync (objs ! i) \<and> \<not> sync first) \<or> n + length b > max_size then (tmp, l)
     else build_group objs first max_size is (n + length b)
       (Some (batch_Append (case tmp of None \<Rightarrow> batch_Append WriteBatch_Clear (the (batch first)) | Some t \<Rightarrow> t) b)) i)"
  using assms by (simp add: Let_def)

declare build_group.simps(2) [simp del]

lemma build_group_prefix:
  assumes "build_group objs first max_size is n tmp l = (tmp', l')" and "holds objs us is"
    and "batch first = Some (batch_bytes seq0 vs0)"
    and "tmp = None \<and> vs = vs0 \<or> tmp = Some (batch_bytes 0 vs)" and "length vs \<le> n"
  shows "\<exists>js ks. is = js @ ks \<and> l' = List.last (l # js) \<and>
    (tmp' = None \<and> js = [] \<and> tmp = None \<or> tmp' = Some (batch_bytes 0 (vs @ concat (map ((!) us) js)))) \<and>
    (js \<noteq> [] \<longrightarrow> length (vs @ concat (map ((!) us) js)) \<le> max_size)"
  using assms
proof (induction objs first max_size "is" n tmp l arbitrary: vs rule: build_group.induct)
  case (1 objs first max_size n tmp l)
  then show ?case by auto
next
  case (2 objs first max_size i "is" n tmp l)
  obtain seq where b: "batch (objs ! i) = Some (batch_bytes seq (us ! i))" using 2(4) by (auto simp: holds_def)
  define stop where "stop \<longleftrightarrow> sync (objs ! i) \<and> \<not> sync first \<or> n + length (batch_bytes seq (us ! i)) > max_size"
  show ?case
  proof (cases stop)
    case True
    with 2(3) have "tmp' = tmp" "l' = l" unfolding build_group_Cons [OF b] stop_def by simp_all
    with 2(6) show ?thesis by (intro exI [of _ "[]"] exI [of _ "i # is"]) auto
  next
    case False
    define ws where "ws = vs @ us ! i"
    define n' where "n' = n + length (batch_bytes seq (us ! i))"
    have result: "batch_Append (case tmp of None \<Rightarrow> batch_Append WriteBatch_Clear (the (batch first)) | Some t \<Rightarrow> t)
        (batch_bytes seq (us ! i)) = batch_bytes 0 ws"
      using 2(5,6) by (auto simp: batch_clear batch_append ws_def)
    have step: "build_group objs first max_size is n' (Some (batch_bytes 0 ws)) i = (tmp', l')"
      using 2(3) False unfolding build_group_Cons [OF b] stop_def result n'_def by simp
    have len: "length ws \<le> n'" using 2(7) length_batch_bytes [of "us ! i" seq] by (simp add: ws_def n'_def)
    have n': "n' \<le> max_size" "holds objs us is" using False 2(4) by (auto simp: stop_def n'_def holds_def)
    have "\<not> (sync (objs ! i) \<and> \<not> sync first)" "\<not> max_size < n + length (batch_bytes seq (us ! i))"
      using False by (auto simp: stop_def)
    note IH = 2(2) [OF refl this(1) b this(2) refl, unfolded result, folded n'_def, OF step n'(2) 2(5) disjI2 [OF refl] len]
    then obtain js ks where js: "is = js @ ks" "l' = List.last (i # js)"
      "tmp' = Some (batch_bytes 0 (ws @ concat (map ((!) us) js)))"
      "js \<noteq> [] \<longrightarrow> length (ws @ concat (map ((!) us) js)) \<le> max_size"
      by (elim exE conjE disjE) (simp, blast)
    have "length (ws @ concat (map ((!) us) js)) \<le> max_size" using js(4) len n'(1) by (cases js) auto
    with js show ?thesis by (intro exI [of _ "i # js"] exI [of _ ks]) (auto simp: ws_def)
  qed
qed

lemma finish_group_upt:
  assumes "k \<le> l" and "l < n" and "n \<le> length objs"
  shows "\<exists>objs'. finish_group w s l [k..<n] objs = ([Suc l..<n], objs') \<and> length objs' = length objs \<and>
    (\<forall>i<length objs. batch (objs' ! i) = batch (objs ! i) \<and>
      (if k \<le> i \<and> i \<le> l \<and> i \<noteq> w then is_done (objs' ! i) \<and> writer_status (objs' ! i) = s else objs' ! i = objs ! i))"
  using assms
proof (induction "l - k" arbitrary: k objs)
  case 0
  then have "k = l" "[k..<n] = k # [Suc k..<n]" by (simp_all add: upt_conv_Cons)
  then show ?case using 0(4) by (auto simp: Let_def nth_list_update)
next
  case (Suc d)
  define objs1 where "objs1 = (if k \<noteq> w then objs[k := (objs ! k)\<lparr>writer_status := s, is_done := True\<rparr>] else objs)"
  have k: "k < l" "[k..<n] = k # [Suc k..<n]" using Suc(2,4) by (simp_all add: upt_conv_Cons)
  then have step: "finish_group w s l [k..<n] objs = finish_group w s l [Suc k..<n] objs1"
    by (simp add: objs1_def Let_def)
  have len: "length objs1 = length objs" by (simp add: objs1_def)
  have "d = l - Suc k" "Suc k \<le> l" "n \<le> length objs1" using Suc(2,5) k len by simp_all
  from Suc(1) [OF this(1,2) Suc(4) this(3)] obtain objs' where
    objs': "finish_group w s l [Suc k..<n] objs1 = ([Suc l..<n], objs')" "length objs' = length objs1"
    "\<forall>i<length objs1. batch (objs' ! i) = batch (objs1 ! i) \<and>
      (if Suc k \<le> i \<and> i \<le> l \<and> i \<noteq> w then is_done (objs' ! i) \<and> writer_status (objs' ! i) = s else objs' ! i = objs1 ! i)"
    by blast
  have "batch (objs' ! i) = batch (objs ! i) \<and>
      (if k \<le> i \<and> i \<le> l \<and> i \<noteq> w then is_done (objs' ! i) \<and> writer_status (objs' ! i) = s else objs' ! i = objs ! i)"
    if "i < length objs" for i
    using objs'(3) [rule_format, of i] that len k(1) by (cases "i = k") (auto simp: objs1_def nth_list_update)
  with objs'(1,2) step len show ?case by auto
qed

section \<open>The invariant\<close>

lemma writes_of_append: "writes_of seq (us @ vs) = writes_of seq us @ writes_of (seq + of_nat (length us)) vs"
  by (induction seq us rule: writes_of.induct) (simp_all add: add.assoc)

lemma add_all_append:
  "add_all user (ws @ ws') m = (case add_all user ws m of None \<Rightarrow> None | Some m' \<Rightarrow> add_all user ws' m')"
  by (induction ws arbitrary: m) (simp_all split: option.split)

fun log_batches :: "u64 \<Rightarrow> update list list \<Rightarrow> bytes list" where
  "log_batches seq [] = []"
| "log_batches seq (g # gs) = batch_bytes seq g # log_batches (seq + of_nat (length g)) gs"

lemma log_batches_append:
  "log_batches seq (gs @ gs') = log_batches seq gs @ log_batches (seq + of_nat (length (concat gs))) gs'"
  by (induction gs arbitrary: seq) (simp_all add: add.assoc)

text \<open>The calls can be logged and numbered.\<close>

definition calls_ok :: "update list list \<Rightarrow> bool" where
  "calls_ok cs \<longleftrightarrow> (\<forall>us\<in>set cs. (\<forall>u\<in>set us. update_ok u) \<and> length us < 2 ^ 31) \<and> length (concat cs) < 2 ^ 56"

text \<open>The beginnings of a list of groups are beginnings of the first \<open>k\<close> calls: no call is split.\<close>

definition aligned :: "update list list \<Rightarrow> nat \<Rightarrow> update list list \<Rightarrow> bool" where
  "aligned gs k cs \<longleftrightarrow> (\<forall>n. \<exists>j\<le>k. concat (take n gs) = concat (take j cs))"

lemma aligned_call:
  assumes "aligned gs k cs" and "k \<le> length cs"
  shows "aligned gs k (cs @ [us])"
  unfolding aligned_def
proof
  fix n
  from assms obtain j where "j \<le> k" "concat (take n gs) = concat (take j cs)" unfolding aligned_def by blast
  with assms(2) show "\<exists>j\<le>k. concat (take n gs) = concat (take j (cs @ [us]))" by (intro exI [of _ j]) simp
qed

lemma aligned_commit:
  assumes "aligned gs k cs" and "k \<le> l" and "concat (gs @ [g]) = concat (take l cs)"
  shows "aligned (gs @ [g]) l cs"
  unfolding aligned_def
proof
  fix n
  from assms(1) obtain j where j: "j \<le> k" "concat (take n gs) = concat (take j cs)" unfolding aligned_def by blast
  show "\<exists>j\<le>l. concat (take n (gs @ [g])) = concat (take j cs)"
  proof (cases "n \<le> length gs")
    case True
    with j assms(2) show ?thesis by (intro exI [of _ j]) simp
  next
    case False
    with assms(3) show ?thesis by (intro exI [of _ l]) simp
  qed
qed

text \<open>
  The first \<open>k\<close> of the calls \<open>cs\<close> are finished, in the groups \<open>gs\<close>, which are in the log and in the memtable.
\<close>

definition db_inv ::
  "('f \<Rightarrow> bytes) \<Rightarrow> ('f \<Rightarrow> bool) \<Rightarrow> update list list \<Rightarrow> nat \<Rightarrow> update list list \<Rightarrow> 'f db_impl \<Rightarrow> bool" where
  "db_inv written writable cs k gs db \<longleftrightarrow>
     k \<le> length cs \<and> writers db = [k..<length cs] \<and> length (writer_objs db) = length cs \<and>
     holds (writer_objs db) cs (writers db) \<and> concat gs = concat (take k cs) \<and>
     aligned gs k cs \<and> (\<forall>g\<in>set gs. length g < 2 ^ 31) \<and>
     (\<forall>i<length cs. is_done (writer_objs db ! i) \<longrightarrow> i < k \<and> writer_status (writer_objs db ! i) = OK) \<and>
     writable (logfile db) \<and> type_crc (log_state db) = InitTypeCrc \<and>
     written (logfile db) = log_bytes 0 (log_batches 1 gs) \<and>
     (\<forall>ds. log_bytes 0 (log_batches 1 gs @ ds) =
       log_bytes 0 (log_batches 1 gs) @ log_bytes (block_offset (log_state db)) ds) \<and>
     add_all BytewiseComparator (writes_of 1 (concat (take k cs))) MemTable = Some (mem db) \<and>
     LastSequence db = of_nat (length (concat (take k cs))) \<and> bg_error db = OK"

definition pending_group :: "update list list \<Rightarrow> nat \<Rightarrow> db_pending \<Rightarrow> update list" where
  "pending_group cs k p = concat (drop k (take (Suc (last_writer p)) cs))"

definition pending_ok :: "update list list \<Rightarrow> nat \<Rightarrow> 'f db_impl \<Rightarrow> db_pending \<Rightarrow> bool" where
  "pending_ok cs k db p \<longleftrightarrow>
     k \<le> last_writer p \<and> last_writer p < length cs \<and> length (pending_group cs k p) < 2 ^ 31 \<and>
     updates p = batch_bytes (LastSequence db + 1) (pending_group cs k p) \<and>
     last_sequence p = LastSequence db + of_nat (length (pending_group cs k p))"

lemma db_inv_call:
  assumes inv: "db_inv written writable cs k gs db" and "\<forall>u\<in>set us. update_ok u"
  shows "db_inv written writable (cs @ [us]) k gs (Write_call (Some (fold apply_update us WriteBatch_Clear)) sy db)"
proof -
  have k: "k \<le> length cs" "length (writer_objs db) = length cs" "writers db = [k..<length cs]" "aligned gs k cs"
    and objs: "holds (writer_objs db) cs (writers db)"
      "\<And>i. i < length cs \<Longrightarrow> is_done (writer_objs db ! i) \<Longrightarrow> i < k \<and> writer_status (writer_objs db ! i) = OK"
    using inv unfolding db_inv_def by blast+
  define w where "w = \<lparr>batch = Some (batch_bytes 0 us), sync = sy, is_done = False, writer_status = OK\<rparr>"
  have call: "Write_call (Some (fold apply_update us WriteBatch_Clear)) sy db =
      db\<lparr>writer_objs := writer_objs db @ [w], writers := [k..<length (cs @ [us])]\<rparr>"
    using k by (simp add: Write_call_def batch_of_updates [OF assms(2)] w_def)
  have "holds (writer_objs db @ [w]) (cs @ [us]) [k..<length (cs @ [us])]"
    using objs(1) k by (auto simp: holds_def w_def nth_append less_Suc_eq)
  moreover have "is_done ((writer_objs db @ [w]) ! i) \<longrightarrow> i < k \<and> writer_status ((writer_objs db @ [w]) ! i) = OK"
    if "i < length (cs @ [us])" for i
    using objs(2) [of i] that k(2) by (auto simp: nth_append w_def less_Suc_eq)
  moreover have "aligned gs k (cs @ [us])" by (rule aligned_call [OF k(4,1)])
  ultimately show ?thesis using inv k(1,2) unfolding call db_inv_def by simp
qed

lemma pending_ok_call:
  "pending_ok cs k db p \<Longrightarrow> pending_ok (cs @ [us]) k (Write_call b sy db) p"
  by (simp add: pending_ok_def pending_group_def Write_call_def)

lemma upt_prefix:
  assumes "js @ ks = [a..<n]"
  shows "js = [a..<a + length js]" and "a + length js \<le> n \<or> js = []"
proof -
  have "length js + length ks = n - a" using arg_cong [OF assms, of length] by simp
  then have le: "length js \<le> n - a" by simp
  have "js = take (length js) [a..<n]" using arg_cong [OF assms, of "take (length js)"] by simp
  also have "\<dots> = [a..<a + length js]" using le by (cases "a \<le> n") (simp_all add: take_upt)
  finally show "js = [a..<a + length js]" .
  show "a + length js \<le> n \<or> js = []" using le by (cases js) auto
qed

lemma map_nth_upt: "n \<le> length xs \<Longrightarrow> map ((!) xs) [k..<n] = drop k (take n xs)"
  by (rule nth_equalityI) auto

lemma BuildBatchGroup_group:
  assumes inv: "db_inv written writable cs k gs db" and ok: "calls_ok cs" and k: "k < length cs"
    and batch: "batch (writer_objs db ! k) = Some (batch_bytes seq (cs ! k))"
    and build: "BuildBatchGroup db = (tmp, l)"
  shows "k \<le> l" and "l < length cs" and "length (concat (drop k (take (Suc l) cs))) < 2 ^ 31"
    and "tmp = None \<and> concat (drop k (take (Suc l) cs)) = cs ! k \<or>
      tmp = Some (batch_bytes 0 (concat (drop k (take (Suc l) cs))))"
proof -
  let ?b = "batch_bytes seq (cs ! k)"
  have q: "writers db = k # [Suc k..<length cs]" using inv k by (simp add: db_inv_def upt_conv_Cons)
  have holds: "holds (writer_objs db) cs [Suc k..<length cs]" using inv q by (auto simp: db_inv_def holds_def)
  have "build_group (writer_objs db) (writer_objs db ! k) (group_limit (length ?b)) [Suc k..<length cs]
      (length ?b) None k = (tmp, l)"
    using build by (simp add: BuildBatchGroup_def q batch Let_def)
  from build_group_prefix [OF this holds batch disjI1 [OF conjI [OF refl refl]] length_batch_bytes]
  obtain js ks where js: "[Suc k..<length cs] = js @ ks" "l = List.last (k # js)"
    "tmp = None \<and> js = [] \<or> tmp = Some (batch_bytes 0 (cs ! k @ concat (map ((!) cs) js)))"
    "js \<noteq> [] \<longrightarrow> length (cs ! k @ concat (map ((!) cs) js)) \<le> group_limit (length ?b)"
    by blast
  have upt: "js = [Suc k..<Suc k + length js]" "Suc k + length js \<le> length cs"
    using upt_prefix [OF js(1) [symmetric]] k by auto
  have kjs: "k # js = [k..<Suc k + length js]" by (subst upt(1)) (simp add: upt_conv_Cons del: upt_Suc)
  then have l: "l = k + length js" unfolding js(2) by (simp del: upt_Suc)
  then show "k \<le> l" and lcs: "l < length cs" using upt(2) by simp_all
  have "k # js = [k..<Suc l]" using kjs l by simp
  then have "map ((!) cs) (k # js) = drop k (take (Suc l) cs)" using map_nth_upt [of "Suc l" cs k] lcs by simp
  from arg_cong [OF this, of concat]
  have group: "cs ! k @ concat (map ((!) cs) js) = concat (drop k (take (Suc l) cs))" by simp
  show "tmp = None \<and> concat (drop k (take (Suc l) cs)) = cs ! k \<or>
      tmp = Some (batch_bytes 0 (concat (drop k (take (Suc l) cs))))"
    using js(3) unfolding group [symmetric] by auto
  have "length (cs ! k) < 2 ^ 31" using ok k by (simp add: calls_ok_def)
  moreover have "group_limit n < 2 ^ 31" for n by (simp add: group_limit_def)
  ultimately show "length (concat (drop k (take (Suc l) cs))) < 2 ^ 31"
    using js(4) unfolding group [symmetric] by (cases "js = []") (simp_all add: le_less_trans)
qed

lemma scast_count: "n < 2 ^ 31 \<Longrightarrow> scast (of_nat n :: u32) = (of_nat n :: u64)"
  using sint_of_nat_u32 [of n] by (simp add: signed_of_nat)

lemma Write_begin_group:
  assumes inv: "db_inv written writable cs k gs db" and ok: "calls_ok cs" and q: "writers db \<noteq> []"
    and room: "usage (mem db) \<le> wbs"
  obtains p db' where "Write_begin usage wbs other db = (OK, Some p, db')" and "db_inv written writable cs k gs db'"
    and "pending_ok cs k db' p"
proof -
  have k: "k < length cs" "hd (writers db) = k" "k \<in> set (writers db)" using inv q by (auto simp: db_inv_def)
  have holds: "holds (writer_objs db) cs (writers db)" using inv unfolding db_inv_def by blast
  with k(3) obtain seq where b: "batch (writer_objs db ! k) = Some (batch_bytes seq (cs ! k))" unfolding holds_def by blast
  obtain tmp l where build: "BuildBatchGroup db = (tmp, l)" by (cases "BuildBatchGroup db")
  note group = BuildBatchGroup_group [OF inv ok k(1) b build]
  define g where "g = concat (drop k (take (Suc l) cs))"
  define ups where "ups = batch_bytes (LastSequence db + 1) g"
  define objs where "objs = (if tmp = None then (writer_objs db)[k := (writer_objs db ! k)\<lparr>batch := Some ups\<rparr>] else writer_objs db)"
  define p where "p = \<lparr>updates = ups, last_sequence = LastSequence db + of_nat (length g), last_writer = l\<rparr>"
  have ups: "SetSequence (LastSequence db + 1) (case tmp of None \<Rightarrow> batch_bytes seq (cs ! k) | Some t \<Rightarrow> t) = ups"
    using group(4) by (auto simp: ups_def g_def)
  have count: "scast (Count ups) = (of_nat (length g) :: u64)"
    using scast_count [OF group(3)] by (simp add: ups_def g_def)
  have "bg_error db = OK" using inv by (simp add: db_inv_def)
  then have "MakeRoomForWrite usage wbs other False db = (OK, db)" using room by (simp add: MakeRoomForWrite_def)
  then have "Write_begin usage wbs other db = (OK, Some p, db\<lparr>writer_objs := objs\<rparr>)"
    using ups count by (cases tmp) (simp_all add: Write_begin_def k(2) b build p_def objs_def)
  moreover have "db_inv written writable cs k gs (db\<lparr>writer_objs := objs\<rparr>)"
  proof -
    have "length objs = length cs" "is_done (objs ! i) = is_done (writer_objs db ! i)"
      "writer_status (objs ! i) = writer_status (writer_objs db ! i)" if "i < length cs" for i
      using inv that k(1) by (simp_all add: db_inv_def objs_def nth_list_update)
    moreover have "holds objs cs (writers db)"
      using holds group(4) k(3) by (auto simp: holds_def objs_def ups_def nth_list_update g_def)
    ultimately show ?thesis using inv k(1) by (simp add: db_inv_def)
  qed
  moreover have "pending_ok cs k (db\<lparr>writer_objs := objs\<rparr>) p"
    using group by (simp add: pending_ok_def pending_group_def p_def ups_def g_def)
  ultimately show ?thesis by (rule that)
qed

section \<open>Committing a group\<close>

lemma calls_updates:
  assumes "calls_ok cs"
  shows "\<forall>u\<in>set (concat (take n cs)). update_ok u" and "unat (1 :: u64) + length (concat (take n cs)) \<le> 2 ^ 56"
proof -
  show "\<forall>u\<in>set (concat (take n cs)). update_ok u" using assms set_take_subset [of n cs] by (auto simp: calls_ok_def)
  have "length (concat cs) = length (concat (take n cs)) + length (concat (drop n cs))"
    unfolding length_append [symmetric] concat_append [symmetric] by simp
  with assms show "unat (1 :: u64) + length (concat (take n cs)) \<le> 2 ^ 56" by (simp add: calls_ok_def)
qed

lemma take_pending:
  assumes "k \<le> last_writer p"
  shows "concat (take (Suc (last_writer p)) cs) = concat (take k cs) @ pending_group cs k p"
proof -
  have "take (Suc (last_writer p)) cs = take k cs @ drop k (take (Suc (last_writer p)) cs)"
    using assms append_take_drop_id [of k "take (Suc (last_writer p)) cs"] by (simp add: min_def)
  from arg_cong [OF this, of concat] show ?thesis by (simp add: pending_group_def)
qed

lemma InsertInto_pending:
  assumes inv: "db_inv written writable cs k gs db" and ok: "calls_ok cs" and p: "pending_ok cs k db p"
  obtains m where "InsertInto BytewiseComparator (updates p) (mem db) = Some (OK, m)"
    and "add_all BytewiseComparator (writes_of 1 (concat (take (Suc (last_writer p)) cs))) MemTable = Some m"
proof -
  let ?g = "pending_group cs k p" and ?us = "concat (take (Suc (last_writer p)) cs)"
  have us: "?us = concat (take k cs) @ ?g" using take_pending p unfolding pending_ok_def by blast
  obtain m where m: "add_all BytewiseComparator (writes_of 1 ?us) MemTable = Some m"
    using add_all_updates [OF calls_updates [OF ok]] by metis
  have "LastSequence db + 1 = 1 + of_nat (length (concat (take k cs)))"
    "add_all BytewiseComparator (writes_of 1 (concat (take k cs))) MemTable = Some (mem db)"
    using inv by (simp_all add: db_inv_def)
  with m have "add_all BytewiseComparator (writes_of (LastSequence db + 1) ?g) (mem db) = Some m"
    unfolding us by (simp add: writes_of_append add_all_append add.commute)
  moreover have "\<forall>u\<in>set ?g. update_ok u" using calls_updates(1) [OF ok, of "Suc (last_writer p)"] unfolding us by simp
  moreover have "length ?g < 2 ^ 31" "updates p = batch_bytes (LastSequence db + 1) ?g" using p by (simp_all add: pending_ok_def)
  ultimately have "InsertInto BytewiseComparator (updates p) (mem db) = Some (OK, m)"
    using InsertInto_batch [of ?g BytewiseComparator "LastSequence db + 1" "mem db"] by simp
  from this m show ?thesis by (rule that)
qed

lemma Write_finish_group:
  assumes inv: "db_inv written writable cs k gs db" and p: "pending_ok cs k db p"
  obtains objs where "Write_finish OK (last_writer p) db = db\<lparr>writers := [Suc (last_writer p)..<length cs], writer_objs := objs\<rparr>"
    and "length objs = length cs" and "holds objs cs [Suc (last_writer p)..<length cs]"
    and "\<forall>i<length cs. is_done (objs ! i) \<longrightarrow> i < Suc (last_writer p) \<and> writer_status (objs ! i) = OK"
proof -
  let ?l = "last_writer p"
  have l: "k \<le> ?l" "?l < length cs" using p by (simp_all add: pending_ok_def)
  have db: "writers db = [k..<length cs]" "length (writer_objs db) = length cs"
    "holds (writer_objs db) cs [k..<length cs]"
    "\<And>i. i < length cs \<Longrightarrow> is_done (writer_objs db ! i) \<Longrightarrow> i < k \<and> writer_status (writer_objs db ! i) = OK"
    using inv unfolding db_inv_def by auto
  from finish_group_upt [OF l, of "writer_objs db" k OK] obtain objs where
    objs: "finish_group k OK ?l [k..<length cs] (writer_objs db) = ([Suc ?l..<length cs], objs)" "length objs = length cs"
    "\<And>i. i < length cs \<Longrightarrow> batch (objs ! i) = batch (writer_objs db ! i) \<and> (if k \<le> i \<and> i \<le> ?l \<and> i \<noteq> k
      then is_done (objs ! i) \<and> writer_status (objs ! i) = OK else objs ! i = writer_objs db ! i)"
    using db(2) by auto
  show ?thesis
  proof (rule that [OF _ objs(2)])
    show "Write_finish OK ?l db = db\<lparr>writers := [Suc ?l..<length cs], writer_objs := objs\<rparr>"
      using l objs(1) by (simp add: Write_finish_def db(1))
    show "holds objs cs [Suc ?l..<length cs]" using db(3) objs(2,3) l by (auto simp: holds_def)
    show "\<forall>i<length cs. is_done (objs ! i) \<longrightarrow> i < Suc ?l \<and> writer_status (objs ! i) = OK"
    proof (intro allI impI)
      fix i assume i: "i < length cs" "is_done (objs ! i)"
      with objs(3) [OF i(1)] db(4) [OF i(1)] l show "i < Suc ?l \<and> writer_status (objs ! i) = OK"
        by (cases "k \<le> i \<and> i \<le> ?l \<and> i \<noteq> k") auto
    qed
  qed
qed

text \<open>A file whose bytes the writer can also force to the disk.\<close>

locale durable_file = append_file F written writable
  for F :: "'f writable_file" and written writable +
  assumes Sync: "writable f \<Longrightarrow> \<exists>f'. wf_Sync F f = (OK, f') \<and> writable f' \<and> written f' = written f"
begin

lemma log_pending:
  assumes inv: "db_inv written writable cs k gs db" and p: "pending_ok cs k db p"
  obtains w f where "AddRecord F (updates p) (log_state db) (logfile db) = (OK, w, f)" and "writable f"
    and "type_crc w = InitTypeCrc" and "written f = log_bytes 0 (log_batches 1 (gs @ [pending_group cs k p]))"
    and "\<forall>ds. log_bytes 0 (log_batches 1 (gs @ [pending_group cs k p]) @ ds) =
      log_bytes 0 (log_batches 1 (gs @ [pending_group cs k p])) @ log_bytes (block_offset w) ds"
proof -
  let ?old = "log_batches 1 gs"
  have old: "writable (logfile db)" "type_crc (log_state db) = InitTypeCrc" "written (logfile db) = log_bytes 0 ?old"
    "\<And>ds. log_bytes 0 (?old @ ds) = log_bytes 0 ?old @ log_bytes (block_offset (log_state db)) ds"
    "concat gs = concat (take k cs)" "LastSequence db = of_nat (length (concat (take k cs)))"
    using inv unfolding db_inv_def by blast+
  have new: "log_batches 1 (gs @ [pending_group cs k p]) = ?old @ [updates p]"
    using p old(5,6) by (simp add: log_batches_append pending_ok_def add.commute)
  have single: "add_records F [d] w f = AddRecord F d w f" for d w f by (simp split: prod.split)
  obtain w f where w: "AddRecord F (updates p) (log_state db) (logfile db) = (OK, w, f)" "type_crc w = InitTypeCrc"
    "writable f" "written f = written (logfile db) @ log_bytes (block_offset (log_state db)) [updates p]"
    "\<And>ds. log_bytes (block_offset (log_state db)) ([updates p] @ ds) =
      log_bytes (block_offset (log_state db)) [updates p] @ log_bytes (block_offset w) ds"
    using add_records_bytes [OF old(1,2), of "[updates p]"] unfolding single by blast
  show ?thesis
  proof (rule that [OF w(1,3,2)])
    show "written f = log_bytes 0 (log_batches 1 (gs @ [pending_group cs k p]))"
      unfolding new w(4) old(3,4) ..
    show "\<forall>ds. log_bytes 0 (log_batches 1 (gs @ [pending_group cs k p]) @ ds) =
        log_bytes 0 (log_batches 1 (gs @ [pending_group cs k p])) @ log_bytes (block_offset w) ds"
      unfolding new append_assoc old(4) w(5) by simp
  qed
qed

lemma Write_commit_group:
  assumes inv: "db_inv written writable cs k gs db" and ok: "calls_ok cs" and p: "pending_ok cs k db p"
  obtains db' where "Write_commit F BytewiseComparator p db = Some (OK, db')"
    and "db_inv written writable cs (Suc (last_writer p)) (gs @ [pending_group cs k p]) db'"
proof -
  let ?gs = "gs @ [pending_group cs k p]" and ?l = "last_writer p"
  have l: "k \<le> ?l" "?l < length cs" using p by (simp_all add: pending_ok_def)
  obtain w f where w: "AddRecord F (updates p) (log_state db) (logfile db) = (OK, w, f)" "writable f"
    "type_crc w = InitTypeCrc" "written f = log_bytes 0 (log_batches 1 ?gs)"
    "\<forall>ds. log_bytes 0 (log_batches 1 ?gs @ ds) = log_bytes 0 (log_batches 1 ?gs) @ log_bytes (block_offset w) ds"
    by (rule log_pending [OF inv p])
  obtain f1 where f1: "wf_Sync F f = (OK, f1)" "writable f1" "written f1 = written f" using Sync [OF w(2)] by blast
  define f2 where "f2 = (if sync (writer_objs db ! hd (writers db)) then f1 else f)"
  have f2: "writable f2" "written f2 = written f" using f1 w(2) by (simp_all add: f2_def)
  obtain m where m: "InsertInto BytewiseComparator (updates p) (mem db) = Some (OK, m)"
    "add_all BytewiseComparator (writes_of 1 (concat (take (Suc ?l) cs))) MemTable = Some m"
    by (rule InsertInto_pending [OF inv ok p])
  define db1 where "db1 = db\<lparr>log_state := w, logfile := f2, mem := m, LastSequence := last_sequence p\<rparr>"
  have commit: "Write_commit F BytewiseComparator p db = Some (OK, Write_finish OK ?l db1)"
    using w(1) f1(1) m(1) by (simp add: Write_commit_def db1_def f2_def Let_def)
  obtain objs where objs: "Write_finish OK ?l db = db\<lparr>writers := [Suc ?l..<length cs], writer_objs := objs\<rparr>"
    "length objs = length cs" "holds objs cs [Suc ?l..<length cs]"
    "\<forall>i<length cs. is_done (objs ! i) \<longrightarrow> i < Suc ?l \<and> writer_status (objs ! i) = OK"
    by (rule Write_finish_group [OF inv p])
  have db1: "Write_finish OK ?l db1 = db1\<lparr>writers := [Suc ?l..<length cs], writer_objs := objs\<rparr>"
    using arg_cong [OF objs(1), of writers] arg_cong [OF objs(1), of writer_objs]
    by (simp add: Write_finish_def db1_def split: prod.splits)
  have inv': "concat gs = concat (take k cs)" "LastSequence db = of_nat (length (concat (take k cs)))" "bg_error db = OK"
    "\<forall>g\<in>set ?gs. length g < 2 ^ 31"
    using inv p unfolding db_inv_def pending_ok_def by auto
  have "last_sequence p = of_nat (length (concat (take (Suc ?l) cs)))"
    using p inv'(2) by (simp add: take_pending [OF l(1)] pending_ok_def)
  moreover have "aligned ?gs (Suc ?l) cs"
    using aligned_commit [of gs k cs "Suc ?l" "pending_group cs k p"] inv inv'(1) l(1) take_pending [OF l(1), of cs]
    by (simp add: db_inv_def)
  ultimately have "db_inv written writable cs (Suc ?l) ?gs (Write_finish OK ?l db1)"
    unfolding db1 db_inv_def using l objs(2-4) w f2 m(2) inv' take_pending [OF l(1), of cs]
    by (simp add: db1_def)
  from commit this show ?thesis by (rule that)
qed

lemma db_inv_new: "writable f \<Longrightarrow> written f = [] \<Longrightarrow> db_inv written writable [] 0 [] (new_db f)"
  by (simp add: db_inv_def new_db_def holds_def Writer_def aligned_def)

text \<open>One step, in a state in which \<open>pending_ok\<close> holds of the group that is being logged.\<close>

lemma db_step_inv:
  assumes step: "db_step F usage wbs other (db, pn) l (db', pn')" and room: "\<forall>m. usage m \<le> wbs"
    and ok: "calls_ok (cs @ calls [l])" and inv: "db_inv written writable cs k gs db"
    and pending: "\<forall>p. pn = Some p \<longrightarrow> pending_ok cs k db p"
  shows "(\<exists>gs'. db_inv written writable (cs @ calls [l]) (k + finished [l]) (gs @ gs') db') \<and>
    (\<forall>p. pn' = Some p \<longrightarrow> pending_ok (cs @ calls [l]) (k + finished [l]) db' p) \<and>
    (\<forall>n s. l = Finished n s \<longrightarrow> s = OK)"
  using step
proof (cases rule: db_step.cases)
  case (db_call us sy)
  then have "\<forall>u\<in>set us. update_ok u" using ok by (simp add: calls_ok_def)
  from db_inv_call [OF inv this, of sy] db_call pending pending_ok_call show ?thesis
    by (intro conjI exI [of _ "[]"]) auto
next
  case (db_begin s p)
  then have "calls_ok cs" "usage (mem db) \<le> wbs" using ok room by simp_all
  from Write_begin_group [where usage = usage and wbs = wbs, OF inv this(1) db_begin(4) this(2)] obtain p' db'' where
    "Write_begin usage wbs other db = (OK, Some p', db'')" "db_inv written writable cs k gs db''" "pending_ok cs k db'' p'" .
  with db_begin show ?thesis by (intro conjI exI [of _ "[]"]) auto
next
  case (db_fail s)
  then have "calls_ok cs" "usage (mem db) \<le> wbs" using ok room by simp_all
  from Write_begin_group [where usage = usage and wbs = wbs, OF inv this(1) db_fail(4) this(2)] obtain p' db'' where
    "Write_begin usage wbs other db = (OK, Some p', db'')" .
  with db_fail(5) show ?thesis by simp
next
  case (db_commit p s)
  then have p: "pending_ok cs k db p" and "calls_ok cs" using ok pending by simp_all
  from Write_commit_group [OF inv this(2,1)] obtain db'' where
    db'': "Write_commit F BytewiseComparator p db = Some (OK, db'')"
    "db_inv written writable cs (Suc (last_writer p)) (gs @ [pending_group cs k p]) db''" .
  with db_commit have eq: "s = OK" "db' = db''" by simp_all
  have "length (writers db) = length cs - k" "length (writers db'') = length cs - Suc (last_writer p)"
    using inv db''(2) by (simp_all add: db_inv_def)
  with p have "k + (length (writers db) - length (writers db'')) = Suc (last_writer p)" by (simp add: pending_ok_def)
  with db_commit(1-3) eq db''(2) show ?thesis by (intro conjI exI [of _ "[pending_group cs k p]"]) auto
qed

lemma db_run_inv:
  assumes "db_run F usage wbs other st tr st'" and "db_inv written writable cs k gs (fst st)"
    and "\<forall>p. snd st = Some p \<longrightarrow> pending_ok cs k (fst st) p" and room: "\<forall>m. usage m \<le> wbs" and "calls_ok (cs @ calls tr)"
  shows "(\<exists>gs'. db_inv written writable (cs @ calls tr) (k + finished tr) (gs @ gs') (fst st')) \<and>
    (\<forall>p. snd st' = Some p \<longrightarrow> pending_ok (cs @ calls tr) (k + finished tr) (fst st') p) \<and>
    (\<forall>n s. Finished n s \<in> set tr \<longrightarrow> s = OK)"
  using assms(1-3,5)
proof (induction rule: db_run.induct)
  case (db_run_Nil s)
  then show ?case by (intro conjI exI [of _ "[]"]) auto
next
  case (db_run_snoc s tr s' l s'')
  obtain db pn db' pn' where s: "s' = (db, pn)" "s'' = (db', pn')" by (cases s'; cases s'')
  have ok: "calls_ok ((cs @ calls tr) @ calls [l])" using db_run_snoc.prems(3) by (simp add: calls_append)
  then have "calls_ok (cs @ calls tr)" by (auto simp: calls_ok_def)
  from db_run_snoc.IH [OF db_run_snoc.prems(1,2) this] s obtain gs1 where
    IH: "db_inv written writable (cs @ calls tr) (k + finished tr) (gs @ gs1) db"
    "\<forall>p. pn = Some p \<longrightarrow> pending_ok (cs @ calls tr) (k + finished tr) db p"
    "\<forall>n s. Finished n s \<in> set tr \<longrightarrow> s = OK" by auto
  from db_step_inv [OF db_run_snoc.hyps(2) [unfolded s] room ok IH(1,2)] obtain gs2 where
    step: "db_inv written writable ((cs @ calls tr) @ calls [l]) (k + finished tr + finished [l]) ((gs @ gs1) @ gs2) db'"
    "\<forall>p. pn' = Some p \<longrightarrow> pending_ok ((cs @ calls tr) @ calls [l]) (k + finished tr + finished [l]) db' p"
    "\<forall>n s. l = Finished n s \<longrightarrow> s = OK" by blast
  note step(1,2) [unfolded append_assoc add.assoc]
  with step(3) IH(3) show ?case unfolding calls_append finished_append s by auto
qed

lemma db_run_new:
  assumes "db_run F usage wbs other (new_db f, None) tr (db, pn)" and "writable f" and "written f = []"
    and "\<forall>m. usage m \<le> wbs" and "calls_ok (calls tr)"
  obtains gs where "db_inv written writable (calls tr) (finished tr) gs db"
    and "\<forall>p. pn = Some p \<longrightarrow> pending_ok (calls tr) (finished tr) db p" and "\<forall>n s. Finished n s \<in> set tr \<longrightarrow> s = OK"
  using db_run_inv [OF assms(1), of "[]" 0 "[]"] db_inv_new [OF assms(2,3)] assms(4,5) by auto

text \<open>The writer at the head of the queue finishes at least its own call, once it may go on.\<close>

lemma db_drain_None:
  assumes "db_inv written writable cs k gs db" and "calls_ok cs" and room: "\<forall>m. usage m \<le> wbs"
  shows "\<exists>tr' db'. db_run F usage wbs other (db, None) tr' (db', None) \<and> calls tr' = [] \<and> writers db' = []"
  using assms(1)
proof (induction "length cs - k" arbitrary: k gs db rule: less_induct)
  case less
  show ?case
  proof (cases "writers db = []")
    case True
    then show ?thesis using db_run_Nil by (intro exI [of _ "[]"] exI [of _ db]) auto
  next
    case False
    obtain p db1 where p: "Write_begin usage wbs other db = (OK, Some p, db1)" "db_inv written writable cs k gs db1"
      "pending_ok cs k db1 p"
      using Write_begin_group [where usage = usage and wbs = wbs, OF less.prems assms(2) False] room by metis
    obtain db2 where db2: "Write_commit F BytewiseComparator p db1 = Some (OK, db2)"
      "db_inv written writable cs (Suc (last_writer p)) (gs @ [pending_group cs k p]) db2"
      using Write_commit_group [OF p(2) assms(2) p(3)] .
    have "k \<le> last_writer p" "last_writer p < length cs" using p(3) by (simp_all add: pending_ok_def)
    then have "length cs - Suc (last_writer p) < length cs - k" by linarith
    from less.hyps [OF this db2(2)] obtain tr' db' where
      tr': "db_run F usage wbs other (db2, None) tr' (db', None)" "calls tr' = []" "writers db' = []" by blast
    from db_run_append [OF tr'(1) db_run_snoc [OF db_run_single [OF db_begin [OF False p(1)]] db_commit [OF db2(1)]]] tr'(2,3)
    show ?thesis by (intro exI conjI) (assumption, simp_all)
  qed
qed

lemma db_drain:
  assumes "db_inv written writable cs k gs db" and "calls_ok cs" and room: "\<forall>m. usage m \<le> wbs"
    and "\<forall>p. pn = Some p \<longrightarrow> pending_ok cs k db p"
  shows "\<exists>tr' db'. db_run F usage wbs other (db, pn) tr' (db', None) \<and> calls tr' = [] \<and> writers db' = []"
proof (cases pn)
  case None
  with db_drain_None [OF assms(1-3)] show ?thesis by simp
next
  case (Some p)
  then have p: "pending_ok cs k db p" using assms(4) by simp
  obtain db2 where db2: "Write_commit F BytewiseComparator p db = Some (OK, db2)"
    "db_inv written writable cs (Suc (last_writer p)) (gs @ [pending_group cs k p]) db2"
    using Write_commit_group [OF assms(1,2) p] .
  obtain tr' db' where
    tr': "db_run F usage wbs other (db2, None) tr' (db', None)" "calls tr' = []" "writers db' = []"
    using db_drain_None [OF db2(2) assms(2) room, of other] by blast
  from db_run_append [OF tr'(1) db_run_single [OF db_commit [OF db2(1)]]] tr'(2,3) Some
  show ?thesis by (intro exI conjI) (simp, simp_all)
qed

end

interpretation mem_sync: durable_file "WritableFileImpl a" "mem_written a" "mem_writable a" for a
  by unfold_locales (simp add: WritableFileImpl_def)

lemma db_inv_reads:
  assumes "db_inv written writable cs k gs db" and "calls_ok cs" and "length ukey + 8 < 2 ^ 32" and "s \<le> kMaxSequenceNumber"
  shows "MemTable_Get BytewiseComparator ukey s (mem db) = Some (visible (writes_of 1 (concat (take k cs))) ukey s)"
proof -
  obtain m where "add_all BytewiseComparator (writes_of 1 (concat (take k cs))) MemTable = Some m"
    "MemTable_Get BytewiseComparator ukey s m = Some (visible (writes_of 1 (concat (take k cs))) ukey s)"
    using add_all_updates [OF calls_updates [OF assms(2)], of k] assms(3,4) by metis
  with assms(1) show ?thesis by (simp add: db_inv_def)
qed

section \<open>Properties\<close>



text \<open>Two threads have called \<open>Write\<close>, the second one with two updates.\<close>

definition example_calls :: "mem_env db_impl" where
  "example_calls =
     Write_call (Some (fold apply_update [BDelete (str ''k''), BPut (str ''l'') []] WriteBatch_Clear)) True
       (Write_call (Some (fold apply_update [BPut (str ''k'') (str ''v'')] WriteBatch_Clear)) False (new_db (example_env [])))"

abbreviation example_trace :: "db_label list" where
  "example_trace \<equiv> [Called [BPut (str ''k'') (str ''v'')], Called [BDelete (str ''k''), BPut (str ''l'') []]]"

lemma example_run:
  "db_run (WritableFileImpl 0) (\<lambda>_. 0) 1 (\<lambda>_ db. (OK, db)) (new_db (example_env []), None) example_trace (example_calls, None)"
  unfolding example_calls_def by (rule db_run_snoc [OF db_run_single [OF db_call] db_call, unfolded append.simps])

lemma example_room: "\<forall>m :: mem_table. (0 :: nat) \<le> 1"
  by simp

lemma example_calls_ok: "calls_ok (calls example_trace)"
  by (simp add: calls_ok_def)


lemma example_finished:
  obtains tr db where "db_run (WritableFileImpl 0) (\<lambda>_. 0) 1 (\<lambda>_ db. (OK, db)) (new_db (example_env []), None) tr (db, None)"
    and "calls tr = calls example_trace" and "writers db = []"
proof -
  obtain gs where "db_inv (mem_written 0) (mem_writable 0) (calls example_trace) (finished example_trace) gs example_calls"
    using mem_sync.db_run_new [OF example_run example_env_ok(1,3) example_room example_calls_ok] .
  from mem_sync.db_drain_None [OF this example_calls_ok, of "\<lambda>_. 0" 1 "\<lambda>_ db. (OK, db)"] obtain tr db where
    tr: "db_run (WritableFileImpl 0) (\<lambda>_. 0) 1 (\<lambda>_ db. (OK, db)) (example_calls, None) tr (db, None)" "calls tr = []"
      "writers db = []" by auto
  show ?thesis by (rule that [OF db_run_append [OF tr(1) example_run] _ tr(3)]) (simp add: tr(2))
qed


end
