(* ===== verification/Ldb_Filename.thy ===== *)
theory Ldb_Filename
  imports Ldb_Log
begin

text \<open>
  The names of the files of a database (\<open>db/filename.cc\<close>), the decimal numbers in them (\<open>util/logging.cc\<close>), and the
  file \<open>CURRENT\<close> that says which manifest is in use, written with the functions of \<open>util/env.cc\<close>. The buffers that
  \<open>snprintf\<close> writes to are longer than every name. The assertions that numbers are positive are not needed.
\<close>

section \<open>Decimal numbers\<close>

definition digit :: "byte \<Rightarrow> bool" where
  "digit c \<longleftrightarrow> 48 \<le> c \<and> c \<le> 57"

definition kMaxUint64 :: u64 where
  "kMaxUint64 = NOT 0"

text \<open>The loop of \<open>ConsumeDecimalNumber\<close>: the number and the count of digits, or \<open>None\<close> at an overflow.\<close>

fun consume_loop :: "bytes \<Rightarrow> u64 \<Rightarrow> nat \<Rightarrow> (u64 \<times> nat) option \<times> bytes" where
  "consume_loop [] v digits = (Some (v, digits), [])"
| "consume_loop (c # cs) v digits =
     (if digit c then
        let delta = ucast (c - 48)
        in if v > kMaxUint64 div 10 \<or> v = kMaxUint64 div 10 \<and> delta > kMaxUint64 mod 10 then (None, c # cs)
           else consume_loop cs (v * 10 + delta) (digits + 1)
      else (Some (v, digits), c # cs))"

text \<open>The result, the new value of \<open>*val\<close> when it is set, and the rest of the slice.\<close>

definition ConsumeDecimalNumber :: "bytes \<Rightarrow> bool \<times> u64 option \<times> bytes" where
  "ConsumeDecimalNumber cs =
     (case consume_loop cs 0 0 of
        (None, rest) \<Rightarrow> (False, None, rest)
      | (Some (v, digits), rest) \<Rightarrow> (digits > 0, Some v, rest))"

definition AppendNumberTo :: "bytes \<Rightarrow> u64 \<Rightarrow> bytes" where
  "AppendNumberTo s num = s @ str (decimal (unat num))"

definition NumberToString :: "u64 \<Rightarrow> bytes" where
  "NumberToString num = AppendNumberTo [] num"

section \<open>Names\<close>

datatype FileType = kLogFile | kDBLockFile | kTableFile | kDescriptorFile | kCurrentFile | kTempFile | kInfoLogFile

text \<open>\<open>%06llu\<close>\<close>

definition decimal6 :: "u64 \<Rightarrow> bytes" where
  "decimal6 n = str (replicate (6 - length (decimal (unat n))) (CHR ''0'') @ decimal (unat n))"

definition MakeFileName :: "bytes \<Rightarrow> u64 \<Rightarrow> string \<Rightarrow> bytes" where
  "MakeFileName name number suffix = name @ str ''/'' @ decimal6 number @ str ''.'' @ str suffix"

definition LogFileName :: "bytes \<Rightarrow> u64 \<Rightarrow> bytes" where
  "LogFileName name number = MakeFileName name number ''log''"

definition TableFileName :: "bytes \<Rightarrow> u64 \<Rightarrow> bytes" where
  "TableFileName name number = MakeFileName name number ''ldb''"

definition SSTTableFileName :: "bytes \<Rightarrow> u64 \<Rightarrow> bytes" where
  "SSTTableFileName name number = MakeFileName name number ''sst''"

definition DescriptorFileName :: "bytes \<Rightarrow> u64 \<Rightarrow> bytes" where
  "DescriptorFileName dbname number = dbname @ str ''/MANIFEST-'' @ decimal6 number"

definition CurrentFileName :: "bytes \<Rightarrow> bytes" where
  "CurrentFileName dbname = dbname @ str ''/CURRENT''"

definition LockFileName :: "bytes \<Rightarrow> bytes" where
  "LockFileName dbname = dbname @ str ''/LOCK''"

definition TempFileName :: "bytes \<Rightarrow> u64 \<Rightarrow> bytes" where
  "TempFileName dbname number = MakeFileName dbname number ''dbtmp''"

definition InfoLogFileName :: "bytes \<Rightarrow> bytes" where
  "InfoLogFileName dbname = dbname @ str ''/LOG''"

definition OldInfoLogFileName :: "bytes \<Rightarrow> bytes" where
  "OldInfoLogFileName dbname = dbname @ str ''/LOG.old''"

definition slice_starts_with :: "bytes \<Rightarrow> bytes \<Rightarrow> bool" where
  "slice_starts_with s x \<longleftrightarrow> length x \<le> length s \<and> take (length x) s = x"

definition ParseFileName :: "bytes \<Rightarrow> (u64 \<times> FileType) option" where
  "ParseFileName fname =
     (if fname = str ''CURRENT'' then Some (0, kCurrentFile)
      else if fname = str ''LOCK'' then Some (0, kDBLockFile)
      else if fname = str ''LOG'' \<or> fname = str ''LOG.old'' then Some (0, kInfoLogFile)
      else if slice_starts_with fname (str ''MANIFEST-'') then
        let (ok, num, rest) = ConsumeDecimalNumber (drop (length ''MANIFEST-'') fname)
        in if \<not> ok then None else if rest \<noteq> [] then None else Some (the num, kDescriptorFile)
      else
        let (ok, num, suffix) = ConsumeDecimalNumber fname
        in if \<not> ok then None
           else if suffix = str ''.log'' then Some (the num, kLogFile)
           else if suffix = str ''.sst'' \<or> suffix = str ''.ldb'' then Some (the num, kTableFile)
           else if suffix = str ''.dbtmp'' then Some (the num, kTempFile)
           else None)"

section \<open>The current manifest\<close>

definition DoWriteStringToFile :: "bytes \<Rightarrow> bytes \<Rightarrow> bool \<Rightarrow> mem_env \<Rightarrow> status \<times> mem_env" where
  "DoWriteStringToFile data fname should_sync e =
     (let (s, a, e) = NewWritableFile fname e; F = WritableFileImpl a
      in if s \<noteq> OK then (s, e)
         else
           let (s, e) = wf_Append F data e;
               (s, e) = (if s = OK \<and> should_sync then wf_Sync F e else (s, e));
               (s, e) = (if s = OK then wf_Close F e else (s, e))
           in (s, if s \<noteq> OK then snd (env_DeleteFile fname e) else e))"

definition WriteStringToFile :: "bytes \<Rightarrow> bytes \<Rightarrow> mem_env \<Rightarrow> status \<times> mem_env" where
  "WriteStringToFile data fname e = DoWriteStringToFile data fname False e"

definition WriteStringToFileSync :: "bytes \<Rightarrow> bytes \<Rightarrow> mem_env \<Rightarrow> status \<times> mem_env" where
  "WriteStringToFileSync data fname e = DoWriteStringToFile data fname True e"

text \<open>The loop of \<open>ReadFileToString\<close>, which ends with the file.\<close>

partial_function (option) read_file_loop :: "'f sequential_file \<Rightarrow> bytes \<Rightarrow> 'f \<Rightarrow> (status \<times> bytes) option" where
  "read_file_loop F data f =
     (let (s, fragment, f) = sf_Read F 8192 f
      in if s \<noteq> OK then Some (s, data)
         else if fragment = [] then Some (s, data)
         else read_file_loop F (data @ fragment) f)"

text \<open>\<open>None\<close> also when the directory holds a null pointer, which is dereferenced.\<close>

definition ReadFileToString :: "bytes \<Rightarrow> mem_env \<Rightarrow> (status \<times> bytes) option" where
  "ReadFileToString fname e =
     (let (s, p) = NewSequentialFile fname e
      in if s \<noteq> OK then Some (s, [])
         else case p of None \<Rightarrow> None | Some a \<Rightarrow> read_file_loop (SequentialFileImpl a) [] (e, 0))"

definition SetCurrentFile :: "bytes \<Rightarrow> u64 \<Rightarrow> mem_env \<Rightarrow> status \<times> mem_env" where
  "SetCurrentFile dbname descriptor_number e =
     (let manifest = DescriptorFileName dbname descriptor_number;
          data = drop (length dbname + 1) manifest;
          tmp = TempFileName dbname descriptor_number;
          (s, e) = WriteStringToFileSync (data @ [10]) tmp e;
          (s, e) = (if s = OK then env_RenameFile tmp (CurrentFileName dbname) e else (s, e))
      in (s, if s \<noteq> OK then snd (env_DeleteFile tmp e) else e))"

section \<open>Reading numbers\<close>

definition dec_value :: "nat \<Rightarrow> bytes \<Rightarrow> nat" where
  "dec_value = foldl (\<lambda>v c. 10 * v + unat (c - 48))"

lemma dec_value_Cons [simp]: "dec_value v (c # cs) = dec_value (10 * v + unat (c - 48)) cs"
  and dec_value_Nil [simp]: "dec_value v [] = v"
  and dec_value_append: "dec_value v (cs @ ds) = dec_value (dec_value v cs) ds"
  by (simp_all add: dec_value_def)

lemma dec_value_ge: "v \<le> dec_value v cs"
proof (induction cs arbitrary: v)
  case (Cons c cs)
  from Cons [of "10 * v + unat (c - 48)"] show ?case by simp
qed simp

lemma digit_value:
  assumes "digit c"
  shows "unat (c - 48) \<le> 9"
proof -
  have "48 \<le> unat c" "unat c \<le> 57" using assms by (simp_all add: digit_def word_le_nat_alt)
  moreover have "unat (c - 48) = unat c - 48" using assms by (simp add: digit_def unat_sub)
  ultimately show ?thesis by simp
qed

lemma unat_kMax: "unat (kMaxUint64 div 10) = 1844674407370955161" "unat (kMaxUint64 mod 10) = 5"
  by (simp_all add: kMaxUint64_def)

lemma overflow_iff:
  assumes "digit c"
  shows "(v > kMaxUint64 div 10 \<or> v = kMaxUint64 div 10 \<and> ucast (c - 48) > kMaxUint64 mod 10) \<longleftrightarrow>
    2 ^ 64 \<le> 10 * unat v + unat (c - 48)"
proof -
  have d: "unat (ucast (c - 48) :: u64) = unat (c - 48)"
    using byte_unat_lt [of "c - 48"] by (simp add: unsigned_ucast_eq take_bit_nat_eq_self del: byte_unat_lt)
  show ?thesis unfolding word_less_nat_alt word_unat_eq_iff unat_kMax d using digit_value [OF assms] by simp linarith
qed

lemma consume_loop_digit:
  assumes "digit c"
  shows "consume_loop (c # cs) v n =
    (if 2 ^ 64 \<le> 10 * unat v + unat (c - 48) then (None, c # cs)
     else consume_loop cs (of_nat (10 * unat v + unat (c - 48))) (n + 1))"
proof -
  have "of_nat (10 * unat v + unat (c - 48)) = v * 10 + ucast (c - 48)"
    by (simp add: of_nat_unat mult.commute)
  with assms show ?thesis by (simp only: consume_loop.simps Let_def overflow_iff [OF assms] if_True)
qed

declare consume_loop.simps(2) [simp del]

lemma consume_loop_digits:
  assumes "\<forall>c\<in>set ds. digit c" and "rest = [] \<or> \<not> digit (hd rest)"
  shows "if dec_value (unat v) ds < 2 ^ 64
    then consume_loop (ds @ rest) v n = (Some (of_nat (dec_value (unat v) ds), n + length ds), rest)
    else fst (consume_loop (ds @ rest) v n) = None"
  using assms(1)
proof (induction ds arbitrary: v n)
  case Nil
  have "consume_loop rest v n = (Some (v, n), rest)"
    using assms(2) by (cases rest) (simp_all add: consume_loop.simps)
  then show ?case using unsigned_less [of v, where ?'a = nat] by simp
next
  case (Cons c ds)
  let ?w = "10 * unat v + unat (c - 48)"
  have c: "digit c" using Cons.prems by simp
  show ?case
  proof (cases "2 ^ 64 \<le> ?w")
    case True
    then have "\<not> dec_value ?w ds < 2 ^ 64" using dec_value_ge [of ?w ds] by linarith
    with True show ?thesis by (simp add: consume_loop_digit [OF c])
  next
    case False
    obtain x :: u64 where x: "x = of_nat ?w" by simp
    then have w: "unat x = ?w" using False unfolding x unat_of_nat by simp
    have "consume_loop ((c # ds) @ rest) v n = consume_loop (ds @ rest) x (n + 1)"
      using False unfolding append_Cons consume_loop_digit [OF c] x by (simp only: if_False)
    with Cons.IH [of x "n + 1"] Cons.prems show ?thesis
      unfolding dec_value_Cons w [symmetric] by (simp split: if_splits)
  qed
qed

lemma ConsumeDecimalNumber_digits:
  assumes "\<forall>c\<in>set ds. digit c" and "ds \<noteq> []" and "rest = [] \<or> \<not> digit (hd rest)" and "dec_value 0 ds < 2 ^ 64"
  shows "ConsumeDecimalNumber (ds @ rest) = (True, Some (of_nat (dec_value 0 ds)), rest)"
  using consume_loop_digits [OF assms(1,3), of 0 0] assms(2,4) by (simp add: ConsumeDecimalNumber_def)

lemma byte_of_char_of: "of_char (char_of (n :: nat)) = (of_nat (n mod 256) :: byte)"
  using of_char_of [of n] by (metis of_nat_of_char)

lemma decimal_char:
  assumes "n < 10"
  shows "digit (of_char (char_of (48 + n)))" and "unat (of_char (char_of (48 + n)) - 48 :: byte) = n"
proof -
  have "(48 + n) mod 256 = 48 + n" using assms by simp
  then have c: "of_char (char_of (48 + n)) = (of_nat (48 + n) :: byte)" unfolding byte_of_char_of by (rule arg_cong)
  have u: "unat (of_nat (48 + n) :: byte) = 48 + n" using assms unfolding unat_of_nat by simp
  have le: "(48 :: byte) \<le> of_nat (48 + n)" unfolding word_le_nat_alt u by simp
  with assms show "digit (of_char (char_of (48 + n)))" unfolding c digit_def word_le_nat_alt u by simp
  show "unat (of_char (char_of (48 + n)) - 48 :: byte) = n" unfolding c unat_sub [OF le] u by simp
qed

lemma decimal_str:
  "(\<forall>c\<in>set (str (decimal n)). digit c) \<and> str (decimal n) \<noteq> [] \<and> dec_value 0 (str (decimal n)) = n"
proof (induction n rule: decimal.induct)
  case (1 n)
  show ?case
  proof (cases "n < 10")
    case True
    then have "str (decimal n) = [of_char (char_of (48 + n))]" by (subst decimal.simps) simp
    with decimal_char [OF True] show ?thesis by simp
  next
    case False
    then have "str (decimal n) = str (decimal (n div 10)) @ [of_char (char_of (48 + n mod 10))]"
      by (subst decimal.simps) (simp add: str_def)
    with decimal_char [of "n mod 10"] 1 [OF False] show ?thesis by (simp add: dec_value_append)
  qed
qed

lemma dec_value_zeros: "dec_value 0 (replicate k 48 @ ds) = dec_value 0 ds"
  by (induction k) simp_all

lemma decimal6_digits:
  "\<forall>c\<in>set (decimal6 n). digit c" "decimal6 n \<noteq> []" "dec_value 0 (decimal6 n) = unat n"
proof -
  have "decimal6 n = replicate (6 - length (decimal (unat n))) 48 @ str (decimal (unat n))"
    by (simp add: decimal6_def str_def)
  with decimal_str [of "unat n"] show "\<forall>c\<in>set (decimal6 n). digit c" "decimal6 n \<noteq> []" "dec_value 0 (decimal6 n) = unat n"
    by (auto simp: dec_value_zeros digit_def)
qed

lemma ConsumeDecimalNumber_decimal6:
  assumes "rest = [] \<or> \<not> digit (hd rest)"
  shows "ConsumeDecimalNumber (decimal6 n @ rest) = (True, Some n, rest)"
  using ConsumeDecimalNumber_digits [OF decimal6_digits(1,2) assms, of n] unsigned_less [of n, where ?'a = nat]
  by (simp add: decimal6_digits(3))

text \<open>A name that starts with a digit is none of the names without a number.\<close>

lemma ParseFileName_digit:
  assumes "digit (hd s)" and "s \<noteq> []"
  shows "ParseFileName s =
    (let (ok, num, suffix) = ConsumeDecimalNumber s
     in if \<not> ok then None
        else if suffix = str ''.log'' then Some (the num, kLogFile)
        else if suffix = str ''.sst'' \<or> suffix = str ''.ldb'' then Some (the num, kTableFile)
        else if suffix = str ''.dbtmp'' then Some (the num, kTempFile)
        else None)"
  using assms by (cases s) (auto simp: ParseFileName_def digit_def slice_starts_with_def)

lemma ParseFileName_number:
  "ParseFileName (drop (length db + 1) (MakeFileName db n suffix)) =
    (let suffix = str (CHR ''.'' # suffix)
     in if suffix = str ''.log'' then Some (n, kLogFile)
        else if suffix = str ''.sst'' \<or> suffix = str ''.ldb'' then Some (n, kTableFile)
        else if suffix = str ''.dbtmp'' then Some (n, kTempFile)
        else None)"
proof -
  obtain s where s: "s = str (CHR ''.'' # suffix)" by simp
  have "drop (length db + 1) (MakeFileName db n suffix) = decimal6 n @ s" by (simp add: MakeFileName_def s)
  moreover have "ConsumeDecimalNumber (decimal6 n @ s) = (True, Some n, s)"
    by (rule ConsumeDecimalNumber_decimal6) (simp add: s digit_def)
  moreover have "digit (hd (decimal6 n @ s))" using decimal6_digits(1,2) [of n] by simp
  ultimately show ?thesis
    using ParseFileName_digit [of "decimal6 n @ s"] decimal6_digits(2) [of n] by (simp only: s [symmetric]) (simp del: str_Cons)
qed

lemma ParseFileName_manifest: "ParseFileName (str ''MANIFEST-'' @ decimal6 n) = Some (n, kDescriptorFile)"
  using ConsumeDecimalNumber_decimal6 [of "[]" n] by (simp add: ParseFileName_def slice_starts_with_def)

section \<open>Reading and writing files\<close>

lemma read_file_loop_all:
  assumes "mem_readable a f"
  shows "read_file_loop (SequentialFileImpl a) data f = Some (OK, data @ mem_rest a f)"
  using assms
proof (induction "length (mem_rest a f)" arbitrary: data f rule: less_induct)
  case less
  obtain f' where f': "sf_Read (SequentialFileImpl a) 8192 f = (OK, take 8192 (mem_rest a f), f')" "mem_readable a f'"
    "mem_rest a f' = drop 8192 (mem_rest a f)"
    using mem_read.Read [OF less.prems, of 8192] by blast
  show ?case
  proof (cases "mem_rest a f = []")
    case True
    with f'(1) show ?thesis by (subst read_file_loop.simps) simp
  next
    case False
    then have "length (mem_rest a f') < length (mem_rest a f)" unfolding f'(3) by simp
    from less.hyps [OF this f'(2), of "data @ take 8192 (mem_rest a f)"] False f'(1,3) show ?thesis
      by (subst read_file_loop.simps) simp
  qed
qed

lemma ReadFileToString_found:
  assumes "map_find (file_map e) fname = Some (Some a)" and "file_ok (file_at a e)"
  shows "ReadFileToString fname e = Some (OK, mem_written a e)"
proof -
  have "mem_readable a (e, 0)" "mem_rest a (e, 0) = mem_written a e"
    using assms(2) by (simp_all add: mem_readable_def mem_rest_def mem_written_def)
  with read_file_loop_all [OF this(1), of "[]"] assms(1) show ?thesis
    by (simp add: ReadFileToString_def NewSequentialFile_def)
qed

lemma DoWriteStringToFile_new:
  obtains a e' where "DoWriteStringToFile data fname sy e = (OK, e')" and "map_find (file_map e') fname = Some (Some a)"
    and "file_ok (file_at a e')" and "mem_written a e' = data"
    and "\<And>f. f \<noteq> fname \<Longrightarrow> map_find (file_map e') f = map_find (file_map e) f"
    and "\<And>b. b < length (file_states e) \<Longrightarrow> b \<noteq> a \<and> file_at b e' = file_at b e"
proof -
  obtain s a e1 where e1: "NewWritableFile fname e = (s, a, e1)" by (cases "NewWritableFile fname e")
  note new = NewWritableFile_found [OF e1]
  define e' where "e' = e1\<lparr>file_states := (file_states e1)[a := FileState_Append data (file_at a e1)]\<rparr>"
  have "DoWriteStringToFile data fname sy e = (OK, e')"
    using e1 new(1) by (simp add: DoWriteStringToFile_def WritableFileImpl_def e'_def Let_def)
  moreover have "map_find (file_map e') fname = Some (Some a)" using new(2) by (simp add: e'_def)
  moreover have "file_ok (file_at a e')" "mem_written a e' = data"
    using new(3,4) FileState_Append_contents [OF FileState_ok(1), of data]
    by (simp_all add: e'_def file_at_def mem_written_def FileState_ok)
  moreover have "map_find (file_map e') f = map_find (file_map e) f" if "f \<noteq> fname" for f
    using e1 that by (auto simp: NewWritableFile_def DeleteFileInternal_def e'_def Let_def)
  moreover have "b \<noteq> a \<and> file_at b e' = file_at b e" if "b < length (file_states e)" for b
    using e1 that
    by (auto simp: NewWritableFile_def DeleteFileInternal_def e'_def Let_def file_at_def nth_append split: if_splits)
  ultimately show ?thesis by (rule that)
qed

lemma temp_not_current: "TempFileName db n \<noteq> CurrentFileName db"
proof
  assume "TempFileName db n = CurrentFileName db"
  then have "hd (decimal6 n @ str ''.dbtmp'') = 67" by (simp add: TempFileName_def MakeFileName_def CurrentFileName_def)
  moreover have "digit (hd (decimal6 n))" "decimal6 n \<noteq> []" using decimal6_digits(1,2) [of n] by simp_all
  ultimately show False by (simp add: digit_def)
qed

section \<open>Properties\<close>

text \<open>
  C38: a decimal number is read exactly when it fits into 64 bits: every number of any length below \<open>2^64\<close>, leading
  zeros included, is returned with the bytes after it, and every number from \<open>2^64\<close> on is refused.
\<close>

theorem decimal_bounds:
  assumes "\<forall>c\<in>set ds. digit c" and "ds \<noteq> []" and "rest = [] \<or> \<not> digit (hd rest)"
  shows "(dec_value 0 ds < 2 ^ 64 \<longrightarrow>
      (\<exists>v. ConsumeDecimalNumber (ds @ rest) = (True, Some v, rest) \<and> unat v = dec_value 0 ds)) \<and>
    (2 ^ 64 \<le> dec_value 0 ds \<longrightarrow> \<not> fst (ConsumeDecimalNumber (ds @ rest)))"
  using consume_loop_digits [OF assms(1,3), of 0 0] assms(2)
  by (auto simp: ConsumeDecimalNumber_def unat_of_nat split: if_splits prod.split)

text \<open>
  C39: the name of every file of a database is parsed back to its kind and its number, for all numbers of 64 bits.
\<close>

theorem file_names_parse:
  "ParseFileName (drop (length db + 1) (LogFileName db n)) = Some (n, kLogFile) \<and>
   ParseFileName (drop (length db + 1) (TableFileName db n)) = Some (n, kTableFile) \<and>
   ParseFileName (drop (length db + 1) (SSTTableFileName db n)) = Some (n, kTableFile) \<and>
   ParseFileName (drop (length db + 1) (TempFileName db n)) = Some (n, kTempFile) \<and>
   ParseFileName (drop (length db + 1) (DescriptorFileName db n)) = Some (n, kDescriptorFile) \<and>
   ParseFileName (drop (length db + 1) (CurrentFileName db)) = Some (0, kCurrentFile) \<and>
   ParseFileName (drop (length db + 1) (LockFileName db)) = Some (0, kDBLockFile) \<and>
   ParseFileName (drop (length db + 1) (InfoLogFileName db)) = Some (0, kInfoLogFile) \<and>
   ParseFileName (drop (length db + 1) (OldInfoLogFileName db)) = Some (0, kInfoLogFile)"
  unfolding LogFileName_def TableFileName_def SSTTableFileName_def TempFileName_def ParseFileName_number
  using ParseFileName_manifest [of n]
  by (simp add: DescriptorFileName_def CurrentFileName_def LockFileName_def InfoLogFileName_def OldInfoLogFileName_def)
    (simp add: ParseFileName_def)

text \<open>
  C40: after \<open>SetCurrentFile\<close> the file \<open>CURRENT\<close> holds the name of the manifest and a newline, the temporary file is gone,
  and all other files are as they were.
\<close>

theorem current_names_manifest:
  "\<exists>e'. SetCurrentFile db n e = (OK, e') \<and>
    (\<exists>name. ReadFileToString (CurrentFileName db) e' = Some (OK, name @ [10]) \<and>
      ParseFileName name = Some (n, kDescriptorFile) \<and> db @ str ''/'' @ name = DescriptorFileName db n) \<and>
    \<not> FileExists (TempFileName db n) e' \<and>
    (\<forall>f. f \<noteq> TempFileName db n \<longrightarrow> f \<noteq> CurrentFileName db \<longrightarrow> map_find (file_map e') f = map_find (file_map e) f) \<and>
    (\<forall>a < length (file_states e). file_at a e' = file_at a e)"
proof -
  let ?tmp = "TempFileName db n" and ?name = "str ''MANIFEST-'' @ decimal6 n"
  obtain a e1 where e1: "DoWriteStringToFile (?name @ [10]) ?tmp True e = (OK, e1)"
    "map_find (file_map e1) ?tmp = Some (Some a)" "file_ok (file_at a e1)" "mem_written a e1 = ?name @ [10]"
    "\<And>f. f \<noteq> ?tmp \<Longrightarrow> map_find (file_map e1) f = map_find (file_map e) f"
    "\<And>b. b < length (file_states e) \<Longrightarrow> b \<noteq> a \<and> file_at b e1 = file_at b e"
    using DoWriteStringToFile_new [of "?name @ [10]" ?tmp True e] by metis
  define e' where "e' = snd (env_RenameFile ?tmp (CurrentFileName db) e1)"
  note ne = temp_not_current [of db n]
  have e': "env_RenameFile ?tmp (CurrentFileName db) e1 = (OK, e')" "file_states e' = file_states e1"
    "map_find (file_map e') f = (if f = ?tmp then None else if f = CurrentFileName db then Some (Some a)
       else map_find (file_map e1) f)" for f
    using e1(2) ne by (auto simp: e'_def env_RenameFile_def DeleteFileInternal_def Let_def)
  have "SetCurrentFile db n e = (OK, e')"
    using e1(1) e'(1) by (simp add: SetCurrentFile_def DescriptorFileName_def WriteStringToFileSync_def)
  moreover have "ReadFileToString (CurrentFileName db) e' = Some (OK, ?name @ [10])"
    using ReadFileToString_found [of e' "CurrentFileName db" a] e'(2,3) e1(3,4) ne by (simp add: file_at_def mem_written_def)
  moreover note ParseFileName_manifest [of n]
  moreover have "db @ str ''/'' @ ?name = DescriptorFileName db n" by (simp add: DescriptorFileName_def)
  moreover have "\<not> FileExists ?tmp e'" using e'(3) by (simp add: FileExists_def)
  moreover have "map_find (file_map e') f = map_find (file_map e) f" if "f \<noteq> ?tmp" "f \<noteq> CurrentFileName db" for f
    using e'(3) that e1(5) by simp
  moreover have "file_at b e' = file_at b e" if "b < length (file_states e)" for b
    using e1(6) [OF that] e'(2) by (simp add: file_at_def)
  ultimately show ?thesis by blast
qed

theorem decimal_bounds_witness:
  "\<not> fst (ConsumeDecimalNumber (str ''18446744073709551616.log'')) \<and>
   (\<exists>v. ConsumeDecimalNumber (str ''18446744073709551615.log'') = (True, Some v, str ''.log'') \<and>
     unat v = 18446744073709551615)"
proof -
  have ds: "\<forall>c\<in>set (str ''18446744073709551616''). digit c" "\<forall>c\<in>set (str ''18446744073709551615''). digit c"
    "dec_value 0 (str ''18446744073709551616'') = 18446744073709551616"
    "dec_value 0 (str ''18446744073709551615'') = 18446744073709551615"
    by (simp_all add: digit_def)
  have rest: "str ''.log'' = [] \<or> \<not> digit (hd (str ''.log''))" by (simp add: digit_def)
  show ?thesis
    using decimal_bounds [OF ds(1) _ rest] decimal_bounds [OF ds(2) _ rest] ds(3,4) by simp
qed

theorem current_names_manifest_witness:
  "\<exists>e'. SetCurrentFile (str ''/db'') 7 InMemoryEnv = (OK, e') \<and>
    ReadFileToString (str ''/db/CURRENT'') e' = Some (OK, str ''MANIFEST-000007'' @ [10])"
proof -
  have "DescriptorFileName (str ''/db'') 7 = str ''/db/MANIFEST-000007''"
    by code_simp
  moreover have "CurrentFileName (str ''/db'') = str ''/db/CURRENT''" by (simp add: CurrentFileName_def)
  ultimately show ?thesis using current_names_manifest [of "str ''/db''" 7 InMemoryEnv] by auto
qed

end
