(* ===== verification/Spec2Isabelle.thy ===== *)
theory Spec2Isabelle
  imports Debug_Session Notification_Center File_Utils Timer_Utils Ldb_Recover
begin

text \<open>
  Verification of the unify framework: the debugger that it builds around Duktape, its support
  code for files, timers and notifications, and the storage engine LevelDB that it embeds. All paths below are
  relative to \<open>src/unifyframework/\<close>.

  \<^bold>\<open>The parts and how they interact.\<close> A JavaScript engine (Duktape) runs the application.
  Its debugger server (\<open>duktape1.4.0/duk_debugger.c\<close>) talks over a byte stream to a client in the same process
  (\<open>platform/DukDebugger.cpp\<close>): user threads queue request bytes, the JavaScript thread fetches them through the
  callbacks of the connection, and hands back reply bytes, which a grammar (\<open>platform/DukDebuggerGrammar.cpp\<close>,
  written with Boost.Spirit) turns into messages. The application reads its scripts and resources through
  \<open>platform/CCFileUtils.cpp\<close>, sets timers through \<open>platform/CETimerUtils.cpp\<close>, exchanges events through
  \<open>include/NotificationCenter.cpp\<close>, and keeps its values in LevelDB (\<open>leveldb-master/\<close>).

  \<^bold>\<open>The theories.\<close>
  \<^item> \<open>Unify_Prelude\<close>: bytes, words, literals and the collections of rewrite rules that all theories share.
  \<^item> \<open>Spirit_Qi\<close>: the parser combinators of Boost.Spirit Qi that the grammar uses, as functions from bytes to an
    attribute and the remaining bytes; the locales \<open>local_parser\<close> and \<open>consuming_parser\<close> hold the laws of a parser
    that decides from a prefix of its input.
  \<^item> \<open>Debug_Grammar\<close>: the grammars of \<open>DukDebuggerGrammar.cpp\<close>, one definition per rule.
  \<^item> \<open>Grammar_Receiver\<close>: \<open>GrammarReceiver\<close>, its recognizers and its requests. The result of \<open>put\<close> does not
    depend on how the stream is cut into chunks; \<open>put\<close> conserves bytes and stops only when nothing can be recognized.
  \<^item> \<open>Std_Map\<close>: ordered maps as sorted association lists, with the locale \<open>ordered_map\<close>.
  \<^item> \<open>Duk_Debugger\<close>: the client. Its operations are sequential functions; \<open>client_step\<close> interleaves the critical
    sections of any number of user threads with the callbacks of the JavaScript thread.
  \<^item> \<open>Duk_Debug_Io\<close>, \<open>Duk_Debug_Server\<close>: the server of Duktape, its reading and writing of values and its message
    loop, over any transport. The call stack and the variables of the virtual machine are an argument.
  \<^item> \<open>Debug_Session\<close>: client and server composed; the locale \<open>debug_transport\<close> holds what the server relies on.
  \<^item> \<open>Notification_Center\<close>: observers and notifications of both platforms.
  \<^item> \<open>File_Utils\<close>: search paths, cache, lookup, reading and writing, with the Android subclass; the locale
    \<open>file_platform\<close> holds what the base class relies on.
  \<^item> \<open>Timer_Utils\<close>: the timers as a step relation between the JavaScript threads and the timer thread.
  \<^item> \<open>Ldb_Coding\<close>: numbers of fixed and variable length and strings with their length (\<open>util/coding.cc\<close>).
  \<^item> \<open>Ldb_Format\<close>: slices, comparators and internal keys (\<open>db/dbformat.cc\<close>, \<open>util/comparator.cc\<close>); the locale
    \<open>comparator_laws\<close> is what LevelDB asks of a comparator, met by both of its comparators.
  \<^item> \<open>Ldb_Skiplist\<close>: the skip list of \<open>db/skiplist.h\<close> over an explicit store of nodes, with the random heights; in
    the locale \<open>key_order\<close> it refines a sorted list.
  \<^item> \<open>Ldb_Memtable\<close>, \<open>Ldb_Batch\<close>: memtables and write batches: what a read at a snapshot sees of the writes.
  \<^item> \<open>Ldb_Crc32c\<close>: the checksums of \<open>util/crc32c.cc\<close>: the tables and the unrolled loops compute the polynomial
    division, and every change within four consecutive bytes changes the checksum.
  \<^item> \<open>Ldb_Env\<close>: statuses, the interfaces of files and the environment in memory (\<open>helpers/memenv/memenv.cc\<close>). The
    locales \<open>append_file\<close> and \<open>stream_file\<close> are what the log relies on.
  \<^item> \<open>Ldb_Log\<close>: the log of \<open>db/log_writer.cc\<close> and \<open>db/log_reader.cc\<close>: records survive a crash that cuts the file, and
    reading returns on every file.
  \<^item> \<open>Ldb_Filename\<close>: the names of files, the numbers in them and the file \<open>CURRENT\<close> (\<open>db/filename.cc\<close>,
    \<open>util/logging.cc\<close>, \<open>util/env.cc\<close>): names parse back, and numbers that do not fit into 64 bits are refused.
  \<^item> \<open>Ldb_Write\<close>: the queue of writers of \<open>db/db_impl.cc\<close> as a step relation over \<open>Write_call\<close>, \<open>Write_begin\<close> and
    \<open>Write_commit\<close>. The locale \<open>durable_file\<close> extends \<open>append_file\<close> by \<open>Sync\<close>; in it, every interleaving keeps the
    log, the memtable and the queue in agreement, and the queue can always be emptied.
  \<^item> \<open>Ldb_Recover\<close>: \<open>RecoverLogFile\<close>. Its last theorem joins the write path, the log and the recovery: after a crash,
    the effect of a beginning of the calls is restored.

  \<^bold>\<open>Bounds and fuel.\<close> There is no fuel. Loops that may not return are partial functions into an option
  type, and the theorems state that they return. Word sizes are those of the code: bytes are 8 bits, lengths and line
  numbers 32 bits, sequence numbers and packed tags 64 bits. Sizes that C++ keeps in \<open>size_t\<close> are natural numbers. The length
  bounds of the theorems (keys and values below 4 GiB, sequence numbers below 2 to the 56) are those of the encodings.

  \<^bold>\<open>Not modelled.\<close> 
  \<^item> The rest of Boost and of Duktape (compiler, executor, object model, garbage collection, regular expressions): the
    virtual machine enters only through what the debugger observes of it.
  \<^item> The rest of LevelDB: tables on disk and their caches, versions and compaction, the POSIX environment.
  \<^item> Code that only passes calls to an operating system or another language: the iOS classes and AFNetworking, the JNI
    glue and the Java classes, HTTP requests, images, local key-value preferences and zip archives.
  \<^item> The bindings between JavaScript and C++ other than those of timers (\<open>duktape_extra/\<close>): they move values on the
    stack of Duktape, whose model would be the object model of the engine.
  \<^item> Memory management and memory barriers: reference counts, arenas, and the concurrent readers of the skip list.
\<close>

end
